(* ===== verification/Xv6_Prelude.thy ===== *)
theory Xv6_Prelude
  imports Main "HOL-Library.Word"
begin

text \<open>
  Shared ground of the development: the kernel's compile-time constants
  (\<open>param.h\<close>, \<open>fs.h\<close>, \<open>mmu.h\<close>), the outcome type of a kernel
  function, the fixed-size table scan that the process, file and inode tables and the
  file descriptor array share, byte-addressed pages and blocks with their little-endian
  words, and reachability of a step relation with its invariant rule.
\<close>

unbundle bit_operations_syntax

named_theorems kconst "numeric values of the compile-time constants"
named_theorems kspec "outcome equations of kernel operations under their preconditions"
named_theorems kframe "what a kernel operation leaves unchanged"

section \<open>Compile-time constants\<close>

definition NPROC :: nat where [kconst]: "NPROC = 64"
definition NOFILE :: nat where [kconst]: "NOFILE = 16"
definition NFILE :: nat where [kconst]: "NFILE = 100"
definition NINODE :: nat where [kconst]: "NINODE = 50"
definition NDEV :: nat where [kconst]: "NDEV = 10"
definition ROOTDEV :: nat where [kconst]: "ROOTDEV = 1"
definition MAXOPBLOCKS :: nat where [kconst]: "MAXOPBLOCKS = 10"
definition LOGSIZE :: nat where [kconst]: "LOGSIZE = MAXOPBLOCKS * 3"
definition NBUF :: nat where [kconst]: "NBUF = MAXOPBLOCKS * 3"
definition FSSIZE :: nat where [kconst]: "FSSIZE = 40000"
definition NTHREAD :: nat where [kconst]: "NTHREAD = 16"
definition BSIZE :: nat where [kconst]: "BSIZE = 512"
definition PGSIZE :: nat where [kconst]: "PGSIZE = 4096"
definition KSTACKSIZE :: nat where [kconst]: "KSTACKSIZE = 4096"
definition EXTMEM :: nat where [kconst]: "EXTMEM = 0x100000"
definition PHYSTOP :: nat where [kconst]: "PHYSTOP = 0xE000000"
definition DEVSPACE :: nat where [kconst]: "DEVSPACE = 0xFE000000"
definition KERNBASE :: nat where [kconst]: "KERNBASE = 0x80000000"

section \<open>Machine integers\<close>

type_synonym byte = "8 word"
type_synonym u32 = "32 word"

text \<open>
  An \<open>int\<close> of the C code is a HOL \<open>int\<close>; where a value is stored back into a
  32-bit object and can leave the range, the wrap-around is written out with \<open>wrap32\<close>.
  An \<open>uint\<close> that only counts is a \<open>nat\<close> with \<open>uadd\<close> for the sums the code compares.
\<close>

definition wrap32 :: "int \<Rightarrow> int" where
  "wrap32 x = (x + 2 ^ 31) mod 2 ^ 32 - 2 ^ 31"

definition uadd :: "nat \<Rightarrow> nat \<Rightarrow> nat" where
  "uadd a b = (a + b) mod 2 ^ 32"

definition usub :: "nat \<Rightarrow> nat \<Rightarrow> nat" where
  "usub a b = (a + (2 ^ 32 - b mod 2 ^ 32)) mod 2 ^ 32"

text \<open>Kernel virtual addresses and the physical ones they are mapped to.\<close>

definition V2P :: "nat \<Rightarrow> nat" where
  "V2P a = usub a KERNBASE"

definition P2V :: "nat \<Rightarrow> nat" where
  "P2V a = uadd a KERNBASE"

definition PGROUNDUP :: "nat \<Rightarrow> nat" where
  "PGROUNDUP a = uadd a (PGSIZE - 1) div PGSIZE * PGSIZE"

definition PGROUNDDOWN :: "nat \<Rightarrow> nat" where
  "PGROUNDDOWN a = a div PGSIZE * PGSIZE"

text \<open>C's division truncates towards zero.\<close>

definition cdiv :: "int \<Rightarrow> int \<Rightarrow> int" where
  "cdiv a b = sgn a * sgn b * (\<bar>a\<bar> div \<bar>b\<bar>)"

lemma wrap32_id: "- (2 ^ 31) \<le> x \<Longrightarrow> x < 2 ^ 31 \<Longrightarrow> wrap32 x = x"
  by (simp add: wrap32_def)

lemma wrap32_range: "- (2 ^ 31) \<le> wrap32 x \<and> wrap32 x < 2 ^ 31"
proof -
  have "0 \<le> (x + 2 ^ 31) mod 2 ^ 32" and "(x + 2 ^ 31) mod 2 ^ 32 < 2 ^ 32"
    by simp_all
  then show ?thesis by (simp add: wrap32_def)
qed

lemma uadd_id: "a + b < 2 ^ 32 \<Longrightarrow> uadd a b = a + b"
  by (simp add: uadd_def)

lemma uadd_lt: "uadd a b < 2 ^ 32"
  by (simp add: uadd_def)

lemma uadd_overflow_iff: "a < 2 ^ 32 \<Longrightarrow> b < 2 ^ 32 \<Longrightarrow> uadd a b < a \<longleftrightarrow> 2 ^ 32 \<le> a + b"
proof -
  assume ab: "a < 2 ^ 32" "b < 2 ^ 32"
  show ?thesis
  proof (cases "a + b < 2 ^ 32")
    case True
    then show ?thesis by (simp add: uadd_id)
  next
    case False
    then have "uadd a b = a + b - 2 ^ 32"
      using ab by (simp add: uadd_def mod_if)
    with False ab show ?thesis by simp
  qed
qed

lemma usub_id: "b \<le> a \<Longrightarrow> a < 2 ^ 32 \<Longrightarrow> usub a b = a - b"
  by (simp add: usub_def mod_if)

lemma V2P_P2V [simp]: "a < KERNBASE \<Longrightarrow> V2P (P2V a) = a"
  by (simp add: V2P_def P2V_def usub_id uadd_id kconst)

lemma P2V_V2P: "KERNBASE \<le> v \<Longrightarrow> v < 2 ^ 32 \<Longrightarrow> P2V (V2P v) = v"
  by (simp add: V2P_def P2V_def usub_id uadd_id kconst)

lemma PGROUNDUP_mod [simp]: "PGROUNDUP a mod PGSIZE = 0"
  by (simp add: PGROUNDUP_def)

lemma PGROUNDDOWN_le: "PGROUNDDOWN a \<le> a"
  by (simp add: PGROUNDDOWN_def)

lemma PGROUNDDOWN_mod [simp]: "PGROUNDDOWN a mod PGSIZE = 0"
  by (simp add: PGROUNDDOWN_def)

lemma cdiv_pos: "0 \<le> a \<Longrightarrow> 0 < b \<Longrightarrow> cdiv a b = a div b"
  by (cases "a = 0") (simp_all add: cdiv_def)

section \<open>Outcome of a kernel function\<close>

text \<open>
  A kernel function run by a process either returns, or goes to sleep on a channel (the
  state is the one at the point of sleeping; the process re-tests its condition when it is
  woken), or brings the kernel down: \<open>panic(msg)\<close>, a divide-error trap in kernel mode, or
  a read the C standard leaves undefined, or a loop that never ends. Wait channels are addresses of kernel objects,
  so distinct objects give distinct channels.
\<close>

datatype chan =
    ChProc nat | ChTicks | ChLog | ChBuf nat | ChBufLock nat | ChInodeLock nat
  | ChPipeRead nat | ChPipeWrite nat | ChInput

datatype fault = PanicF string | DivideError | Undefined string | Diverges

datatype ('a, 's) kres = Ok 'a 's | Block chan 's | Fault fault

fun kbind :: "('a, 's) kres \<Rightarrow> ('a \<Rightarrow> 's \<Rightarrow> ('b, 's) kres) \<Rightarrow> ('b, 's) kres" where
  "kbind (Ok a s) f = f a s"
| "kbind (Block c s) f = Block c s"
| "kbind (Fault e) f = Fault e"

fun panic :: "string \<Rightarrow> ('a, 's) kres" where
  "panic msg = Fault (PanicF msg)"

lemma kbind_eq_Ok:
  "kbind m f = Ok b t \<longleftrightarrow> (\<exists>a s. m = Ok a s \<and> f a s = Ok b t)"
  by (cases m) simp_all

lemma kbind_eq_Fault:
  "kbind m f = Fault e \<longleftrightarrow> m = Fault e \<or> (\<exists>a s. m = Ok a s \<and> f a s = Fault e)"
  by (cases m) simp_all

lemma kbind_eq_Block:
  "kbind m f = Block c t \<longleftrightarrow> m = Block c t \<or> (\<exists>a s. m = Ok a s \<and> f a s = Block c t)"
  by (cases m) simp_all

lemma kbind_assoc: "kbind (kbind m f) g = kbind m (\<lambda>a s. kbind (f a s) g)"
  by (cases m) simp_all

lemma kbind_okE:
  assumes "kbind m f = Ok b t"
  obtains a s where "m = Ok a s" and "f a s = Ok b t"
  using assms by (cases m) auto

section \<open>Fixed-size tables scanned for a free slot\<close>

text \<open>
  \<open>allocproc\<close>, \<open>filealloc\<close>, \<open>iget\<close> and \<open>fdalloc\<close> all walk a fixed array from its first
  entry and stop at the first one that satisfies a test.
\<close>

fun first_index_from :: "nat \<Rightarrow> ('a \<Rightarrow> bool) \<Rightarrow> 'a list \<Rightarrow> nat option" where
  "first_index_from k P [] = None"
| "first_index_from k P (x # xs) =
     (if P x then Some k else first_index_from (Suc k) P xs)"

abbreviation first_index :: "('a \<Rightarrow> bool) \<Rightarrow> 'a list \<Rightarrow> nat option" where
  "first_index \<equiv> first_index_from 0"

lemma first_index_from_None: "first_index_from k P xs = None \<longleftrightarrow> (\<forall>x \<in> set xs. \<not> P x)"
  by (induction xs arbitrary: k) auto

lemma first_index_from_Some:
  "first_index_from k P xs = Some i \<longleftrightarrow>
     k \<le> i \<and> i - k < length xs \<and> P (xs ! (i - k)) \<and> (\<forall>j < i - k. \<not> P (xs ! j))"
proof (induction xs arbitrary: k)
  case Nil
  then show ?case by simp
next
  case (Cons x xs)
  show ?case
  proof (cases "P x")
    case True
    then show ?thesis by (cases "i - k") auto
  next
    case False
    show ?thesis
    proof (cases "Suc k \<le> i")
      case True
      then have ik: "i - k = Suc (i - Suc k)" by simp
      have "(\<forall>j < i - k. \<not> P ((x # xs) ! j)) \<longleftrightarrow> (\<forall>j < i - Suc k. \<not> P (xs ! j))"
        using False by (auto simp: ik All_less_Suc2)
      with True False Cons.IH [of "Suc k"] show ?thesis by (simp add: ik)
    next
      case F2: False
      with False Cons.IH [of "Suc k"] show ?thesis
        by (cases "i = k") auto
    qed
  qed
qed

lemma first_index_None: "first_index P xs = None \<longleftrightarrow> (\<forall>x \<in> set xs. \<not> P x)"
  by (rule first_index_from_None)

lemma first_index_Some:
  "first_index P xs = Some i \<longleftrightarrow> i < length xs \<and> P (xs ! i) \<and> (\<forall>j < i. \<not> P (xs ! j))"
  by (simp add: first_index_from_Some)

definition claim_first :: "('a \<Rightarrow> bool) \<Rightarrow> ('a \<Rightarrow> 'a) \<Rightarrow> 'a list \<Rightarrow> (nat \<times> 'a list) option" where
  "claim_first fr cl xs =
     (case first_index fr xs of None \<Rightarrow> None | Some i \<Rightarrow> Some (i, xs[i := cl (xs ! i)]))"

locale slot_table =
  fixes is_free :: "'a \<Rightarrow> bool" and claim :: "'a \<Rightarrow> 'a"
  assumes claim_busy: "is_free x \<Longrightarrow> \<not> is_free (claim x)"
begin

lemma claim_first_None: "claim_first is_free claim xs = None \<longleftrightarrow> (\<forall>x \<in> set xs. \<not> is_free x)"
proof (cases "first_index is_free xs")
  case None
  then show ?thesis unfolding claim_first_def by (simp, simp add: first_index_None)
next
  case (Some i)
  then have "i < length xs" "is_free (xs ! i)" by (simp_all add: first_index_Some)
  then have "\<exists>x \<in> set xs. is_free x" using nth_mem by blast
  with Some show ?thesis by (simp add: claim_first_def)
qed

lemma claim_first_Some:
  assumes "claim_first is_free claim xs = Some (i, ys)"
  shows "i < length xs" and "is_free (xs ! i)" and "\<forall>j < i. \<not> is_free (xs ! j)"
    and "ys = xs[i := claim (xs ! i)]"
  using assms by (auto simp: claim_first_def first_index_Some split: option.splits)

lemma claim_first_others:
  assumes "claim_first is_free claim xs = Some (i, ys)" and "j \<noteq> i"
  shows "ys ! j = xs ! j"
  using assms claim_first_Some by (metis nth_list_update_neq)

lemma claim_first_claimed:
  assumes "claim_first is_free claim xs = Some (i, ys)"
  shows "ys ! i = claim (xs ! i)" and "\<not> is_free (ys ! i)" and "length ys = length xs"
  using claim_first_Some [OF assms] claim_busy by auto

lemma claim_first_next:
  assumes "claim_first is_free claim xs = Some (i, ys)"
    and "claim_first is_free claim ys = Some (j, zs)"
  shows "i < j"
proof (rule ccontr)
  assume nl: "\<not> i < j"
  have fr: "is_free (ys ! j)" using claim_first_Some(2) [OF assms(2)] .
  show False
  proof (cases "j = i")
    case True
    with fr claim_first_claimed(2) [OF assms(1)] show False by simp
  next
    case False
    with nl have "j < i" by simp
    with claim_first_Some(3) [OF assms(1)] have "\<not> is_free (xs ! j)" by simp
    with fr claim_first_others [OF assms(1) False] show False by simp
  qed
qed

end

section \<open>First in, first out\<close>

text \<open>A bounded queue: its content as a list, and what its two ends do to that list.\<close>

locale fifo =
  fixes content :: "'q \<Rightarrow> 'e list" and ok :: "'q \<Rightarrow> bool" and cap :: nat
    and full :: "'q \<Rightarrow> bool" and empty :: "'q \<Rightarrow> bool" and put :: "'e \<Rightarrow> 'q \<Rightarrow> 'q" and get :: "'q \<Rightarrow> 'e \<times> 'q"
  assumes cap: "ok q \<Longrightarrow> length (content q) \<le> cap"
    and full: "ok q \<Longrightarrow> full q \<longleftrightarrow> length (content q) = cap"
    and empty: "ok q \<Longrightarrow> empty q \<longleftrightarrow> content q = []"
    and put: "ok q \<Longrightarrow> \<not> full q \<Longrightarrow> ok (put e q) \<and> content (put e q) = content q @ [e]"
    and get: "ok q \<Longrightarrow> \<not> empty q \<Longrightarrow> ok (snd (get q)) \<and> content q = fst (get q) # content (snd (get q))"
begin

fun put_all :: "'e list \<Rightarrow> 'q \<Rightarrow> 'q" where
  "put_all [] q = q"
| "put_all (e # es) q = (if full q then q else put_all es (put e q))"

lemma put_all_content:
  "ok q \<Longrightarrow> ok (put_all es q) \<and> content (put_all es q) = content q @ take (cap - length (content q)) es"
proof (induction es arbitrary: q)
  case (Cons e es)
  show ?case
  proof (cases "full q")
    case True then show ?thesis using Cons.prems full by simp
  next
    case False
    then have p: "ok (put e q)" "content (put e q) = content q @ [e]" and "length (content q) < cap"
      using put [OF Cons.prems] full [OF Cons.prems] cap [OF Cons.prems] by auto
    then obtain k where "cap - length (content q) = Suc k" "cap - Suc (length (content q)) = k"
      by (metis Suc_diff_Suc)
    then show ?thesis using Cons.IH [OF p(1)] p(2) False by simp
  qed
qed simp

fun get_n :: "nat \<Rightarrow> 'q \<Rightarrow> 'e list \<times> 'q" where
  "get_n 0 q = ([], q)"
| "get_n (Suc n) q = (if empty q then ([], q) else let (e, q) = get q; (es, q) = get_n n q in (e # es, q))"

lemma get_n_content:
  "ok q \<Longrightarrow> ok (snd (get_n n q)) \<and> fst (get_n n q) = take n (content q) \<and> content (snd (get_n n q)) = drop n (content q)"
proof (induction n arbitrary: q)
  case (Suc n)
  show ?case
  proof (cases "empty q")
    case True then show ?thesis using Suc.prems empty by simp
  next
    case False
    obtain e r where g: "get q = (e, r)" by force
    then have "ok r" "content q = e # content r" using get [OF Suc.prems False] by simp_all
    then show ?thesis using Suc.IH [of r] g False by (simp add: split_beta)
  qed
qed simp

end

section \<open>Byte arrays and little-endian words\<close>

text \<open>
  A disk block, a buffer's data or a page of physical memory is a total function from
  offsets to bytes; only offsets below the size of the object are ever used. A \<open>uint\<close> at
  index \<open>i\<close> of such an array (\<open>((uint*)data)[i]\<close>) is stored little-endian.
\<close>

type_synonym bytes = "nat \<Rightarrow> byte"

definition get_uint :: "bytes \<Rightarrow> nat \<Rightarrow> u32" where
  "get_uint d i = ucast (d (4 * i)) OR push_bit 8 (ucast (d (4 * i + 1)))
     OR push_bit 16 (ucast (d (4 * i + 2))) OR push_bit 24 (ucast (d (4 * i + 3)))"

definition put_uint :: "bytes \<Rightarrow> nat \<Rightarrow> u32 \<Rightarrow> bytes" where
  "put_uint d i v = d(4 * i := ucast v, 4 * i + 1 := ucast (drop_bit 8 v),
     4 * i + 2 := ucast (drop_bit 16 v), 4 * i + 3 := ucast (drop_bit 24 v))"

lemma uint_bytes_join:
  "ucast (ucast v :: byte) OR push_bit 8 (ucast (ucast (drop_bit 8 v) :: byte))
     OR push_bit 16 (ucast (ucast (drop_bit 16 v) :: byte))
     OR push_bit 24 (ucast (ucast (drop_bit 24 v) :: byte)) = (v :: u32)"
proof (rule bit_word_eqI)
  fix n
  assume "n < LENGTH(32)"
  then consider "n < 8" | "8 \<le> n" "n < 16" | "16 \<le> n" "n < 24" | "24 \<le> n" "n < 32"
    by fastforce
  then show "bit (ucast (ucast v :: byte) OR push_bit 8 (ucast (ucast (drop_bit 8 v) :: byte))
     OR push_bit 16 (ucast (ucast (drop_bit 16 v) :: byte))
     OR push_bit 24 (ucast (ucast (drop_bit 24 v) :: byte)) :: u32) n = bit v n"
    by cases (simp_all add: bit_simps less_diff_conv2)
qed

lemma get_put_uint [simp]: "get_uint (put_uint d i v) i = v"
  by (simp add: get_uint_def put_uint_def uint_bytes_join)

lemma get_put_uint_other [simp]: "i \<noteq> j \<Longrightarrow> get_uint (put_uint d i v) j = get_uint d j"
proof -
  assume "i \<noteq> j"
  then have ne: "(4 * j + a = 4 * i + b) = False" if "a < 4" "b < 4" for a b :: nat
    using that by arith
  have "put_uint d i v (4 * j + a) = d (4 * j + a)" if "a < 4" for a
    using ne [OF that, of 0] ne [OF that, of 1] ne [OF that, of 2] ne [OF that, of 3]
    by (simp only: put_uint_def fun_upd_apply) simp
  from this [of 0] this [of 1] this [of 2] this [of 3] show ?thesis
    by (simp add: get_uint_def)
qed

lemma put_uint_frame: "k div 4 \<noteq> i \<Longrightarrow> put_uint d i v k = d k"
proof -
  assume "k div 4 \<noteq> i"
  then have "k \<noteq> 4 * i" "k \<noteq> 4 * i + 1" "k \<noteq> 4 * i + 2" "k \<noteq> 4 * i + 3"
    by auto
  then show ?thesis by (simp add: put_uint_def)
qed

definition zero_bytes :: bytes where
  "zero_bytes = (\<lambda>_. 0)"

definition blit :: "bytes \<Rightarrow> nat \<Rightarrow> byte list \<Rightarrow> bytes" where
  "blit d off bs = (\<lambda>k. if off \<le> k \<and> k < off + length bs then bs ! (k - off) else d k)"

definition slice :: "bytes \<Rightarrow> nat \<Rightarrow> nat \<Rightarrow> byte list" where
  "slice d off n = map d [off ..< off + n]"

lemma get_uint_zero [simp]: "get_uint zero_bytes i = 0"
  by (simp add: get_uint_def zero_bytes_def)

lemma length_slice [simp]: "length (slice d off n) = n"
  by (simp add: slice_def)

lemma slice_blit: "slice (blit d off bs) off (length bs) = bs"
  by (rule nth_equalityI) (simp_all add: slice_def blit_def)

lemma blit_slice: "blit d off (slice d off n) = d"
  by (rule ext) (auto simp: slice_def blit_def)

section \<open>Reachable states\<close>

inductive reach :: "('s \<Rightarrow> bool) \<Rightarrow> ('s \<Rightarrow> 's \<Rightarrow> bool) \<Rightarrow> 's \<Rightarrow> bool"
  for init :: "'s \<Rightarrow> bool" and step :: "'s \<Rightarrow> 's \<Rightarrow> bool" where
  reach_init: "init s \<Longrightarrow> reach init step s"
| reach_step: "reach init step s \<Longrightarrow> step s t \<Longrightarrow> reach init step t"

locale invariant_machine =
  fixes init :: "'s \<Rightarrow> bool" and step :: "'s \<Rightarrow> 's \<Rightarrow> bool" and inv :: "'s \<Rightarrow> bool"
  assumes inv_init: "init s \<Longrightarrow> inv s"
    and inv_step: "inv s \<Longrightarrow> step s t \<Longrightarrow> inv t"
begin

lemma reach_inv: "reach init step s \<Longrightarrow> inv s"
  by (induction rule: reach.induct) (auto intro: inv_init inv_step)

end

end
