(* ===== verification/Proc_Base.thy ===== *)
theory Proc_Base
  imports Xv6_Prelude
begin

text \<open>
  The process table of \<open>proc.c\<close> and \<open>proc.h\<close>, the spin locks as the CPU that runs a
  kernel path sees them, and the operations that only touch the table: \<open>sched\<close>,
  \<open>yield\<close>, \<open>sleep\<close>, \<open>wakeup\<close>, \<open>kill\<close>, \<open>kill_lwpgroup\<close>. A \<open>struct proc *\<close> is an
  index into the table, the null pointer is \<open>None\<close>.
\<close>

section \<open>Data\<close>

datatype MLFQ_level = LOW | MID | HIGH

fun level_num :: "MLFQ_level \<Rightarrow> int" where
  "level_num LOW = 0"
| "level_num MID = 1"
| "level_num HIGH = 2"

instantiation MLFQ_level :: linorder
begin

definition less_eq_MLFQ_level :: "MLFQ_level \<Rightarrow> MLFQ_level \<Rightarrow> bool" where
  "less_eq_MLFQ_level a b = (level_num a \<le> level_num b)"

definition less_MLFQ_level :: "MLFQ_level \<Rightarrow> MLFQ_level \<Rightarrow> bool" where
  "less_MLFQ_level a b = (level_num a < level_num b)"

instance
proof
  fix x y z :: MLFQ_level
  show "(x < y) = (x \<le> y \<and> \<not> y \<le> x)"
    by (auto simp: less_eq_MLFQ_level_def less_MLFQ_level_def)
  show "x \<le> x" by (simp add: less_eq_MLFQ_level_def)
  show "x \<le> y \<Longrightarrow> y \<le> z \<Longrightarrow> x \<le> z" by (simp add: less_eq_MLFQ_level_def)
  show "x \<le> y \<Longrightarrow> y \<le> x \<Longrightarrow> x = y"
    by (cases x; cases y) (simp_all add: less_eq_MLFQ_level_def)
  show "x \<le> y \<or> y \<le> x" by (auto simp: less_eq_MLFQ_level_def)
qed

end

datatype Proc_mode = MLFQ | Stride

datatype procstate = UNUSED | EMBRYO | SLEEPING | RUNNABLE | RUNNING | ZOMBIE

text \<open>
  The registers \<open>trapasm.S\<close> saves. The padding halves and the unused saved \<open>esp\<close> of
  \<open>struct trapframe\<close> have no field.
\<close>

record trapframe =
  tf_edi :: u32
  tf_esi :: u32
  tf_ebp :: u32
  tf_ebx :: u32
  tf_edx :: u32
  tf_ecx :: u32
  tf_eax :: u32
  tf_gs :: u32
  tf_fs :: u32
  tf_es :: u32
  tf_ds :: u32
  tf_trapno :: u32
  tf_err :: u32
  tf_eip :: u32
  tf_cs :: u32
  tf_eflags :: u32
  tf_esp :: u32
  tf_ss :: u32

text \<open>
  A saved kernel context is the one \<open>allocproc\<close> builds (zeroed, starting at \<open>forkret\<close> and
  returning to \<open>trapret\<close>) or one that \<open>swtch\<close> saved.
\<close>

datatype kcontext = NoContext | ForkretContext | SavedContext

text \<open>
  \<open>struct proc\<close>, field by field. \<open>sz\<close> and the stack tops are unsigned numbers, page table
  and kernel stack pointers are addresses with \<open>0\<close> for null, \<open>ofile\<close> and \<open>cwd\<close> point into
  the file and inode tables. The \<open>double\<close> fields \<open>PASS\<close>, \<open>PASS_MLFQ\<close> and \<open>PASS_Stride\<close>
  only ever hold sums of integer quotients of \<open>10000\<close>: they are integers here, which is
  exact below \<open>2 ^ 53\<close>.
\<close>

record proc =
  p_sz :: nat
  p_pgdir :: nat
  p_kstack :: nat
  p_state :: procstate
  p_pid :: int
  p_parent :: "nat option"
  p_tf :: trapframe
  p_context :: kcontext
  p_chan :: "chan option"
  p_killed :: bool
  p_ofile :: "nat option list"
  p_cwd :: "nat option"
  p_name :: "byte list"
  p_tick :: int
  p_MLFQ_lv :: MLFQ_level
  p_proc_mode :: Proc_mode
  p_CPU_SHARE :: int
  p_PASS :: int
  p_sz_thread :: "nat list"
  p_ex_thread :: "bool list"
  p_hasthread :: bool
  p_thread_num :: int
  p_isthread :: bool
  p_ret_val :: u32
  p_exiting :: bool
  p_mother :: "nat option"
  p_CPU_share_Stride :: int
  p_PASS_MLFQ :: int
  p_PASS_Stride :: int
  p_max_stride_thread_pass :: int
  p_total_ticks_MLFQ :: int
  p_CPU_S :: int
  p_m_tick :: int
  p_m_MLFQ_lv :: MLFQ_level

datatype lockid =
    PtableLock | AtomicLock | TicksLock | KmemLock | BcacheLock | IcacheLock | FtableLock
  | LogLock | IdeLock | ConsLock | PipeLock nat | SleepLk chan

text \<open>
  The kernel state seen by one CPU on a kernel path: the spin locks it holds (innermost
  first; its \<open>ncli\<close> is their number), the process it runs, the process table with its
  globals, and the scheduler's globals \<open>num_Stride\<close>, \<open>max_stride_proc_pass\<close> and
  \<open>num_MLFQ\<close>.
\<close>

record kbase =
  held :: "lockid list"
  curproc :: "nat option"
  cpu_esp0 :: nat
  cpu_cr3 :: nat
  kpgdir :: nat
  ptable :: "proc list"
  initproc :: "nat option"
  nextpid :: int
  ticks :: nat
  CPU_share_Stride :: int
  PASS_MLFQ :: int
  PASS_Stride :: int
  max_stride_proc_pass :: int
  total_ticks_MLFQ :: int

text \<open>Static storage starts zeroed, except for \<open>nextpid = 1\<close>.\<close>

definition zero_tf :: trapframe where
  "zero_tf = \<lparr>tf_edi = 0, tf_esi = 0, tf_ebp = 0, tf_ebx = 0, tf_edx = 0, tf_ecx = 0, tf_eax = 0,
     tf_gs = 0, tf_fs = 0, tf_es = 0, tf_ds = 0, tf_trapno = 0, tf_err = 0, tf_eip = 0, tf_cs = 0,
     tf_eflags = 0, tf_esp = 0, tf_ss = 0\<rparr>"

definition zero_proc :: proc where
  "zero_proc = \<lparr>p_sz = 0, p_pgdir = 0, p_kstack = 0, p_state = UNUSED, p_pid = 0,
     p_parent = None, p_tf = zero_tf, p_context = NoContext, p_chan = None, p_killed = False,
     p_ofile = replicate NOFILE None, p_cwd = None, p_name = replicate 16 0,
     p_tick = 0, p_MLFQ_lv = LOW, p_proc_mode = MLFQ, p_CPU_SHARE = 0, p_PASS = 0,
     p_sz_thread = replicate NTHREAD 0, p_ex_thread = replicate NTHREAD False,
     p_hasthread = False, p_thread_num = 0, p_isthread = False, p_ret_val = 0,
     p_exiting = False, p_mother = None, p_CPU_share_Stride = 0, p_PASS_MLFQ = 0,
     p_PASS_Stride = 0, p_max_stride_thread_pass = 0, p_total_ticks_MLFQ = 0, p_CPU_S = 0,
     p_m_tick = 0, p_m_MLFQ_lv = LOW\<rparr>"

definition boot_kbase :: kbase where
  "boot_kbase = \<lparr>held = [], curproc = None, cpu_esp0 = 0, cpu_cr3 = 0, kpgdir = 0,
     ptable = replicate NPROC zero_proc, initproc = None, nextpid = 1, ticks = 0,
     CPU_share_Stride = 0, PASS_MLFQ = 0, PASS_Stride = 0, max_stride_proc_pass = 0,
     total_ticks_MLFQ = 0\<rparr>"

definition upd_proc :: "nat \<Rightarrow> (proc \<Rightarrow> proc) \<Rightarrow> 'a kbase_scheme \<Rightarrow> 'a kbase_scheme" where
  "upd_proc i f s = s\<lparr>ptable := (ptable s)[i := f (ptable s ! i)]\<rparr>"

abbreviation the_proc :: "'a kbase_scheme \<Rightarrow> nat \<Rightarrow> proc" where
  "the_proc s i \<equiv> ptable s ! i"

section \<open>Spin locks as the holding CPU sees them\<close>

text \<open>
  \<open>acquire\<close> panics when this CPU already holds the lock and otherwise returns once it has
  it; \<open>release\<close> panics when this CPU does not hold it. The spinning, the \<open>xchg\<close> and the
  interrupt nesting are modelled, for several CPUs, in \<open>Spinlock\<close>.
\<close>

definition acquire :: "lockid \<Rightarrow> 'a kbase_scheme \<Rightarrow> (unit, 'a kbase_scheme) kres" where
  "acquire lk s =
     (if lk \<in> set (held s) then panic ''acquire'' else Ok () (s\<lparr>held := lk # held s\<rparr>))"

definition release :: "lockid \<Rightarrow> 'a kbase_scheme \<Rightarrow> (unit, 'a kbase_scheme) kres" where
  "release lk s =
     (if lk \<notin> set (held s) then panic ''release''
      else Ok () (s\<lparr>held := remove1 lk (held s)\<rparr>))"

section \<open>Giving up the CPU\<close>

text \<open>
  \<open>sched\<close> checks that only \<open>ptable.lock\<close> is held and that the state was changed, then
  switches to the scheduler: the returned state is the one the scheduler resumes in. With
  a spin lock held interrupts are off, so the \<open>FL_IF\<close> test cannot fire.
\<close>

definition sched :: "'a kbase_scheme \<Rightarrow> (unit, 'a kbase_scheme) kres" where
  "sched s =
     (case curproc s of
        None \<Rightarrow> Fault (Undefined ''sched without a process'')
      | Some p \<Rightarrow>
          if PtableLock \<notin> set (held s) then panic ''sched ptable.lock''
          else if length (held s) \<noteq> 1 then panic ''sched locks''
          else if p_state (the_proc s p) = RUNNING then panic ''sched running''
          else Ok () (upd_proc p (p_context_update (\<lambda>_. SavedContext)) s))"

text \<open>
  \<open>yield\<close> up to the context switch, and its rest after the process is scheduled again.
\<close>

definition yield :: "'a kbase_scheme \<Rightarrow> (unit, 'a kbase_scheme) kres" where
  "yield s =
     kbind (acquire PtableLock s) (\<lambda>_ s.
       case curproc s of
         None \<Rightarrow> Fault (Undefined ''yield without a process'')
       | Some p \<Rightarrow> sched (upd_proc p (p_state_update (\<lambda>_. RUNNABLE)) s))"

definition yield_resume :: "'a kbase_scheme \<Rightarrow> (int, 'a kbase_scheme) kres" where
  "yield_resume s = kbind (release PtableLock s) (\<lambda>_ s. Ok 0 s)"

text \<open>
  \<open>sleep\<close> up to the context switch: the result is \<open>Block\<close> with the state the scheduler
  gets. \<open>sleep_resume\<close> is its rest, run when the process is scheduled again.
\<close>

definition sleep :: "chan \<Rightarrow> lockid \<Rightarrow> 'a kbase_scheme \<Rightarrow> ('b, 'a kbase_scheme) kres" where
  "sleep c lk s =
     (case curproc s of
        None \<Rightarrow> panic ''sleep''
      | Some p \<Rightarrow>
          kbind (if lk \<noteq> PtableLock
                 then kbind (acquire PtableLock s) (\<lambda>_ s. release lk s) else Ok () s)
            (\<lambda>_ s. kbind (sched (upd_proc p
                       (\<lambda>q. q\<lparr>p_chan := Some c, p_state := SLEEPING\<rparr>) s))
            (\<lambda>_ s. Block c s)))"

definition sleep_resume :: "lockid \<Rightarrow> 'a kbase_scheme \<Rightarrow> (unit, 'a kbase_scheme) kres" where
  "sleep_resume lk s =
     (case curproc s of
        None \<Rightarrow> Fault (Undefined ''resume without a process'')
      | Some p \<Rightarrow>
          let s = upd_proc p (p_chan_update (\<lambda>_. None)) s
          in if lk \<noteq> PtableLock
             then kbind (release PtableLock s) (\<lambda>_ s. acquire lk s) else Ok () s)"

section \<open>Waking and killing\<close>

definition wake_proc :: "chan \<Rightarrow> proc \<Rightarrow> proc" where
  "wake_proc c p =
     (if p_state p = SLEEPING \<and> p_chan p = Some c then p\<lparr>p_state := RUNNABLE\<rparr> else p)"

definition wakeup1 :: "chan \<Rightarrow> 'a kbase_scheme \<Rightarrow> 'a kbase_scheme" where
  "wakeup1 c s = s\<lparr>ptable := map (wake_proc c) (ptable s)\<rparr>"

definition wakeup :: "chan \<Rightarrow> 'a kbase_scheme \<Rightarrow> (unit, 'a kbase_scheme) kres" where
  "wakeup c s = kbind (acquire PtableLock s) (\<lambda>_ s. release PtableLock (wakeup1 c s))"

definition kill_proc :: "proc \<Rightarrow> proc" where
  "kill_proc p =
     (let p = p\<lparr>p_killed := True\<rparr>
      in if p_state p = SLEEPING then p\<lparr>p_state := RUNNABLE\<rparr> else p)"

definition kill :: "int \<Rightarrow> 'a kbase_scheme \<Rightarrow> (int, 'a kbase_scheme) kres" where
  "kill pid s =
     kbind (acquire PtableLock s) (\<lambda>_ s.
       case first_index (\<lambda>p. p_pid p = pid) (ptable s) of
         Some i \<Rightarrow> kbind (release PtableLock (upd_proc i kill_proc s)) (\<lambda>_ s. Ok 0 s)
       | None \<Rightarrow> kbind (release PtableLock s) (\<lambda>_ s. Ok (-1) s))"

text \<open>
  \<open>kill_lwpgroup pid np\<close>: for a thread \<open>np\<close>, every other thread whose mother has pid
  \<open>pid\<close>. A thread's \<open>mother\<close> is dereferenced.
\<close>

definition in_lwpgroup :: "proc list \<Rightarrow> int \<Rightarrow> int \<Rightarrow> proc \<Rightarrow> bool" where
  "in_lwpgroup ps pid npid p \<longleftrightarrow>
     p_isthread p \<and> (case p_mother p of None \<Rightarrow> False | Some m \<Rightarrow> p_pid (ps ! m) = pid)
       \<and> p_pid p \<noteq> npid"

definition kill_lwpgroup :: "int \<Rightarrow> nat \<Rightarrow> 'a kbase_scheme \<Rightarrow> (int, 'a kbase_scheme) kres" where
  "kill_lwpgroup pid np s =
     kbind (acquire PtableLock s) (\<lambda>_ s.
       if p_isthread (the_proc s np) then
         if \<exists>p \<in> set (ptable s). p_isthread p \<and> p_mother p = None
         then Fault (Undefined ''thread without a mother'')
         else
           kbind (release PtableLock (s\<lparr>ptable :=
               map (\<lambda>p. if in_lwpgroup (ptable s) pid (p_pid (the_proc s np)) p
                        then kill_proc p else p) (ptable s)\<rparr>)) (\<lambda>_ s. Ok 0 s)
       else kbind (release PtableLock s) (\<lambda>_ s. Ok (-1) s))"

section \<open>Lemmas\<close>

lemma upd_proc_sel [simp]:
  "held (upd_proc i f s) = held s" "curproc (upd_proc i f s) = curproc s"
  "initproc (upd_proc i f s) = initproc s" "nextpid (upd_proc i f s) = nextpid s"
  "CPU_share_Stride (upd_proc i f s) = CPU_share_Stride s"
  "PASS_MLFQ (upd_proc i f s) = PASS_MLFQ s" "PASS_Stride (upd_proc i f s) = PASS_Stride s"
  "max_stride_proc_pass (upd_proc i f s) = max_stride_proc_pass s"
  "total_ticks_MLFQ (upd_proc i f s) = total_ticks_MLFQ s"
  "length (ptable (upd_proc i f s)) = length (ptable s)"
  "kbase.more (upd_proc i f s) = kbase.more s"
  "ticks (upd_proc i f s) = ticks s"
  by (simp_all add: upd_proc_def)

lemma the_proc_upd [simp]: "i < length (ptable s) \<Longrightarrow> the_proc (upd_proc i f s) i = f (the_proc s i)"
  by (simp add: upd_proc_def)

lemma the_proc_upd_other [simp]: "i \<noteq> j \<Longrightarrow> the_proc (upd_proc i f s) j = the_proc s j"
  by (simp add: upd_proc_def)

lemma acquire_Ok [kspec]: "lk \<notin> set (held s) \<Longrightarrow> acquire lk s = Ok () (s\<lparr>held := lk # held s\<rparr>)"
  by (simp add: acquire_def)

lemma acquire_held: "lk \<in> set (held s) \<Longrightarrow> acquire lk s = Fault (PanicF ''acquire'')"
  by (simp add: acquire_def)

lemma release_Ok [kspec]:
  "lk \<in> set (held s) \<Longrightarrow> release lk s = Ok () (s\<lparr>held := remove1 lk (held s)\<rparr>)"
  by (simp add: release_def)

lemma wakeup_Ok [kspec]:
  "PtableLock \<notin> set (held s) \<Longrightarrow> wakeup c s = Ok () (wakeup1 c s)"
  by (simp add: wakeup_def wakeup1_def acquire_Ok release_Ok)

lemma wakeup1_sel [simp]:
  "held (wakeup1 c s) = held s" "curproc (wakeup1 c s) = curproc s"
  "kbase.more (wakeup1 c s) = kbase.more s"
  "length (ptable (wakeup1 c s)) = length (ptable s)"
  "ptable (wakeup1 c s) = map (wake_proc c) (ptable s)"
  by (simp_all add: wakeup1_def)

lemma wake_proc_sel [simp]:
  "p_pid (wake_proc c p) = p_pid p" "p_parent (wake_proc c p) = p_parent p"
  "p_chan (wake_proc c p) = p_chan p" "p_killed (wake_proc c p) = p_killed p"
  "p_mother (wake_proc c p) = p_mother p" "p_isthread (wake_proc c p) = p_isthread p"
  by (simp_all add: wake_proc_def)

lemma kill_proc_sel [simp]:
  "p_pid (kill_proc p) = p_pid p" "p_killed (kill_proc p)" "p_parent (kill_proc p) = p_parent p"
  "p_state (kill_proc p) = (if p_state p = SLEEPING then RUNNABLE else p_state p)"
  by (simp_all add: kill_proc_def Let_def)

lemma sleep_eq:
  assumes "held s = [lk]" and "lk \<noteq> PtableLock" and "curproc s = Some q" and "q < length (ptable s)"
  shows "sleep c lk s = Block c (upd_proc q (\<lambda>r. r\<lparr>p_chan := Some c, p_state := SLEEPING, p_context := SavedContext\<rparr>)
    (s\<lparr>held := [PtableLock]\<rparr>))"
  using assms by (simp add: sleep_def acquire_def release_def sched_def upd_proc_def)

text \<open>No process waits on \<open>c\<close>.\<close>

definition no_sleeper :: "chan \<Rightarrow> 'a kbase_scheme \<Rightarrow> bool" where
  "no_sleeper c s \<longleftrightarrow> (\<forall>r \<in> set (ptable s). \<not> (p_state r = SLEEPING \<and> p_chan r = Some c))"

lemma no_sleeper_wakeup: "no_sleeper c (wakeup1 c s)"
  by (auto simp: no_sleeper_def wakeup1_def wake_proc_def)

end
