(* ===== verification/Spinlock.thy ===== *)
theory Spinlock
  imports Proc_Base
begin

text \<open>
  Spin locks on several CPUs (\<open>spinlock.c\<close>): the nesting of interrupt disabling, the \<open>xchg\<close> loop and
  the stores of \<open>release\<close> as separate steps that the CPUs interleave, and the agreement with the locks
  of \<open>Proc_Base\<close>, where \<open>acquire\<close> and \<open>release\<close> are single operations on the list of held locks.
\<close>

section \<open>Interrupts\<close>

text \<open>The interrupt flag of a CPU, and \<open>ncli\<close> and \<open>intena\<close> of its \<open>struct cpu\<close>.\<close>

record cpu =
  c_if :: bool
  c_ncli :: int
  c_intena :: bool

definition pushcli :: "cpu \<Rightarrow> cpu" where
  "pushcli c = c\<lparr>c_if := False, c_intena := (if c_ncli c = 0 then c_if c else c_intena c), c_ncli := c_ncli c + 1\<rparr>"

text \<open>\<open>None\<close> is a panic.\<close>

definition popcli :: "cpu \<Rightarrow> cpu option" where
  "popcli c =
     (if c_if c then None
      else let n = c_ncli c - 1
           in if n < 0 then None
              else Some (c\<lparr>c_ncli := n, c_if := (n = 0 \<and> c_intena c)\<rparr>))"

section \<open>Locks\<close>

record spinlock =
  l_locked :: bool
  l_cpu :: "nat option"

definition initlock :: spinlock where
  "initlock = \<lparr>l_locked = False, l_cpu = None\<rparr>"

text \<open>
  \<open>holding\<close> by CPU \<open>i\<close>; its \<open>pushcli\<close> and \<open>popcli\<close> cancel out. The call stack that \<open>getcallerpcs\<close>
  stores in the lock is left out: it is only printed.
\<close>

definition holding :: "nat \<Rightarrow> spinlock \<Rightarrow> bool" where
  "holding i l \<longleftrightarrow> l_locked l \<and> l_cpu l = Some i"

text \<open>
  Where a CPU is: outside \<open>acquire\<close> and \<open>release\<close>; spinning; behind its successful \<open>xchg\<close>; in
  \<open>release\<close> before \<open>lk->cpu = 0\<close>; before the store to \<open>locked\<close>; stopped by a panic. \<open>s_held\<close> records
  the locks whose \<open>acquire\<close> has returned and whose \<open>release\<close> was not called; no code reads it.
\<close>

datatype spc = Outside | Spin lockid | Got lockid | Drop lockid | Unlock lockid | Panicked

record spin =
  s_cpu :: "nat \<Rightarrow> cpu"
  s_lock :: "lockid \<Rightarrow> spinlock"
  s_pc :: "nat \<Rightarrow> spc"
  s_held :: "nat \<Rightarrow> lockid list"

definition acquire_start :: "nat \<Rightarrow> lockid \<Rightarrow> spin \<Rightarrow> spin" where
  "acquire_start i lk s =
     s\<lparr>s_cpu := (s_cpu s)(i := pushcli (s_cpu s i)),
       s_pc := (s_pc s)(i := if holding i (s_lock s lk) then Panicked else Spin lk)\<rparr>"

definition acquire_xchg :: "nat \<Rightarrow> lockid \<Rightarrow> spin \<Rightarrow> spin" where
  "acquire_xchg i lk s =
     (let old = l_locked (s_lock s lk)
      in s\<lparr>s_lock := (s_lock s)(lk := s_lock s lk\<lparr>l_locked := True\<rparr>),
           s_pc := (s_pc s)(i := if old then Spin lk else Got lk)\<rparr>)"

definition acquire_finish :: "nat \<Rightarrow> lockid \<Rightarrow> spin \<Rightarrow> spin" where
  "acquire_finish i lk s =
     s\<lparr>s_lock := (s_lock s)(lk := s_lock s lk\<lparr>l_cpu := Some i\<rparr>), s_pc := (s_pc s)(i := Outside),
       s_held := (s_held s)(i := lk # s_held s i)\<rparr>"

definition release_start :: "nat \<Rightarrow> lockid \<Rightarrow> spin \<Rightarrow> spin" where
  "release_start i lk s =
     (if \<not> holding i (s_lock s lk) then s\<lparr>s_pc := (s_pc s)(i := Panicked)\<rparr>
      else s\<lparr>s_pc := (s_pc s)(i := Drop lk), s_held := (s_held s)(i := remove1 lk (s_held s i))\<rparr>)"

definition release_drop :: "nat \<Rightarrow> lockid \<Rightarrow> spin \<Rightarrow> spin" where
  "release_drop i lk s =
     s\<lparr>s_lock := (s_lock s)(lk := s_lock s lk\<lparr>l_cpu := None\<rparr>), s_pc := (s_pc s)(i := Unlock lk)\<rparr>"

definition release_unlock :: "nat \<Rightarrow> lockid \<Rightarrow> spin \<Rightarrow> spin" where
  "release_unlock i lk s =
     (let s = s\<lparr>s_lock := (s_lock s)(lk := s_lock s lk\<lparr>l_locked := False\<rparr>)\<rparr>
      in case popcli (s_cpu s i) of
           None \<Rightarrow> s\<lparr>s_pc := (s_pc s)(i := Panicked)\<rparr>
         | Some c \<Rightarrow> s\<lparr>s_cpu := (s_cpu s)(i := c), s_pc := (s_pc s)(i := Outside)\<rparr>)"

text \<open>
  Any CPU takes its next step; outside of the two functions it may call either of them on any lock,
  and turn interrupts on or off while no lock keeps them off, as the scheduler and the trap entry do.
\<close>

inductive spin_step :: "spin \<Rightarrow> spin \<Rightarrow> bool" where
  acq: "s_pc s i = Outside \<Longrightarrow> spin_step s (acquire_start i lk s)"
| xch: "s_pc s i = Spin lk \<Longrightarrow> spin_step s (acquire_xchg i lk s)"
| fin: "s_pc s i = Got lk \<Longrightarrow> spin_step s (acquire_finish i lk s)"
| rel: "s_pc s i = Outside \<Longrightarrow> spin_step s (release_start i lk s)"
| drp: "s_pc s i = Drop lk \<Longrightarrow> spin_step s (release_drop i lk s)"
| unl: "s_pc s i = Unlock lk \<Longrightarrow> spin_step s (release_unlock i lk s)"
| int: "\<lbrakk>s_pc s i = Outside; c_ncli (s_cpu s i) = 0\<rbrakk> \<Longrightarrow> spin_step s (s\<lparr>s_cpu := (s_cpu s)(i := s_cpu s i\<lparr>c_if := b\<rparr>)\<rparr>)"

definition spin_init :: "spin \<Rightarrow> bool" where
  "spin_init s \<longleftrightarrow> (\<forall>lk. s_lock s lk = initlock) \<and> (\<forall>i. s_pc s i = Outside \<and> s_held s i = [] \<and> c_ncli (s_cpu s i) = 0)"

section \<open>The invariant\<close>

text \<open>
  The words of a lock agree with where CPU \<open>i\<close> is, and at most one CPU is between the \<open>xchg\<close> and the
  store of its number or between the two stores of \<open>release\<close>.
\<close>

definition passing :: "spin \<Rightarrow> nat \<Rightarrow> lockid \<Rightarrow> bool" where
  "passing s i lk \<longleftrightarrow> s_pc s i = Got lk \<or> s_pc s i = Unlock lk"

definition lock_ok :: "spin \<Rightarrow> nat \<Rightarrow> lockid \<Rightarrow> bool" where
  "lock_ok s i lk \<longleftrightarrow>
     (lk \<in> set (s_held s i) \<or> s_pc s i = Drop lk \<longrightarrow> l_locked (s_lock s lk) \<and> l_cpu (s_lock s lk) = Some i) \<and>
     (passing s i lk \<longrightarrow> l_locked (s_lock s lk) \<and> l_cpu (s_lock s lk) = None) \<and>
     (l_cpu (s_lock s lk) = Some i \<longrightarrow> lk \<in> set (s_held s i) \<or> s_pc s i = Drop lk) \<and>
     (\<not> l_locked (s_lock s lk) \<longrightarrow> l_cpu (s_lock s lk) = None)"

definition pass_ok :: "spin \<Rightarrow> nat \<Rightarrow> nat \<Rightarrow> lockid \<Rightarrow> bool" where
  "pass_ok s i j lk \<longleftrightarrow> (passing s i lk \<longrightarrow> passing s j lk \<longrightarrow> i = j)"

text \<open>\<open>ncli\<close> counts the locks held and the call in progress, and keeps interrupts off.\<close>

definition in_call :: "spc \<Rightarrow> bool" where
  "in_call p \<longleftrightarrow> (case p of Outside \<Rightarrow> False | Panicked \<Rightarrow> False | _ \<Rightarrow> True)"

definition cpu_ok :: "spin \<Rightarrow> nat \<Rightarrow> bool" where
  "cpu_ok s i \<longleftrightarrow>
     distinct (s_held s i) \<and> (\<forall>lk. s_pc s i = Drop lk \<longrightarrow> lk \<notin> set (s_held s i)) \<and>
     (s_pc s i \<noteq> Panicked \<longrightarrow> c_ncli (s_cpu s i) = int (length (s_held s i)) + of_bool (in_call (s_pc s i))) \<and>
     int (length (s_held s i)) \<le> c_ncli (s_cpu s i) \<and> (0 < c_ncli (s_cpu s i) \<longrightarrow> \<not> c_if (s_cpu s i))"

definition spin_inv :: "spin \<Rightarrow> bool" where
  "spin_inv s \<longleftrightarrow> (\<forall>i lk. lock_ok s i lk) \<and> (\<forall>i j lk. pass_ok s i j lk) \<and> (\<forall>i. cpu_ok s i)"

lemma spin_invD:
  assumes "spin_inv s" shows "lock_ok s i lk" "pass_ok s i j lk" "cpu_ok s i"
  using assms by (auto simp: spin_inv_def)

lemma spin_inv_init: "spin_init s \<Longrightarrow> spin_inv s"
  unfolding spin_inv_def
proof (intro conjI allI)
  fix i j lk
  assume "spin_init s"
  then have "s_lock s lk = initlock" "s_pc s i = Outside" "s_held s i = []" "c_ncli (s_cpu s i) = 0"
    by (simp_all add: spin_init_def)
  then show "lock_ok s i lk" "pass_ok s i j lk" "cpu_ok s i"
    by (simp_all add: lock_ok_def pass_ok_def passing_def cpu_ok_def initlock_def in_call_def)
qed

lemma holding_held:
  assumes "spin_inv s" "s_pc s i = Outside" shows "holding i (s_lock s lk) \<longleftrightarrow> lk \<in> set (s_held s i)"
  using spin_invD(1) [OF assms(1), of i lk] unfolding lock_ok_def holding_def assms(2) by blast

lemma inv_facts:
  assumes "spin_inv s"
  shows "lk \<in> set (s_held s i) \<Longrightarrow> l_locked (s_lock s lk)" "lk \<in> set (s_held s i) \<Longrightarrow> l_cpu (s_lock s lk) = Some i"
    "s_pc s i = Drop lk \<Longrightarrow> l_locked (s_lock s lk)" "s_pc s i = Drop lk \<Longrightarrow> l_cpu (s_lock s lk) = Some i"
    "passing s i lk \<Longrightarrow> l_locked (s_lock s lk)" "passing s i lk \<Longrightarrow> l_cpu (s_lock s lk) = None"
    "l_cpu (s_lock s lk) = Some i \<Longrightarrow> lk \<in> set (s_held s i) \<or> s_pc s i = Drop lk"
    "\<not> l_locked (s_lock s lk) \<Longrightarrow> l_cpu (s_lock s lk) = None"
    "passing s i lk \<Longrightarrow> passing s j lk \<Longrightarrow> i = j"
  using spin_invD(1) [OF assms, of i lk] spin_invD(2) [OF assms, of i j lk] unfolding lock_ok_def pass_ok_def by blast+

lemma acquire_start_inv:
  assumes inv: "spin_inv s" and pc: "s_pc s i = Outside" shows "spin_inv (acquire_start i lk s)"
  unfolding spin_inv_def
proof (intro conjI allI)
  fix j k l
  note f = inv_facts [OF inv]
  have p: "passing (acquire_start i lk s) j k \<longleftrightarrow> j \<noteq> i \<and> passing s j k" for j k
    by (simp add: passing_def acquire_start_def)
  have h: "s_held (acquire_start i lk s) = s_held s" "s_lock (acquire_start i lk s) = s_lock s"
    "s_pc (acquire_start i lk s) j = Drop k \<longleftrightarrow> s_pc s j = Drop k" for j k
    using pc by (simp_all add: acquire_start_def)
  show "lock_ok (acquire_start i lk s) j k" unfolding lock_ok_def p h using f by blast
  show "pass_ok (acquire_start i lk s) j l k" unfolding pass_ok_def p using f(9) by blast
  show "cpu_ok (acquire_start i lk s) j"
    using spin_invD(3) [OF inv, of j] pc by (auto simp: acquire_start_def cpu_ok_def in_call_def pushcli_def)
qed

lemma acquire_xchg_inv:
  assumes inv: "spin_inv s" and pc: "s_pc s i = Spin lk" shows "spin_inv (acquire_xchg i lk s)"
  unfolding spin_inv_def
proof (intro conjI allI)
  fix j k l
  note f = inv_facts [OF inv]
  let ?new = "\<not> l_locked (s_lock s lk)"
  have p: "passing (acquire_xchg i lk s) j k \<longleftrightarrow> (if j = i then ?new \<and> k = lk else passing s j k)" for j k
    by (auto simp: passing_def acquire_xchg_def Let_def)
  have h: "s_held (acquire_xchg i lk s) = s_held s" "l_cpu (s_lock (acquire_xchg i lk s) k) = l_cpu (s_lock s k)"
    "l_locked (s_lock (acquire_xchg i lk s) k) \<longleftrightarrow> k = lk \<or> l_locked (s_lock s k)"
    "s_pc (acquire_xchg i lk s) j = Drop k \<longleftrightarrow> s_pc s j = Drop k" for j k
    using pc by (simp_all add: acquire_xchg_def Let_def)
  show "lock_ok (acquire_xchg i lk s) j k" unfolding lock_ok_def p h using f by metis
  show "pass_ok (acquire_xchg i lk s) j l k" unfolding pass_ok_def p using f(5,9) by metis
  show "cpu_ok (acquire_xchg i lk s) j"
    using spin_invD(3) [OF inv, of j] pc by (auto simp: acquire_xchg_def Let_def cpu_ok_def in_call_def)
qed

lemma acquire_finish_inv:
  assumes inv: "spin_inv s" and pc: "s_pc s i = Got lk" shows "spin_inv (acquire_finish i lk s)"
  unfolding spin_inv_def
proof (intro conjI allI)
  fix j k l
  note f = inv_facts [OF inv]
  have i: "passing s i lk" using pc by (simp add: passing_def)
  have n: "lk \<notin> set (s_held s j)" "s_pc s j \<noteq> Drop lk" for j using f(2,4,6) i by (metis option.distinct(1))+
  have p: "passing (acquire_finish i lk s) j k \<longleftrightarrow> j \<noteq> i \<and> passing s j k" for j k
    by (auto simp: passing_def acquire_finish_def)
  have h: "k \<in> set (s_held (acquire_finish i lk s) j) \<longleftrightarrow> j = i \<and> k = lk \<or> k \<in> set (s_held s j)"
    "l_cpu (s_lock (acquire_finish i lk s) k) = (if k = lk then Some i else l_cpu (s_lock s k))"
    "l_locked (s_lock (acquire_finish i lk s) k) = l_locked (s_lock s k)"
    "s_pc (acquire_finish i lk s) j = Drop k \<longleftrightarrow> s_pc s j = Drop k" for j k
    using pc by (auto simp: acquire_finish_def)
  show "lock_ok (acquire_finish i lk s) j k" unfolding lock_ok_def p h using f i n by (metis option.inject)
  show "pass_ok (acquire_finish i lk s) j l k" unfolding pass_ok_def p using f(9) by metis
  show "cpu_ok (acquire_finish i lk s) j"
    using spin_invD(3) [OF inv, of j] pc n(1) [of i] by (auto simp: acquire_finish_def cpu_ok_def in_call_def)
qed

lemma release_start_inv:
  assumes inv: "spin_inv s" and pc: "s_pc s i = Outside" shows "spin_inv (release_start i lk s)"
proof (cases "lk \<in> set (s_held s i)")
  case True
  note f = inv_facts [OF inv]
  have e: "release_start i lk s = s\<lparr>s_pc := (s_pc s)(i := Drop lk), s_held := (s_held s)(i := remove1 lk (s_held s i))\<rparr>"
    by (simp add: release_start_def holding_held [OF inv pc] True)
  have dst: "distinct (s_held s i)" using spin_invD(3) [OF inv, of i] by (simp add: cpu_ok_def)
  show ?thesis unfolding spin_inv_def
  proof (intro conjI allI)
    fix j k l
    have p: "passing (release_start i lk s) j k \<longleftrightarrow> j \<noteq> i \<and> passing s j k" for j k using pc by (simp add: passing_def e)
    have h: "k \<in> set (s_held (release_start i lk s) j) \<or> s_pc (release_start i lk s) j = Drop k \<longleftrightarrow> k \<in> set (s_held s j) \<or> s_pc s j = Drop k"
      "s_lock (release_start i lk s) = s_lock s" for j k
      using pc True dst by (auto simp: e)
    show "lock_ok (release_start i lk s) j k" unfolding lock_ok_def p h using f by blast
    show "pass_ok (release_start i lk s) j l k" unfolding pass_ok_def p using f(9) by blast
    have "length (s_held s i) = Suc (length (remove1 lk (s_held s i)))"
      using length_pos_if_in_set [OF True] True by (simp add: length_remove1)
    then show "cpu_ok (release_start i lk s) j" using spin_invD(3) [OF inv, of j] pc dst by (auto simp: e cpu_ok_def in_call_def)
  qed
next
  case False
  note f = inv_facts [OF inv]
  have e: "release_start i lk s = s\<lparr>s_pc := (s_pc s)(i := Panicked)\<rparr>"
    by (simp add: release_start_def holding_held [OF inv pc] False)
  show ?thesis unfolding spin_inv_def
  proof (intro conjI allI)
    fix j k l
    have p: "passing (release_start i lk s) j k \<longleftrightarrow> passing s j k" for j k using pc by (simp add: passing_def e)
    have h: "s_held (release_start i lk s) = s_held s" "s_pc (release_start i lk s) j = Drop k \<longleftrightarrow> s_pc s j = Drop k"
      "s_lock (release_start i lk s) = s_lock s" for j k using pc by (simp_all add: e)
    show "lock_ok (release_start i lk s) j k" unfolding lock_ok_def p h using f by blast
    show "pass_ok (release_start i lk s) j l k" unfolding pass_ok_def p using f(9) by blast
    show "cpu_ok (release_start i lk s) j" using spin_invD(3) [OF inv, of j] pc by (auto simp: e cpu_ok_def in_call_def)
  qed
qed

text \<open>A CPU in \<open>release\<close> before \<open>lk->cpu = 0\<close> is the only one at the lock.\<close>

lemma drop_facts:
  assumes inv: "spin_inv s" and pc: "s_pc s i = Drop lk"
  shows "lk \<notin> set (s_held s j)" "j \<noteq> i \<Longrightarrow> s_pc s j \<noteq> Drop lk" "\<not> passing s j lk"
proof -
  note f = inv_facts [OF inv]
  have ci: "l_cpu (s_lock s lk) = Some i" by (rule f(4) [OF pc])
  have ni: "lk \<notin> set (s_held s i)" using spin_invD(3) [OF inv, of i] pc unfolding cpu_ok_def by blast
  have n1: "lk \<notin> set (s_held s j)" for j
  proof
    assume m: "lk \<in> set (s_held s j)"
    have "j = i" using f(2) [OF m] ci by simp
    then show False using m ni by blast
  qed
  have n2: "s_pc s j \<noteq> Drop lk" if "j \<noteq> i" for j
  proof
    assume "s_pc s j = Drop lk"
    then have "l_cpu (s_lock s lk) = Some j" by (rule f(4))
    then show False using ci that by simp
  qed
  have n3: "\<not> passing s j lk" for j
  proof
    assume "passing s j lk"
    then have "l_cpu (s_lock s lk) = None" by (rule f(6))
    then show False using ci by simp
  qed
  show "lk \<notin> set (s_held s j)" "j \<noteq> i \<Longrightarrow> s_pc s j \<noteq> Drop lk" "\<not> passing s j lk" using n1 n2 n3 by blast+
qed

lemma release_drop_inv:
  assumes inv: "spin_inv s" and pc: "s_pc s i = Drop lk" shows "spin_inv (release_drop i lk s)"
  unfolding spin_inv_def
proof (intro conjI allI)
  fix j k l
  note f = inv_facts [OF inv]
  note n = drop_facts [OF inv pc]
  have p: "passing (release_drop i lk s) j k \<longleftrightarrow> (if j = i then k = lk else passing s j k)" for j k
    using pc by (auto simp: passing_def release_drop_def)
  have h: "s_held (release_drop i lk s) = s_held s"
    "l_cpu (s_lock (release_drop i lk s) k) = (if k = lk then None else l_cpu (s_lock s k))"
    "l_locked (s_lock (release_drop i lk s) k) = l_locked (s_lock s k)"
    "s_pc (release_drop i lk s) j = Drop k \<longleftrightarrow> j \<noteq> i \<and> s_pc s j = Drop k" for j k
    by (auto simp: release_drop_def)
  show "lock_ok (release_drop i lk s) j k"
  proof (cases "k = lk")
    case True
    have "l_locked (s_lock s lk)" by (rule f(3) [OF pc])
    then show ?thesis using n(1,2) unfolding lock_ok_def p h True by (simp; blast)
  next
    case False
    then have "\<not> passing s i k" "s_pc s i \<noteq> Drop k" using pc by (simp_all add: passing_def)
    then have "lock_ok (release_drop i lk s) j k \<longleftrightarrow> lock_ok s j k"
      unfolding lock_ok_def p h if_not_P [OF False] using False by (cases "j = i") (simp_all only: if_True if_False not_False_eq_True simp_thms)
    then show ?thesis using spin_invD(1) [OF inv] by simp
  qed
  show "pass_ok (release_drop i lk s) j l k" unfolding pass_ok_def p using f(9) n(3) by (simp split: if_split; blast)
  show "cpu_ok (release_drop i lk s) j"
    using spin_invD(3) [OF inv, of j] pc by (auto simp: release_drop_def cpu_ok_def in_call_def)
qed

lemma popcli_busy:
  assumes "spin_inv s" "s_pc s i = Unlock lk"
  shows "popcli (s_cpu s i) =
    Some (s_cpu s i\<lparr>c_ncli := int (length (s_held s i)), c_if := (s_held s i = [] \<and> c_intena (s_cpu s i))\<rparr>)"
  using spin_invD(3) [OF assms(1), of i] assms(2) by (auto simp: popcli_def cpu_ok_def in_call_def Let_def)

lemma release_unlock_inv:
  assumes inv: "spin_inv s" and pc: "s_pc s i = Unlock lk" shows "spin_inv (release_unlock i lk s)"
  unfolding spin_inv_def
proof (intro conjI allI)
  fix j k l
  note f = inv_facts [OF inv]
  note e = release_unlock_def Let_def popcli_busy [OF inv pc]
  have i: "passing s i k \<longleftrightarrow> k = lk" for k using pc by (auto simp: passing_def)
  have n: "lk \<notin> set (s_held s j)" "s_pc s j \<noteq> Drop lk" for j using f(2,4,6) i by (metis option.distinct(1))+
  have p: "passing (release_unlock i lk s) j k \<longleftrightarrow> j \<noteq> i \<and> passing s j k" for j k
    by (auto simp: passing_def e)
  have h: "s_held (release_unlock i lk s) = s_held s" "l_cpu (s_lock (release_unlock i lk s) k) = l_cpu (s_lock s k)"
    "l_locked (s_lock (release_unlock i lk s) k) \<longleftrightarrow> k \<noteq> lk \<and> l_locked (s_lock s k)"
    "s_pc (release_unlock i lk s) j = Drop k \<longleftrightarrow> s_pc s j = Drop k" for j k
    using pc by (simp_all add: e)
  show "lock_ok (release_unlock i lk s) j k" unfolding lock_ok_def p h using f i n by metis
  show "pass_ok (release_unlock i lk s) j l k" unfolding pass_ok_def p using f(9) by metis
  show "cpu_ok (release_unlock i lk s) j"
    using spin_invD(3) [OF inv, of j] pc by (auto simp: e cpu_ok_def in_call_def)
qed

lemma interrupt_inv:
  assumes inv: "spin_inv s" and pc: "s_pc s i = Outside" "c_ncli (s_cpu s i) = 0"
  shows "spin_inv (s\<lparr>s_cpu := (s_cpu s)(i := s_cpu s i\<lparr>c_if := b\<rparr>)\<rparr>)"
  unfolding spin_inv_def
proof (intro conjI allI)
  fix j k l
  let ?t = "s\<lparr>s_cpu := (s_cpu s)(i := s_cpu s i\<lparr>c_if := b\<rparr>)\<rparr>"
  show "lock_ok ?t j k" "pass_ok ?t j l k"
    using spin_invD(1,2) [OF inv] unfolding lock_ok_def pass_ok_def passing_def by simp_all
  show "cpu_ok ?t j" using spin_invD(3) [OF inv, of j] pc by (auto simp: cpu_ok_def)
qed

lemma spin_inv_step: "\<lbrakk>spin_inv s; spin_step s t\<rbrakk> \<Longrightarrow> spin_inv t"
  by (erule spin_step.cases)
    (simp_all add: acquire_start_inv acquire_xchg_inv acquire_finish_inv release_start_inv release_drop_inv
      release_unlock_inv interrupt_inv)

interpretation spin: invariant_machine spin_init spin_step spin_inv
  by unfold_locales (fact spin_inv_init, fact spin_inv_step)

section \<open>A lock taken by CPU 0\<close>

definition spin_boot :: spin where
  "spin_boot = \<lparr>s_cpu = (\<lambda>_. \<lparr>c_if = True, c_ncli = 0, c_intena = False\<rparr>), s_lock = (\<lambda>_. initlock), s_pc = (\<lambda>_. Outside), s_held = (\<lambda>_. [])\<rparr>"

definition spin_taken :: spin where
  "spin_taken = acquire_finish 0 KmemLock (acquire_xchg 0 KmemLock (acquire_start 0 KmemLock spin_boot))"

lemma spin_taken_reach: "reach spin_init spin_step spin_taken"
proof -
  let ?a = "acquire_start 0 KmemLock spin_boot"
  let ?b = "acquire_xchg 0 KmemLock ?a"
  have "reach spin_init spin_step spin_boot" by (rule reach_init) (simp add: spin_init_def spin_boot_def)
  then have a: "reach spin_init spin_step ?a" by (rule reach_step) (rule spin_step.acq, simp add: spin_boot_def)
  have "s_pc ?a 0 = Spin KmemLock" by (simp add: acquire_start_def spin_boot_def holding_def initlock_def)
  with a have b: "reach spin_init spin_step ?b" by (auto intro: reach_step spin_step.xch)
  have "s_pc ?b 0 = Got KmemLock" by (simp add: acquire_xchg_def acquire_start_def spin_boot_def initlock_def Let_def)
  with b show ?thesis unfolding spin_taken_def by (auto intro: reach_step spin_step.fin)
qed

text \<open>
  C13: Spin locks exclude. Under every interleaving of the steps of \<open>acquire\<close> and \<open>release\<close> on any number
  of CPUs, a lock is held by one CPU at most, a CPU that holds a lock runs with interrupts off, and
  \<open>ncli\<close> of a CPU outside of the two functions is the number of locks it holds.
\<close>

theorem spin_exclusion:
  assumes "reach spin_init spin_step s" and "lk \<in> set (s_held s i)"
  shows "(lk \<in> set (s_held s j) \<longrightarrow> j = i) \<and> \<not> c_if (s_cpu s i) \<and>
    (s_pc s i = Outside \<longrightarrow> c_ncli (s_cpu s i) = int (length (s_held s i)))"
proof -
  note inv = spin.reach_inv [OF assms(1)]
  have c: "int (length (s_held s i)) \<le> c_ncli (s_cpu s i)" "0 < c_ncli (s_cpu s i) \<longrightarrow> \<not> c_if (s_cpu s i)"
    "s_pc s i = Outside \<longrightarrow> c_ncli (s_cpu s i) = int (length (s_held s i))"
    using spin_invD(3) [OF inv, of i] by (auto simp: cpu_ok_def in_call_def)
  have "0 < c_ncli (s_cpu s i)" using length_pos_if_in_set [OF assms(2)] c(1) by linarith
  moreover have "j = i" if "lk \<in> set (s_held s j)"
    using inv_facts(2) [OF inv that] inv_facts(2) [OF inv assms(2)] by simp
  ultimately show ?thesis using c(2,3) by blast
qed

theorem spin_exclusion_witness:
  "KmemLock \<in> set (s_held spin_taken 0) \<and> \<not> c_if (s_cpu spin_taken 0) \<and> c_ncli (s_cpu spin_taken 0) = 1"
proof -
  have h: "s_held spin_taken 0 = [KmemLock]" "s_pc spin_taken 0 = Outside"
    by (simp_all add: spin_taken_def acquire_finish_def acquire_xchg_def acquire_start_def spin_boot_def Let_def)
  show ?thesis using spin_exclusion [OF spin_taken_reach, of KmemLock 0 0] h by simp
qed

section \<open>Agreement with the locks of the kernel model\<close>

text \<open>
  A kernel state records the locks whose words name CPU \<open>i\<close>, each once and as many as \<open>ncli\<close> counts.
\<close>

definition agrees :: "nat \<Rightarrow> spin \<Rightarrow> 'a kbase_scheme \<Rightarrow> bool" where
  "agrees i s k \<longleftrightarrow> distinct (held k) \<and> (\<forall>lk. lk \<in> set (held k) \<longleftrightarrow> holding i (s_lock s lk)) \<and>
     c_ncli (s_cpu s i) = int (length (held k))"

text \<open>A step of any CPU while CPU \<open>i\<close> is inside a call; the call ends when no such step is possible.\<close>

definition busy_step :: "nat \<Rightarrow> spin \<Rightarrow> spin \<Rightarrow> bool" where
  "busy_step i s t \<longleftrightarrow> in_call (s_pc s i) \<and> spin_step s t"

definition call_ends :: "nat \<Rightarrow> spin \<Rightarrow> spin \<Rightarrow> bool" where
  "call_ends i s t \<longleftrightarrow> (busy_step i)\<^sup>*\<^sup>* s t \<and> \<not> in_call (s_pc t i)"

lemma busy_step_cases:
  assumes "busy_step i s t"
  obtains "s_pc t i = s_pc s i" "s_held t i = s_held s i"
  | lk where "s_pc s i = Spin lk" "t = acquire_xchg i lk s"
  | lk where "s_pc s i = Got lk" "t = acquire_finish i lk s"
  | lk where "s_pc s i = Drop lk" "t = release_drop i lk s"
  | lk where "s_pc s i = Unlock lk" "t = release_unlock i lk s"
proof -
  from assms have c: "in_call (s_pc s i)" and st: "spin_step s t" by (simp_all add: busy_step_def)
  from c have o: "s_pc s i \<noteq> Outside" by (auto simp: in_call_def)
  from st o show thesis
  proof cases
    case (acq j lk) with o have "j \<noteq> i" by auto
    with acq show ?thesis using that(1) by (simp add: acquire_start_def)
  next
    case (xch j lk) then show ?thesis using that(1,2) by (cases "j = i") (simp_all add: acquire_xchg_def Let_def)
  next
    case (fin j lk) then show ?thesis using that(1,3) by (cases "j = i") (simp_all add: acquire_finish_def)
  next
    case (rel j lk) with o have "j \<noteq> i" by auto
    with rel show ?thesis using that(1) by (simp add: release_start_def)
  next
    case (drp j lk) then show ?thesis using that(1,4) by (cases "j = i") (simp_all add: release_drop_def)
  next
    case (unl j lk) then show ?thesis using that(1,5)
      by (cases "j = i") (simp_all add: release_unlock_def Let_def split: option.splits)
  next
    case (int j b) with o have "j \<noteq> i" by auto
    with int show ?thesis using that(1) by simp
  qed
qed

text \<open>Where CPU \<open>i\<close> is and what it holds during \<open>acquire\<close> and during \<open>release\<close> of \<open>lk\<close>.\<close>

definition acquiring :: "nat \<Rightarrow> lockid \<Rightarrow> lockid list \<Rightarrow> spin \<Rightarrow> bool" where
  "acquiring i lk h s \<longleftrightarrow> spin_inv s \<and>
     (s_pc s i \<in> {Spin lk, Got lk} \<and> s_held s i = h \<or> s_pc s i = Outside \<and> s_held s i = lk # h)"

definition releasing :: "nat \<Rightarrow> lockid \<Rightarrow> lockid list \<Rightarrow> spin \<Rightarrow> bool" where
  "releasing i lk h s \<longleftrightarrow> spin_inv s \<and> s_pc s i \<in> {Drop lk, Unlock lk, Outside} \<and> s_held s i = h"

lemma busy_inv: "\<lbrakk>busy_step i s t; spin_inv s\<rbrakk> \<Longrightarrow> spin_inv t"
  using spin_inv_step by (auto simp: busy_step_def)

lemma acquiring_step:
  assumes st: "busy_step i s t" and a: "acquiring i lk h s" shows "acquiring i lk h t"
proof -
  from a have "spin_inv t" using busy_inv [OF st] by (simp add: acquiring_def)
  with st a show ?thesis
    by (auto elim!: busy_step_cases simp: acquiring_def acquire_xchg_def acquire_finish_def Let_def split: if_splits)
qed

lemma releasing_step:
  assumes st: "busy_step i s t" and a: "releasing i lk h s" shows "releasing i lk h t"
proof -
  from a have "spin_inv t" using busy_inv [OF st] by (simp add: releasing_def)
  with st a show ?thesis
    by (auto elim!: busy_step_cases simp: releasing_def release_drop_def release_unlock_def popcli_busy Let_def)
qed

lemma acquiring_run: "\<lbrakk>(busy_step i)\<^sup>*\<^sup>* s t; acquiring i lk h s\<rbrakk> \<Longrightarrow> acquiring i lk h t"
  by (induction rule: rtranclp_induct) (blast intro: acquiring_step)+

lemma releasing_run: "\<lbrakk>(busy_step i)\<^sup>*\<^sup>* s t; releasing i lk h s\<rbrakk> \<Longrightarrow> releasing i lk h t"
  by (induction rule: rtranclp_induct) (blast intro: releasing_step)+

lemma agrees_held:
  assumes "spin_inv s" "s_pc s i = Outside"
  shows "agrees i s k \<longleftrightarrow> distinct (held k) \<and> set (held k) = set (s_held s i)"
proof -
  have d: "distinct (s_held s i)" "c_ncli (s_cpu s i) = int (length (s_held s i))"
    using spin_invD(3) [OF assms(1), of i] assms(2) by (simp_all add: cpu_ok_def in_call_def)
  have "length (held k) = length (s_held s i)" if "distinct (held k)" "set (held k) = set (s_held s i)"
    using d(1) that by (metis distinct_card)
  then show ?thesis unfolding agrees_def holding_held [OF assms] d(2) by auto
qed

lemma acquire_returns:
  assumes inv: "spin_inv s" and pc: "s_pc s i = Outside" and free: "\<not> l_locked (s_lock s lk)"
  shows "\<exists>t. call_ends i (acquire_start i lk s) t"
proof -
  let ?a = "acquire_start i lk s"
  let ?b = "acquire_xchg i lk ?a"
  have "s_pc ?a i = Spin lk" using free by (simp add: acquire_start_def holding_def)
  then have "busy_step i ?a ?b" by (simp add: busy_step_def in_call_def spin_step.xch)
  moreover have "s_pc ?b i = Got lk" using free by (simp add: acquire_xchg_def acquire_start_def Let_def)
  then have "busy_step i ?b (acquire_finish i lk ?b)" by (simp add: busy_step_def in_call_def spin_step.fin)
  ultimately have "(busy_step i)\<^sup>*\<^sup>* ?a (acquire_finish i lk ?b)" by (meson converse_rtranclp_into_rtranclp r_into_rtranclp)
  then show ?thesis unfolding call_ends_def by (force simp: acquire_finish_def in_call_def)
qed

lemma release_returns:
  assumes inv: "spin_inv s" and pc: "s_pc s i = Outside" and h: "lk \<in> set (s_held s i)"
  shows "\<exists>t. call_ends i (release_start i lk s) t"
proof -
  let ?a = "release_start i lk s"
  let ?b = "release_drop i lk ?a"
  have a: "s_pc ?a i = Drop lk" using h by (simp add: release_start_def holding_held [OF inv pc])
  have ia: "spin_inv ?a" by (rule release_start_inv [OF inv pc])
  have ib: "spin_inv ?b" by (rule release_drop_inv [OF ia a])
  have b: "s_pc ?b i = Unlock lk" by (simp add: release_drop_def)
  have "busy_step i ?a ?b" "busy_step i ?b (release_unlock i lk ?b)"
    using a b by (simp_all add: busy_step_def in_call_def spin_step.drp spin_step.unl)
  then have "(busy_step i)\<^sup>*\<^sup>* ?a (release_unlock i lk ?b)" by (meson converse_rtranclp_into_rtranclp r_into_rtranclp)
  moreover have "s_pc (release_unlock i lk ?b) i = Outside"
    by (simp add: release_unlock_def popcli_busy [OF ib b] Let_def)
  ultimately show ?thesis unfolding call_ends_def by (force simp: in_call_def)
qed

lemma acquire_run:
  assumes inv: "spin_inv s" and pc: "s_pc s i = Outside" and k: "agrees i s k" and lk: "lk \<notin> set (held k)"
    and t: "call_ends i (acquire_start i lk s) t"
  shows "s_pc t i = Outside \<and> agrees i t (k\<lparr>held := lk # held k\<rparr>)"
proof -
  have h: "distinct (held k)" "set (held k) = set (s_held s i)" using k agrees_held [OF inv pc] by blast+
  have "acquiring i lk (s_held s i) (acquire_start i lk s)"
    using acquire_start_inv [OF inv pc, of lk] lk h(2) by (simp add: acquiring_def acquire_start_def holding_held [OF inv pc])
  with t have "acquiring i lk (s_held s i) t" using acquiring_run by (auto simp: call_ends_def)
  then have e: "spin_inv t" "s_pc t i = Outside" "s_held t i = lk # s_held s i"
    using t by (auto simp: acquiring_def call_ends_def in_call_def)
  show ?thesis using agrees_held [OF e(1,2), of "k\<lparr>held := lk # held k\<rparr>"] e h lk by simp
qed

lemma release_run:
  assumes inv: "spin_inv s" and pc: "s_pc s i = Outside" and k: "agrees i s k" and lk: "lk \<in> set (held k)"
    and t: "call_ends i (release_start i lk s) t"
  shows "s_pc t i = Outside \<and> agrees i t (k\<lparr>held := remove1 lk (held k)\<rparr>)"
proof -
  have h: "distinct (held k)" "set (held k) = set (s_held s i)" using k agrees_held [OF inv pc] by blast+
  have d: "distinct (s_held s i)" using spin_invD(3) [OF inv, of i] by (simp add: cpu_ok_def)
  have "releasing i lk (remove1 lk (s_held s i)) (release_start i lk s)"
    using release_start_inv [OF inv pc, of lk] lk h(2) by (simp add: releasing_def release_start_def holding_held [OF inv pc])
  with t have "releasing i lk (remove1 lk (s_held s i)) t" using releasing_run by (auto simp: call_ends_def)
  then have e: "spin_inv t" "s_pc t i = Outside" "s_held t i = remove1 lk (s_held s i)"
    using t by (auto simp: releasing_def call_ends_def in_call_def)
  show ?thesis using agrees_held [OF e(1,2), of "k\<lparr>held := remove1 lk (held k)\<rparr>"] e h d by (simp add: distinct_remove1)
qed

text \<open>
  C14: The locks of the sequential kernel model are those of \<open>spinlock.c\<close>. Let a kernel state record
  the locks whose words name a CPU that is outside of the two functions. \<open>acquire\<close> and \<open>release\<close> of the
  kernel model panic exactly when the code's entry check does; otherwise, however the other CPUs
  interleave with the call, where it ends it has not panicked, and the kernel model's result records
  the locks whose words then name the CPU, with their number in \<open>ncli\<close>. \<open>release\<close> can always run to its
  end, and \<open>acquire\<close> can if the lock is free.
\<close>

theorem spin_refines:
  assumes "reach spin_init spin_step s" and "s_pc s i = Outside" and "agrees i s k"
  shows "(if s_pc (acquire_start i lk s) i = Panicked then acquire lk k = panic ''acquire''
      else \<exists>k'. acquire lk k = Ok () k' \<and> k' = k\<lparr>held := held k'\<rparr> \<and>
        (\<forall>t. call_ends i (acquire_start i lk s) t \<longrightarrow> s_pc t i = Outside \<and> agrees i t k') \<and>
        (\<not> l_locked (s_lock s lk) \<longrightarrow> (\<exists>t. call_ends i (acquire_start i lk s) t))) \<and>
    (if s_pc (release_start i lk s) i = Panicked then release lk k = panic ''release''
      else \<exists>k'. release lk k = Ok () k' \<and> k' = k\<lparr>held := held k'\<rparr> \<and>
        (\<forall>t. call_ends i (release_start i lk s) t \<longrightarrow> s_pc t i = Outside \<and> agrees i t k') \<and>
        (\<exists>t. call_ends i (release_start i lk s) t))"
proof -
  note inv = spin.reach_inv [OF assms(1)]
  have h: "holding i (s_lock s lk) \<longleftrightarrow> lk \<in> set (held k)" "lk \<in> set (s_held s i) \<longleftrightarrow> lk \<in> set (held k)"
    using assms(3) holding_held [OF inv assms(2)] by (simp_all add: agrees_def)
  have pc: "s_pc (acquire_start i lk s) i = Panicked \<longleftrightarrow> lk \<in> set (held k)"
    "s_pc (release_start i lk s) i = Panicked \<longleftrightarrow> lk \<notin> set (held k)"
    using assms(2) by (simp_all add: acquire_start_def release_start_def h)
  show ?thesis unfolding pc
    using acquire_run [OF inv assms(2,3)] acquire_returns [OF inv assms(2)]
      release_run [OF inv assms(2,3)] release_returns [OF inv assms(2)] h(2)
    by (cases "lk \<in> set (held k)") (simp_all add: acquire_def release_def)
qed

theorem spin_refines_witness:
  "acquire KmemLock (boot_kbase\<lparr>held := [KmemLock]\<rparr>) = Fault (PanicF ''acquire'') \<and>
   (\<exists>t. call_ends 0 (release_start 0 KmemLock spin_taken) t \<and> agrees 0 t boot_kbase)"
proof -
  have h: "s_held spin_taken 0 = [KmemLock]" "s_pc spin_taken 0 = Outside" "holding 0 (s_lock spin_taken KmemLock)"
    by (simp_all add: spin_taken_def acquire_finish_def acquire_xchg_def acquire_start_def spin_boot_def Let_def holding_def)
  have a: "agrees 0 spin_taken (boot_kbase\<lparr>held := [KmemLock]\<rparr>)"
    by (simp add: agrees_held [OF spin.reach_inv [OF spin_taken_reach] h(2)] h(1))
  show ?thesis
    using spin_refines [OF spin_taken_reach h(2) a, of KmemLock] h
    by (auto simp: acquire_start_def release_start_def release_def boot_kbase_def)
qed

end
