(* ===== verification/Sched.thy ===== *)
theory Sched
  imports Proc_Base "HOL-Library.Product_Lexorder"
begin

text \<open>
  The combined MLFQ and stride scheduler of \<open>proc.c\<close>: selection, accounting, priority
  boost, the per-process thread scheduler that nothing calls, and the system calls
  \<open>getlev\<close> and \<open>set_cpu_share\<close>. The selection loops are shown to compute the first
  best entry of the table.
\<close>

section \<open>Mode of the next round\<close>

definition sche_mode :: "'a kbase_scheme \<Rightarrow> Proc_mode" where
  "sche_mode s =
     (if CPU_share_Stride s = 0 \<or> PASS_MLFQ s \<le> PASS_Stride s then MLFQ else Stride)"

text \<open>
  Conversion of a \<open>double\<close> to \<open>int\<close>: out of range the x86 instruction gives \<open>INT_MIN\<close>.
\<close>

definition d2i :: "int \<Rightarrow> int" where
  "d2i x = (if - (2 ^ 31) \<le> x \<and> x < 2 ^ 31 then x else - (2 ^ 31))"

section \<open>Thread scheduler of one process\<close>

text \<open>Round-robin test of one level: is the candidate's quantum count not smaller?\<close>

definition thread_rr_skip :: "MLFQ_level \<Rightarrow> int \<Rightarrow> int \<Rightarrow> bool" where
  "thread_rr_skip lv ptick tick =
     (case lv of HIGH \<Rightarrow> cdiv ptick 5 \<ge> cdiv tick 5
      | MID \<Rightarrow> cdiv ptick 10 \<ge> cdiv tick 10
      | LOW \<Rightarrow> cdiv ptick 20 \<ge> cdiv tick 20)"

text \<open>
  One candidate with level \<open>plv\<close> and tick \<open>ptick\<close> against the best so far; the flag says
  whether the source executes \<open>continue\<close>.
\<close>

definition thread_cand ::
    "nat \<Rightarrow> MLFQ_level \<Rightarrow> int \<Rightarrow> nat \<times> MLFQ_level \<times> int \<Rightarrow> bool \<times> (nat \<times> MLFQ_level \<times> int)" where
  "thread_cand i plv ptick best =
     (case best of (rp, lv, tick) \<Rightarrow>
        if plv > lv then (False, (i, plv, ptick))
        else if plv = lv then
          if thread_rr_skip lv ptick tick then (True, best) else (False, (i, lv, ptick))
        else (False, best))"

fun thread_mlfq_scan ::
    "nat \<Rightarrow> proc list \<Rightarrow> nat \<Rightarrow> nat \<times> MLFQ_level \<times> int \<Rightarrow> nat" where
  "thread_mlfq_scan m [] i best = fst best"
| "thread_mlfq_scan m (p # ps) i best =
     (let (cont, best1) =
        (if p_state p = RUNNABLE \<and> p_proc_mode p = MLFQ \<and> p_isthread p \<and> p_mother p = Some m
         then thread_cand i (p_MLFQ_lv p) (p_tick p) best else (False, best))
      in if cont then thread_mlfq_scan m ps (Suc i) best1
         else thread_mlfq_scan m ps (Suc i)
           (if p_state p = RUNNABLE \<and> i = m
            then snd (thread_cand i (p_m_MLFQ_lv p) (p_m_tick p) best1) else best1))"

fun thread_stride_scan :: "nat \<Rightarrow> proc list \<Rightarrow> nat \<Rightarrow> nat \<Rightarrow> int \<Rightarrow> nat" where
  "thread_stride_scan m [] i rp minp = rp"
| "thread_stride_scan m (p # ps) i rp minp =
     (if p_state p = RUNNABLE \<and> p_proc_mode p = Stride \<and> p_isthread p \<and> p_mother p = Some m
         \<and> p_PASS p < minp
      then thread_stride_scan m ps (Suc i) i (d2i (p_PASS p))
      else thread_stride_scan m ps (Suc i) rp minp)"

definition find_runnable_thread :: "nat \<Rightarrow> 'a kbase_scheme \<Rightarrow> nat" where
  "find_runnable_thread mother s =
     (let m = the_proc s mother;
          mode = (if p_CPU_share_Stride m = 0 \<or> p_PASS_MLFQ m \<le> p_PASS_Stride m
                  then MLFQ else Stride)
      in case mode of
           MLFQ \<Rightarrow> thread_mlfq_scan mother (ptable s) 0 (mother, LOW, 1000)
         | Stride \<Rightarrow> thread_stride_scan mother (ptable s) 0 mother 2147483645)"

text \<open>
  \<open>adjust_thread_state\<close>: demotion at 20 and 40 ticks, boost of the mother's threads after
  100 ticks (the second test of that loop also resets \<open>m_tick\<close> of every runnable process),
  stride accounting, then the mother's own pass values.
\<close>

definition boost_threads :: "nat \<Rightarrow> 'a kbase_scheme \<Rightarrow> 'a kbase_scheme" where
  "boost_threads m s = s\<lparr>ptable := map (\<lambda>i.
     let p = ptable s ! i;
         p1 = (if p_state p = RUNNABLE \<and> p_proc_mode p = MLFQ \<and> p_isthread p \<and> p_mother p = Some m
               then p\<lparr>p_tick := 0, p_MLFQ_lv := HIGH\<rparr> else p)
     in if p_state p = RUNNABLE \<or> i = m then p1\<lparr>p_m_tick := 0, p_m_MLFQ_lv := HIGH\<rparr> else p1)
     [0 ..< length (ptable s)]\<rparr>"

definition adjust_m_tick :: "proc \<Rightarrow> proc" where
  "adjust_m_tick p =
     (let p = p\<lparr>p_m_tick := p_m_tick p + 1, p_total_ticks_MLFQ := p_total_ticks_MLFQ p + 1\<rparr>
      in if p_m_MLFQ_lv p = HIGH \<and> p_m_tick p \<ge> 20 then p\<lparr>p_m_MLFQ_lv := MID, p_m_tick := 0\<rparr>
         else if p_m_MLFQ_lv p = MID \<and> p_m_tick p \<ge> 40
         then p\<lparr>p_m_MLFQ_lv := LOW, p_m_tick := 0\<rparr>
         else p)"

definition adjust_t_tick :: "proc \<Rightarrow> proc" where
  "adjust_t_tick p =
     (if p_MLFQ_lv p = HIGH \<and> p_tick p \<ge> 20 then p\<lparr>p_MLFQ_lv := MID, p_tick := 0\<rparr>
      else if p_MLFQ_lv p = MID \<and> p_tick p \<ge> 40 then p\<lparr>p_MLFQ_lv := LOW, p_tick := 0\<rparr>
      else p)"

definition boost_if_due :: "nat \<Rightarrow> 'a kbase_scheme \<Rightarrow> 'a kbase_scheme" where
  "boost_if_due m s =
     (if p_total_ticks_MLFQ (the_proc s m) \<ge> 100
      then upd_proc m (p_total_ticks_MLFQ_update (\<lambda>_. 0)) (boost_threads m s) else s)"

definition revaluate_thread_PASS ::
    "nat \<Rightarrow> nat \<Rightarrow> 'a kbase_scheme \<Rightarrow> (unit, 'a kbase_scheme) kres" where
  "revaluate_thread_PASS t m s =
     (let cs = p_CPU_S (the_proc s m)
      in if cs = 0 then
           Ok () (upd_proc m (\<lambda>p. p\<lparr>p_PASS_MLFQ := 0, p_PASS_Stride := 0,
                                     p_max_stride_thread_pass := 0\<rparr>) s)
         else if t = m \<or> p_proc_mode (the_proc s t) = MLFQ then
           if p_CPU_SHARE (the_proc s m) - cs = 0 then Fault DivideError
           else Ok () (upd_proc m (\<lambda>p. p\<lparr>p_PASS_MLFQ :=
                  p_PASS_MLFQ p + cdiv 10000 (p_CPU_SHARE p - cs)\<rparr>) s)
         else Ok () (upd_proc m (\<lambda>p. p\<lparr>p_PASS_Stride := p_PASS_Stride p + cdiv 10000 cs\<rparr>) s))"

definition adjust_thread_state :: "nat \<Rightarrow> 'a kbase_scheme \<Rightarrow> (unit, 'a kbase_scheme) kres" where
  "adjust_thread_state t s =
     (if p_hasthread (the_proc s t) then
        revaluate_thread_PASS t t (boost_if_due t (upd_proc t adjust_m_tick s))
      else
        case p_mother (the_proc s t) of
          None \<Rightarrow> Fault (Undefined ''thread without a mother'')
        | Some m \<Rightarrow>
            (case p_proc_mode (the_proc s t) of
               MLFQ \<Rightarrow>
                 let s = upd_proc t (\<lambda>p. p\<lparr>p_tick := p_tick p + 1\<rparr>) s;
                     s = upd_proc m (\<lambda>p. p\<lparr>p_total_ticks_MLFQ := p_total_ticks_MLFQ p + 1\<rparr>) s
                 in revaluate_thread_PASS t m (boost_if_due m (upd_proc t adjust_t_tick s))
             | Stride \<Rightarrow>
                 if p_CPU_SHARE (the_proc s t) = 0 then Fault DivideError
                 else
                   let s = upd_proc t (\<lambda>p. p\<lparr>p_PASS := p_PASS p + cdiv 10000 (p_CPU_SHARE p)\<rparr>) s;
                       s = (if p_PASS (the_proc s t) > p_max_stride_thread_pass (the_proc s m)
                            then upd_proc m (\<lambda>p. p\<lparr>p_max_stride_thread_pass :=
                                   d2i (p_PASS (the_proc s t))\<rparr>) s else s)
                   in revaluate_thread_PASS t m s))"

section \<open>Selection\<close>

fun stride_scan :: "proc list \<Rightarrow> nat \<Rightarrow> nat \<Rightarrow> int \<Rightarrow> nat" where
  "stride_scan [] i rp minp = rp"
| "stride_scan (p # ps) i rp minp =
     (if p_state p = RUNNABLE \<and> p_proc_mode p = Stride \<and> p_PASS p < minp
      then stride_scan ps (Suc i) i (d2i (p_PASS p))
      else stride_scan ps (Suc i) rp minp)"

definition find_runnable_Stride :: "'a kbase_scheme \<Rightarrow> nat" where
  "find_runnable_Stride s = stride_scan (ptable s) 0 0 2147483645"

text \<open>\<open>rr_skip\<close> is the test that makes the MLFQ loop \<open>continue\<close>.\<close>

definition rr_skip :: "MLFQ_level \<Rightarrow> int \<Rightarrow> int \<Rightarrow> bool" where
  "rr_skip lv ptick tick =
     (case lv of HIGH \<Rightarrow> ptick \<ge> tick
      | MID \<Rightarrow> cdiv ptick 2 \<ge> cdiv tick 2
      | LOW \<Rightarrow> cdiv ptick 4 \<ge> cdiv tick 4)"

fun mlfq_scan :: "proc list \<Rightarrow> nat \<Rightarrow> nat \<Rightarrow> MLFQ_level \<Rightarrow> int \<Rightarrow> nat" where
  "mlfq_scan [] i rp lv tick = rp"
| "mlfq_scan (p # ps) i rp lv tick =
     (if p_state p = RUNNABLE \<and> p_proc_mode p = MLFQ then
        if p_MLFQ_lv p > lv then mlfq_scan ps (Suc i) i (p_MLFQ_lv p) (p_tick p)
        else if p_MLFQ_lv p = lv then
          if rr_skip lv (p_tick p) tick then mlfq_scan ps (Suc i) rp lv tick
          else mlfq_scan ps (Suc i) i lv (p_tick p)
        else mlfq_scan ps (Suc i) rp lv tick
      else mlfq_scan ps (Suc i) rp lv tick)"

definition find_runnable_MLFQ :: "'a kbase_scheme \<Rightarrow> nat" where
  "find_runnable_MLFQ s = mlfq_scan (ptable s) 0 0 LOW 1000"

section \<open>Accounting\<close>

definition adjust_Stride_state :: "nat \<Rightarrow> 'a kbase_scheme \<Rightarrow> (unit, 'a kbase_scheme) kres" where
  "adjust_Stride_state i s =
     (if p_CPU_SHARE (the_proc s i) = 0 then Fault DivideError
      else
        let s = upd_proc i (\<lambda>p. p\<lparr>p_PASS := p_PASS p + cdiv 10000 (p_CPU_SHARE p)\<rparr>) s
        in Ok () (if p_PASS (the_proc s i) > max_stride_proc_pass s
                  then s\<lparr>max_stride_proc_pass := d2i (p_PASS (the_proc s i))\<rparr> else s))"

definition revaluate_PASS ::
    "Proc_mode \<Rightarrow> nat \<Rightarrow> 'a kbase_scheme \<Rightarrow> (unit, 'a kbase_scheme) kres" where
  "revaluate_PASS mode i s =
     (let cs = CPU_share_Stride s
      in if cs = 0 then Ok () (s\<lparr>PASS_MLFQ := 0, PASS_Stride := 0, max_stride_proc_pass := 0\<rparr>)
         else case mode of
           MLFQ \<Rightarrow> if 100 - cs = 0 then Fault DivideError
                   else Ok () (s\<lparr>PASS_MLFQ := PASS_MLFQ s + cdiv 10000 (100 - cs)\<rparr>)
         | Stride \<Rightarrow> Ok () (s\<lparr>PASS_Stride := PASS_Stride s + cdiv 10000 cs\<rparr>))"

definition adjust_MLFQ_state :: "nat \<Rightarrow> 'a kbase_scheme \<Rightarrow> 'a kbase_scheme" where
  "adjust_MLFQ_state i s =
     (let s = upd_proc i (\<lambda>p. p\<lparr>p_tick := p_tick p + 1\<rparr>) s;
          s = s\<lparr>total_ticks_MLFQ := total_ticks_MLFQ s + 1\<rparr>;
          p = the_proc s i
      in if p_MLFQ_lv p = HIGH \<and> p_tick p \<ge> 5
         then upd_proc i (\<lambda>p. p\<lparr>p_MLFQ_lv := MID, p_tick := 0\<rparr>) s
         else if p_MLFQ_lv p = MID \<and> p_tick p \<ge> 10
         then upd_proc i (\<lambda>p. p\<lparr>p_MLFQ_lv := LOW, p_tick := 0\<rparr>) s
         else s)"

definition boost_proc :: "proc \<Rightarrow> proc" where
  "boost_proc p = (if p_state p = RUNNABLE then p\<lparr>p_tick := 0, p_MLFQ_lv := HIGH\<rparr> else p)"

definition init_MLFQ_state :: "'a kbase_scheme \<Rightarrow> 'a kbase_scheme" where
  "init_MLFQ_state s =
     (if total_ticks_MLFQ s \<ge> 100
      then s\<lparr>ptable := map boost_proc (ptable s), total_ticks_MLFQ := 0\<rparr> else s)"

section \<open>One round of the scheduler\<close>

text \<open>
  \<open>switchuvm\<close> with its panics; of the task state segment only the kernel stack pointer is
  kept. \<open>scheduler_pick\<close> is the loop body up to \<open>swtch\<close>, \<open>scheduler_return\<close> the rest, run
  when the chosen process switches back.
\<close>

definition switchuvm :: "nat \<Rightarrow> 'a kbase_scheme \<Rightarrow> (unit, 'a kbase_scheme) kres" where
  "switchuvm i s =
     (if p_kstack (the_proc s i) = 0 then panic ''switchuvm: no kstack''
      else if p_pgdir (the_proc s i) = 0 then panic ''switchuvm: no pgdir''
      else Ok () (s\<lparr>cpu_esp0 := uadd (p_kstack (the_proc s i)) KSTACKSIZE,
                    cpu_cr3 := V2P (p_pgdir (the_proc s i))\<rparr>))"

definition switchkvm :: "'a kbase_scheme \<Rightarrow> 'a kbase_scheme" where
  "switchkvm s = s\<lparr>cpu_cr3 := V2P (kpgdir s)\<rparr>"

definition scheduler_pick ::
    "'a kbase_scheme \<Rightarrow> (Proc_mode \<times> nat, 'a kbase_scheme) kres" where
  "scheduler_pick s =
     kbind (acquire PtableLock s) (\<lambda>_ s.
       let mode = sche_mode s;
           i = (case mode of MLFQ \<Rightarrow> find_runnable_MLFQ s | Stride \<Rightarrow> find_runnable_Stride s)
       in kbind (switchuvm i (s\<lparr>curproc := Some i\<rparr>)) (\<lambda>_ s.
            Ok (mode, i) (upd_proc i (p_state_update (\<lambda>_. RUNNING)) s)))"

definition scheduler_return ::
    "Proc_mode \<Rightarrow> nat \<Rightarrow> 'a kbase_scheme \<Rightarrow> (unit, 'a kbase_scheme) kres" where
  "scheduler_return mode i s =
     (let s = switchkvm s
      in kbind (case mode of
                  MLFQ \<Rightarrow> Ok () (init_MLFQ_state (adjust_MLFQ_state i s))
                | Stride \<Rightarrow> adjust_Stride_state i s)
           (\<lambda>_ s. kbind (revaluate_PASS mode i s)
           (\<lambda>_ s. release PtableLock (s\<lparr>curproc := None\<rparr>))))"

section \<open>System calls\<close>

definition getlev :: "'a kbase_scheme \<Rightarrow> (int, 'a kbase_scheme) kres" where
  "getlev s =
     (case curproc s of
        None \<Rightarrow> Fault (Undefined ''no process'')
      | Some i \<Rightarrow>
          Ok (case p_MLFQ_lv (the_proc s i) of LOW \<Rightarrow> 0 | MID \<Rightarrow> 1 | HIGH \<Rightarrow> 2) s)"

text \<open>
  In the second branch the source assigns \<open>CPU_SHARE\<close> before it subtracts it from the sum.
  A sum outside the \<open>int\<close> range is undefined in C.
\<close>

definition in_int :: "int \<Rightarrow> bool" where
  "in_int x \<longleftrightarrow> - (2 ^ 31) \<le> x \<and> x < 2 ^ 31"

definition set_cpu_share :: "int \<Rightarrow> 'a kbase_scheme \<Rightarrow> (int, 'a kbase_scheme) kres" where
  "set_cpu_share n s =
     (if n \<le> 0 then Ok (-1) s
      else case curproc s of
        None \<Rightarrow> Fault (Undefined ''no process'')
      | Some i \<Rightarrow>
          if \<not> in_int (CPU_share_Stride s + n) then Fault (Undefined ''signed overflow'')
          else if p_proc_mode (the_proc s i) \<noteq> Stride then
            if CPU_share_Stride s + n > 80 then Ok (-1) s
            else
              let s = upd_proc i (\<lambda>p. p\<lparr>p_CPU_SHARE := n\<rparr>) s;
                  s = s\<lparr>CPU_share_Stride := CPU_share_Stride s + n\<rparr>;
                  s = upd_proc i (\<lambda>p. p\<lparr>p_proc_mode := Stride\<rparr>) s;
                  s = upd_proc i (\<lambda>p. p\<lparr>p_PASS := max_stride_proc_pass s\<rparr>) s
              in Ok 0 s
          else
            if CPU_share_Stride s + n - p_CPU_SHARE (the_proc s i) > 80 then Ok (-1) s
            else
              let s = upd_proc i (\<lambda>p. p\<lparr>p_CPU_SHARE := n\<rparr>) s;
                  s = s\<lparr>CPU_share_Stride :=
                        CPU_share_Stride s + n - p_CPU_SHARE (the_proc s i)\<rparr>;
                  s = upd_proc i (\<lambda>p. p\<lparr>p_PASS := max_stride_proc_pass s\<rparr>) s
              in Ok 0 s)"

text \<open>What \<open>exit\<close> does to the reserved total.\<close>

definition release_share :: "nat \<Rightarrow> 'a kbase_scheme \<Rightarrow> 'a kbase_scheme" where
  "release_share i s =
     (if p_proc_mode (the_proc s i) = Stride
      then s\<lparr>CPU_share_Stride := CPU_share_Stride s - p_CPU_SHARE (the_proc s i)\<rparr> else s)"

section \<open>The selection loops compute the first best entry\<close>

text \<open>
  Reference loop: the index of the first entry whose key is largest, if a key exceeds the
  initial bound, else the default.
\<close>

fun scan_max :: "('a \<Rightarrow> 'k::linorder option) \<Rightarrow> 'a list \<Rightarrow> nat \<Rightarrow> nat \<Rightarrow> 'k \<Rightarrow> nat" where
  "scan_max key [] i rp b = rp"
| "scan_max key (x # xs) i rp b =
     (case key x of
        None \<Rightarrow> scan_max key xs (Suc i) rp b
      | Some k \<Rightarrow> if b < k then scan_max key xs (Suc i) i k else scan_max key xs (Suc i) rp b)"

definition best_from ::
    "('a \<Rightarrow> 'k::linorder option) \<Rightarrow> 'a list \<Rightarrow> 'k \<Rightarrow> nat \<Rightarrow> bool" where
  "best_from key xs b j \<longleftrightarrow> j < length xs \<and>
     (\<exists>k. key (xs ! j) = Some k \<and> b < k
        \<and> (\<forall>x \<in> set xs. \<forall>k'. key x = Some k' \<longrightarrow> k' \<le> k)
        \<and> (\<forall>j' < j. \<forall>k'. key (xs ! j') = Some k' \<longrightarrow> k' < k))"

lemma best_from_Cons_skip:
  assumes "best_from key xs b j" and "\<And>k. key x = Some k \<Longrightarrow> k \<le> b"
  shows "best_from key (x # xs) b (Suc j)"
proof -
  from assms(1) obtain k where k: "j < length xs" "key (xs ! j) = Some k" "b < k"
      "\<forall>x \<in> set xs. \<forall>k'. key x = Some k' \<longrightarrow> k' \<le> k"
      "\<forall>j' < j. \<forall>k'. key (xs ! j') = Some k' \<longrightarrow> k' < k"
    by (auto simp: best_from_def)
  have "k' < k" if "key x = Some k'" for k'
    using assms(2) [OF that] k(3) by simp
  with k show ?thesis
    by (auto simp: best_from_def less_Suc_eq_0_disj)
qed

lemma best_from_Cons_take:
  assumes "best_from key xs k0 j" and "key x = Some k0" and "b < k0"
  shows "best_from key (x # xs) b (Suc j)"
proof -
  from assms(1) obtain k where k: "j < length xs" "key (xs ! j) = Some k" "k0 < k"
      "\<forall>x \<in> set xs. \<forall>k'. key x = Some k' \<longrightarrow> k' \<le> k"
      "\<forall>j' < j. \<forall>k'. key (xs ! j') = Some k' \<longrightarrow> k' < k"
    by (auto simp: best_from_def)
  with assms(2,3) have "b < k" by (meson less_trans)
  with k assms(2) show ?thesis
    by (auto simp: best_from_def less_Suc_eq_0_disj)
qed

lemma scan_max_cases:
  "(\<exists>j. scan_max key xs i rp b = i + j \<and> best_from key xs b j) \<or>
   (scan_max key xs i rp b = rp \<and> (\<forall>x \<in> set xs. \<forall>k. key x = Some k \<longrightarrow> k \<le> b))"
proof (induction xs arbitrary: i rp b)
  case Nil
  then show ?case by simp
next
  case (Cons x xs)
  show ?case
  proof (cases "\<exists>k. key x = Some k \<and> b < k")
    case True
    then obtain k where k: "key x = Some k" "b < k" by blast
    then have eq: "scan_max key (x # xs) i rp b = scan_max key xs (Suc i) i k" by simp
    from Cons.IH [of "Suc i" i k] show ?thesis
    proof
      assume "\<exists>j. scan_max key xs (Suc i) i k = Suc i + j \<and> best_from key xs k j"
      then obtain j where "scan_max key xs (Suc i) i k = i + Suc j" "best_from key xs k j" by auto
      with eq k best_from_Cons_take [of key xs k j x b] show ?thesis by metis
    next
      assume r: "scan_max key xs (Suc i) i k = i \<and> (\<forall>x \<in> set xs. \<forall>k'. key x = Some k' \<longrightarrow> k' \<le> k)"
      with k have "best_from key (x # xs) b 0" by (auto simp: best_from_def)
      with eq r show ?thesis by (metis add_0_right)
    qed
  next
    case False
    then have le: "\<And>k. key x = Some k \<Longrightarrow> k \<le> b" by (meson not_less)
    have eq: "scan_max key (x # xs) i rp b = scan_max key xs (Suc i) rp b"
      using False by (auto split: option.splits)
    from Cons.IH [of "Suc i" rp b] show ?thesis
    proof
      assume "\<exists>j. scan_max key xs (Suc i) rp b = Suc i + j \<and> best_from key xs b j"
      then obtain j where "scan_max key xs (Suc i) rp b = i + Suc j" "best_from key xs b j" by auto
      with eq le best_from_Cons_skip [of key xs b j x] show ?thesis by metis
    next
      assume "scan_max key xs (Suc i) rp b = rp \<and> (\<forall>x \<in> set xs. \<forall>k. key x = Some k \<longrightarrow> k \<le> b)"
      with eq le show ?thesis by auto
    qed
  qed
qed

lemma scan_max_best:
  assumes "x \<in> set xs" and "key x = Some k" and "b < k"
  shows "best_from key xs b (scan_max key xs 0 rp b)"
  using scan_max_cases [of key xs 0 rp b] assms by (auto simp: not_less [symmetric])

lemma scan_max_default:
  assumes "\<And>x k. x \<in> set xs \<Longrightarrow> key x = Some k \<Longrightarrow> k \<le> b"
  shows "scan_max key xs 0 rp b = rp"
  using scan_max_cases [of key xs 0 rp b] assms
  by (auto simp: best_from_def) (meson leD nth_mem)

lemma best_fromD:
  assumes "best_from (\<lambda>x. if R x then Some (g x) else None) xs b j"
  shows "j < length xs \<and> R (xs ! j) \<and> (\<forall>q \<in> set xs. R q \<longrightarrow> g q \<le> g (xs ! j))
    \<and> (\<forall>j' < j. R (xs ! j') \<longrightarrow> g (xs ! j') < g (xs ! j))"
  using assms by (auto simp: best_from_def split: if_splits)

fun quantum :: "MLFQ_level \<Rightarrow> int" where
  "quantum HIGH = 1"
| "quantum MID = 2"
| "quantum LOW = 4"

text \<open>Rank of a process in the MLFQ: higher level first, then fewer quanta used.\<close>

definition rank :: "MLFQ_level \<Rightarrow> int \<Rightarrow> int \<times> int" where
  "rank lv t = (level_num lv, - cdiv t (quantum lv))"

definition mlfq_runnable :: "proc \<Rightarrow> bool" where
  "mlfq_runnable p \<longleftrightarrow> p_state p = RUNNABLE \<and> p_proc_mode p = MLFQ"

definition mlfq_key :: "proc \<Rightarrow> (int \<times> int) option" where
  "mlfq_key p = (if mlfq_runnable p then Some (rank (p_MLFQ_lv p) (p_tick p)) else None)"

lemma cdiv_one [simp]: "cdiv t 1 = t"
  by (simp add: cdiv_def sgn_mult_abs)

lemma rank_less: "rank lv t < rank lv' t' \<longleftrightarrow>
    lv < lv' \<or> (lv' = lv \<and> cdiv t' (quantum lv) < cdiv t (quantum lv))"
proof -
  have "level_num lv = level_num lv' \<longleftrightarrow> lv' = lv"
    by (cases lv; cases lv') simp_all
  then show ?thesis
    by (auto simp: rank_def less_MLFQ_level_def)
qed

lemma rr_skip_iff: "rr_skip lv t t' \<longleftrightarrow> cdiv t' (quantum lv) \<le> cdiv t (quantum lv)"
  by (cases lv) (simp_all add: rr_skip_def)

lemma mlfq_scan_eq: "mlfq_scan ps i rp lv t = scan_max mlfq_key ps i rp (rank lv t)"
proof (induction ps arbitrary: i rp lv t)
  case Nil
  then show ?case by simp
next
  case (Cons p ps)
  show ?case
  proof (cases "mlfq_runnable p \<and> rank lv t < rank (p_MLFQ_lv p) (p_tick p)")
    case True
    then show ?thesis
      using Cons.IH by (auto simp: mlfq_key_def mlfq_runnable_def rank_less rr_skip_iff)
  next
    case False
    then show ?thesis
      using Cons.IH by (auto simp: mlfq_key_def mlfq_runnable_def rank_less rr_skip_iff)
  qed
qed

definition stride_runnable :: "proc \<Rightarrow> bool" where
  "stride_runnable p \<longleftrightarrow> p_state p = RUNNABLE \<and> p_proc_mode p = Stride"

definition stride_key :: "proc \<Rightarrow> int option" where
  "stride_key p = (if stride_runnable p then Some (- p_PASS p) else None)"

lemma stride_scan_eq:
  assumes "\<forall>p \<in> set ps. - (2 ^ 31) \<le> p_PASS p" and "m < 2 ^ 31"
  shows "stride_scan ps i rp m = scan_max stride_key ps i rp (- m)"
  using assms
proof (induction ps arbitrary: i rp m)
  case Nil
  then show ?case by simp
next
  case (Cons p ps)
  have "d2i (p_PASS p) = p_PASS p" if "p_PASS p < m"
    using that Cons.prems by (simp add: d2i_def)
  with Cons show ?case
    by (auto simp: stride_key_def stride_runnable_def)
qed

section \<open>Properties of the selection\<close>

lemma rank_below_default:
  assumes "lv \<noteq> LOW \<or> t < 1000"
  shows "rank LOW 1000 < rank lv t"
proof (cases "lv = LOW")
  case True
  with assms have "t < 1000" by simp
  then have "cdiv t 4 < 250"
    by (cases "t \<ge> 0") (auto simp: cdiv_def sgn_if)
  with True show ?thesis by (simp add: rank_less cdiv_def)
next
  case False
  then have "LOW < lv" by (cases lv) (simp_all add: less_MLFQ_level_def)
  then show ?thesis by (simp add: rank_less)
qed

text \<open>
  C2: when some runnable MLFQ process is above the lowest level or has used fewer than
  1000 ticks, \<open>find_runnable_MLFQ\<close> returns a runnable MLFQ process of the highest
  occupied level which, among the runnable processes of that level, has used the fewest
  round-robin quanta, and which is the first such entry of the table.
\<close>

theorem find_runnable_MLFQ_best:
  assumes "p \<in> set (ptable s)" and "mlfq_runnable p" and "p_MLFQ_lv p \<noteq> LOW \<or> p_tick p < 1000"
  shows "find_runnable_MLFQ s < length (ptable s)
    \<and> mlfq_runnable (ptable s ! find_runnable_MLFQ s)
    \<and> (\<forall>q \<in> set (ptable s). mlfq_runnable q \<longrightarrow>
         rank (p_MLFQ_lv q) (p_tick q) \<le>
         rank (p_MLFQ_lv (ptable s ! find_runnable_MLFQ s)) (p_tick (ptable s ! find_runnable_MLFQ s)))
    \<and> (\<forall>j < find_runnable_MLFQ s. mlfq_runnable (ptable s ! j) \<longrightarrow>
         rank (p_MLFQ_lv (ptable s ! j)) (p_tick (ptable s ! j)) <
         rank (p_MLFQ_lv (ptable s ! find_runnable_MLFQ s)) (p_tick (ptable s ! find_runnable_MLFQ s)))"
proof -
  have "best_from mlfq_key (ptable s) (rank LOW 1000) (find_runnable_MLFQ s)"
    unfolding find_runnable_MLFQ_def mlfq_scan_eq
    by (rule scan_max_best [OF assms(1)]) (use assms rank_below_default in \<open>auto simp: mlfq_key_def\<close>)
  then show ?thesis
    unfolding mlfq_key_def by (rule best_fromD)
qed

theorem find_runnable_MLFQ_best_witness:
  "find_runnable_MLFQ (boot_kbase\<lparr>ptable :=
       [zero_proc, zero_proc\<lparr>p_state := RUNNABLE, p_MLFQ_lv := MID, p_tick := 5\<rparr>,
        zero_proc\<lparr>p_state := RUNNABLE, p_MLFQ_lv := MID, p_tick := 3\<rparr>,
        zero_proc\<lparr>p_state := RUNNABLE, p_MLFQ_lv := MID, p_tick := 2\<rparr>]\<rparr>) = 2
   \<and> mlfq_runnable ([zero_proc, zero_proc\<lparr>p_state := RUNNABLE, p_MLFQ_lv := MID, p_tick := 5\<rparr>,
        zero_proc\<lparr>p_state := RUNNABLE, p_MLFQ_lv := MID, p_tick := 3\<rparr>,
        zero_proc\<lparr>p_state := RUNNABLE, p_MLFQ_lv := MID, p_tick := 2\<rparr>] ! 2)"
  (is "find_runnable_MLFQ ?s = 2 \<and> mlfq_runnable (?ps ! 2)")
proof -
  have ps: "ptable ?s = ?ps" by simp
  have eq: "find_runnable_MLFQ ?s = 2"
    by (simp add: find_runnable_MLFQ_def zero_proc_def less_MLFQ_level_def rr_skip_def cdiv_def)
  have p: "?ps ! 1 \<in> set (ptable ?s)" "mlfq_runnable (?ps ! 1)"
      "p_MLFQ_lv (?ps ! 1) \<noteq> LOW \<or> p_tick (?ps ! 1) < 1000"
    by (simp_all add: mlfq_runnable_def zero_proc_def)
  show ?thesis using find_runnable_MLFQ_best [OF p] by (simp only: eq ps simp_thms)
qed

text \<open>
  C26: when a runnable stride process has a pass below \<open>2147483645\<close> (and no pass is below the
  \<open>int\<close> range), \<open>find_runnable_Stride\<close> returns a runnable stride process of least pass,
  the first such entry of the table.
\<close>

theorem find_runnable_Stride_min:
  assumes "p \<in> set (ptable s)" and "stride_runnable p" and "p_PASS p < 2147483645"
    and "\<forall>q \<in> set (ptable s). - (2 ^ 31) \<le> p_PASS q"
  shows "find_runnable_Stride s < length (ptable s)
    \<and> stride_runnable (ptable s ! find_runnable_Stride s)
    \<and> (\<forall>q \<in> set (ptable s). stride_runnable q \<longrightarrow>
         p_PASS (ptable s ! find_runnable_Stride s) \<le> p_PASS q)
    \<and> (\<forall>j < find_runnable_Stride s. stride_runnable (ptable s ! j) \<longrightarrow>
         p_PASS (ptable s ! find_runnable_Stride s) < p_PASS (ptable s ! j))"
proof -
  have eq: "find_runnable_Stride s = scan_max stride_key (ptable s) 0 0 (- 2147483645)"
    using stride_scan_eq [OF assms(4), of 2147483645 0 0] by (simp add: find_runnable_Stride_def)
  have "best_from stride_key (ptable s) (- 2147483645) (find_runnable_Stride s)"
    unfolding eq by (rule scan_max_best [OF assms(1)]) (use assms in \<open>auto simp: stride_key_def\<close>)
  then show ?thesis
    by (auto simp: best_from_def stride_key_def split: if_splits)
qed

theorem find_runnable_Stride_min_witness:
  "find_runnable_Stride (boot_kbase\<lparr>ptable :=
       [zero_proc, zero_proc\<lparr>p_state := RUNNABLE, p_proc_mode := Stride, p_PASS := 500\<rparr>,
        zero_proc\<lparr>p_state := RUNNABLE, p_proc_mode := Stride, p_PASS := 200\<rparr>]\<rparr>) = 2
   \<and> stride_runnable ([zero_proc,
        zero_proc\<lparr>p_state := RUNNABLE, p_proc_mode := Stride, p_PASS := 500\<rparr>,
        zero_proc\<lparr>p_state := RUNNABLE, p_proc_mode := Stride, p_PASS := 200\<rparr>] ! 2)"
  (is "find_runnable_Stride ?s = 2 \<and> stride_runnable (?ps ! 2)")
proof -
  have ps: "ptable ?s = ?ps" by simp
  have eq: "find_runnable_Stride ?s = 2"
    by (simp add: find_runnable_Stride_def zero_proc_def d2i_def)
  have p: "?ps ! 1 \<in> set (ptable ?s)" "stride_runnable (?ps ! 1)" "p_PASS (?ps ! 1) < 2147483645"
      "\<forall>q \<in> set (ptable ?s). - (2 ^ 31) \<le> p_PASS q"
    by (simp_all add: stride_runnable_def zero_proc_def)
  show ?thesis using find_runnable_Stride_min [OF p] by (simp only: eq ps simp_thms)
qed

section \<open>Ticks and the priority boost\<close>

definition tick_ok :: "proc \<Rightarrow> bool" where
  "tick_ok p \<longleftrightarrow> 0 \<le> p_tick p \<and> (p_MLFQ_lv p = HIGH \<longrightarrow> p_tick p < 5)
     \<and> (p_MLFQ_lv p = MID \<longrightarrow> p_tick p < 10)"

definition mlfq_inv :: "'a kbase_scheme \<Rightarrow> bool" where
  "mlfq_inv s \<longleftrightarrow> (\<forall>p \<in> set (ptable s). tick_ok p) \<and> 0 \<le> total_ticks_MLFQ s
     \<and> total_ticks_MLFQ s < 100"

definition boosted :: "'a kbase_scheme \<Rightarrow> bool" where
  "boosted s \<longleftrightarrow> total_ticks_MLFQ s = 0
     \<and> (\<forall>p \<in> set (ptable s). p_state p = RUNNABLE \<longrightarrow> p_MLFQ_lv p = HIGH \<and> p_tick p = 0)"

lemma ptable_upd_proc: "ptable (upd_proc i f s) = (ptable s)[i := f (ptable s ! i)]"
  by (simp add: upd_proc_def)

lemma all_upd_proc:
  assumes "\<forall>p \<in> set (ptable s). P p" and "i < length (ptable s) \<Longrightarrow> P (f (ptable s ! i))"
  shows "\<forall>p \<in> set (ptable (upd_proc i f s)). P p"
proof (cases "i < length (ptable s)")
  case True
  with assms show ?thesis
    using set_update_subset_insert [of "ptable s" i "f (ptable s ! i)"] by (auto simp: ptable_upd_proc)
next
  case False
  with assms show ?thesis by (simp add: ptable_upd_proc list_update_beyond)
qed

lemma adjust_MLFQ_total [simp]: "total_ticks_MLFQ (adjust_MLFQ_state i s) = total_ticks_MLFQ s + 1"
  by (simp add: adjust_MLFQ_state_def Let_def)

text \<open>The three outcomes of \<open>adjust_MLFQ_state\<close> as one update of the entry.\<close>

definition aged :: "proc \<Rightarrow> proc" where
  "aged p =
     (if p_MLFQ_lv p = HIGH \<and> p_tick p \<ge> 4 then p\<lparr>p_MLFQ_lv := MID, p_tick := 0\<rparr>
      else if p_MLFQ_lv p = MID \<and> p_tick p \<ge> 9 then p\<lparr>p_MLFQ_lv := LOW, p_tick := 0\<rparr>
      else p\<lparr>p_tick := p_tick p + 1\<rparr>)"

lemma upd_proc_twice [simp]:
  "i < length (ptable s) \<Longrightarrow> upd_proc i g (upd_proc i f s) = upd_proc i (\<lambda>p. g (f p)) s"
  by (simp add: upd_proc_def)

lemma upd_proc_total:
  "upd_proc i f (s\<lparr>total_ticks_MLFQ := n\<rparr>) = (upd_proc i f s)\<lparr>total_ticks_MLFQ := n\<rparr>"
  by (simp add: upd_proc_def)

lemma upd_proc_cong: "f (ptable s ! i) = g (ptable s ! i) \<Longrightarrow> upd_proc i f s = upd_proc i g s"
  by (simp add: upd_proc_def)

lemma adjust_MLFQ_aged:
  assumes "i < length (ptable s)"
  shows "adjust_MLFQ_state i s =
    (upd_proc i aged s)\<lparr>total_ticks_MLFQ := total_ticks_MLFQ s + 1\<rparr>"
proof -
  let ?inc = "\<lambda>p. p\<lparr>p_tick := p_tick p + 1\<rparr>"
  consider (hi) "p_MLFQ_lv (ptable s ! i) = HIGH" "p_tick (ptable s ! i) \<ge> 4"
    | (mid) "p_MLFQ_lv (ptable s ! i) = MID" "p_tick (ptable s ! i) \<ge> 9"
    | (stay) "\<not> (p_MLFQ_lv (ptable s ! i) = HIGH \<and> p_tick (ptable s ! i) \<ge> 4)"
        "\<not> (p_MLFQ_lv (ptable s ! i) = MID \<and> p_tick (ptable s ! i) \<ge> 9)"
    by blast
  then show ?thesis
    by cases (use assms in \<open>auto simp: adjust_MLFQ_state_def Let_def upd_proc_total aged_def
        intro!: arg_cong [where f = "\<lambda>u. u\<lparr>total_ticks_MLFQ := total_ticks_MLFQ s + 1\<rparr>"] upd_proc_cong\<close>)
qed

lemma tick_ok_aged: "tick_ok p \<Longrightarrow> tick_ok (aged p)"
  by (auto simp: tick_ok_def aged_def)

lemma mlfq_inv_round:
  assumes "mlfq_inv s" and "i < length (ptable s)"
  shows "mlfq_inv (init_MLFQ_state (adjust_MLFQ_state i s))"
proof -
  have all: "\<forall>p \<in> set (ptable (upd_proc i aged s)). tick_ok p"
    using assms by (intro all_upd_proc) (auto simp: mlfq_inv_def intro: tick_ok_aged)
  then have "\<forall>p \<in> set (ptable (upd_proc i aged s)). tick_ok (boost_proc p)"
    by (auto simp: boost_proc_def tick_ok_def)
  with all assms show ?thesis
    by (simp add: mlfq_inv_def init_MLFQ_state_def adjust_MLFQ_aged)
qed

lemma revaluate_PASS_frame:
  "revaluate_PASS mode i s = Ok () t \<Longrightarrow> ptable t = ptable s \<and> total_ticks_MLFQ t = total_ticks_MLFQ s
     \<and> CPU_share_Stride t = CPU_share_Stride s \<and> held t = held s"
  by (auto simp: revaluate_PASS_def Let_def split: if_splits Proc_mode.splits)

lemma adjust_Stride_frame:
  assumes "adjust_Stride_state i s = Ok () t" and "i < length (ptable s)"
  shows "total_ticks_MLFQ t = total_ticks_MLFQ s \<and> CPU_share_Stride t = CPU_share_Stride s
    \<and> PASS_MLFQ t = PASS_MLFQ s \<and> PASS_Stride t = PASS_Stride s
    \<and> ptable t = (ptable s)[i := (ptable s ! i)\<lparr>p_PASS := p_PASS (ptable s ! i)
         + cdiv 10000 (p_CPU_SHARE (ptable s ! i))\<rparr>]"
  using assms by (auto simp: adjust_Stride_state_def Let_def ptable_upd_proc split: if_splits)

lemma scheduler_return_Ok:
  assumes "scheduler_return mode i s = Ok () t"
  obtains u v where "(case mode of MLFQ \<Rightarrow> Ok () (init_MLFQ_state (adjust_MLFQ_state i (switchkvm s)))
                | Stride \<Rightarrow> adjust_Stride_state i (switchkvm s)) = Ok () u"
    and "revaluate_PASS mode i u = Ok () v"
    and "t = v\<lparr>curproc := None, held := remove1 PtableLock (held v)\<rparr>"
  using assms unfolding scheduler_return_def Let_def
  by (auto elim!: kbind_okE simp: release_def split: if_splits)

lemma switchkvm_sel [simp]:
  "ptable (switchkvm s) = ptable s" "total_ticks_MLFQ (switchkvm s) = total_ticks_MLFQ s"
  "CPU_share_Stride (switchkvm s) = CPU_share_Stride s" "PASS_MLFQ (switchkvm s) = PASS_MLFQ s"
  "PASS_Stride (switchkvm s) = PASS_Stride s" "held (switchkvm s) = held s"
  by (simp_all add: switchkvm_def)

text \<open>
  C23: the end of every scheduler round keeps the tick invariant: a process at the highest
  level has used fewer than 5 ticks, one at the middle level fewer than 10, none a negative
  number, and the boost counter stays between 0 and 99.
\<close>

theorem scheduler_return_mlfq_inv:
  assumes "mlfq_inv s" and "i < length (ptable s)" and "scheduler_return mode i s = Ok () t"
  shows "mlfq_inv t"
proof -
  have inv: "mlfq_inv (switchkvm s)" and len: "i < length (ptable (switchkvm s))"
    using assms by (simp_all add: mlfq_inv_def)
  from assms(3) obtain u v where u: "(case mode of
        MLFQ \<Rightarrow> Ok () (init_MLFQ_state (adjust_MLFQ_state i (switchkvm s)))
      | Stride \<Rightarrow> adjust_Stride_state i (switchkvm s)) = Ok () u"
    and v: "revaluate_PASS mode i u = Ok () v"
    and t: "t = v\<lparr>curproc := None, held := remove1 PtableLock (held v)\<rparr>"
    by (rule scheduler_return_Ok)
  have "mlfq_inv u"
  proof (cases mode)
    case MLFQ
    with u mlfq_inv_round [OF inv len] show ?thesis by simp
  next
    case Stride
    with u have a: "adjust_Stride_state i (switchkvm s) = Ok () u" by simp
    have "\<forall>p \<in> set (ptable u). tick_ok p"
      using inv len adjust_Stride_frame [OF a len] set_update_subset_insert
      by (fastforce simp: mlfq_inv_def tick_ok_def)
    with inv adjust_Stride_frame [OF a len] show ?thesis by (simp add: mlfq_inv_def)
  qed
  with t revaluate_PASS_frame [OF v] show ?thesis by (simp add: mlfq_inv_def)
qed

theorem scheduler_return_mlfq_inv_witness:
  "\<exists>t. scheduler_return MLFQ 0 (boot_kbase\<lparr>held := [PtableLock],
      ptable := [zero_proc\<lparr>p_state := RUNNABLE, p_MLFQ_lv := HIGH, p_tick := 4\<rparr>]\<rparr>) = Ok () t
    \<and> mlfq_inv t \<and> p_MLFQ_lv (ptable t ! 0) = MID"
  (is "\<exists>t. scheduler_return MLFQ 0 ?s = Ok () t \<and> _")
proof -
  have inv: "mlfq_inv ?s" by (simp add: mlfq_inv_def tick_ok_def zero_proc_def boot_kbase_def)
  have len: "0 < length (ptable ?s)" by simp
  obtain t where t: "scheduler_return MLFQ 0 ?s = Ok () t" and "p_MLFQ_lv (ptable t ! 0) = MID"
    by (simp add: scheduler_return_def switchkvm_def adjust_MLFQ_state_def init_MLFQ_state_def
        upd_proc_def revaluate_PASS_def release_def boot_kbase_def zero_proc_def Let_def)
  with scheduler_return_mlfq_inv [OF inv len t] show ?thesis by blast
qed

text \<open>
  A round in MLFQ mode: while the process runs, nothing touches \<open>num_MLFQ\<close>.
\<close>

definition mlfq_round :: "kbase \<Rightarrow> kbase \<Rightarrow> bool" where
  "mlfq_round s t \<longleftrightarrow> (\<exists>u i. total_ticks_MLFQ u = total_ticks_MLFQ s \<and> i < length (ptable u)
     \<and> scheduler_return MLFQ i u = Ok () t)"

lemma mlfq_round_cases:
  assumes "mlfq_round s t" and "0 \<le> total_ticks_MLFQ s"
  shows "total_ticks_MLFQ s < 99 \<and> total_ticks_MLFQ t = total_ticks_MLFQ s + 1
    \<or> 99 \<le> total_ticks_MLFQ s \<and> boosted t"
proof -
  from assms(1) obtain u i where u: "total_ticks_MLFQ u = total_ticks_MLFQ s"
      "scheduler_return MLFQ i u = Ok () t"
    by (auto simp: mlfq_round_def)
  from u(2) obtain v where v: "revaluate_PASS MLFQ i
        (init_MLFQ_state (adjust_MLFQ_state i (switchkvm u))) = Ok () v"
      "t = v\<lparr>curproc := None, held := remove1 PtableLock (held v)\<rparr>"
    by (auto elim!: scheduler_return_Ok)
  let ?w = "init_MLFQ_state (adjust_MLFQ_state i (switchkvm u))"
  have eq: "ptable t = ptable ?w" "total_ticks_MLFQ t = total_ticks_MLFQ ?w"
    using v revaluate_PASS_frame [OF v(1)] by simp_all
  show ?thesis
  proof (cases "total_ticks_MLFQ s < 99")
    case True
    with u(1) eq show ?thesis by (simp add: init_MLFQ_state_def)
  next
    case False
    with u(1) have "boosted ?w"
      by (auto simp: init_MLFQ_state_def boosted_def boost_proc_def)
    with False eq show ?thesis by (simp add: boosted_def)
  qed
qed

text \<open>
  C24: no MLFQ process starves for lack of a boost: among 100 consecutive MLFQ rounds one
  ends with the boost counter at 0 and every runnable process at the highest level with
  tick 0.
\<close>

theorem boost_within_100_rounds:
  assumes "\<forall>k < 100. mlfq_round (\<sigma> k) (\<sigma> (Suc k))"
    and "0 \<le> total_ticks_MLFQ (\<sigma> 0)"
  shows "\<exists>k. 0 < k \<and> k \<le> 100 \<and> boosted (\<sigma> k)"
proof (rule ccontr)
  assume none: "\<not> ?thesis"
  have "total_ticks_MLFQ (\<sigma> k) = total_ticks_MLFQ (\<sigma> 0) + int k" if "k \<le> 100" for k
    using that
  proof (induction k)
    case 0
    then show ?case by simp
  next
    case (Suc k)
    then have IH: "total_ticks_MLFQ (\<sigma> k) = total_ticks_MLFQ (\<sigma> 0) + int k" by simp
    have "mlfq_round (\<sigma> k) (\<sigma> (Suc k))" using assms(1) Suc.prems by simp
    moreover have "\<not> boosted (\<sigma> (Suc k))" using none Suc.prems by blast
    ultimately show ?case
      using mlfq_round_cases [of "\<sigma> k" "\<sigma> (Suc k)"] IH assms(2) by simp
  qed
  from this [of 99] have "99 \<le> total_ticks_MLFQ (\<sigma> 99)" using assms(2) by simp
  moreover have "mlfq_round (\<sigma> 99) (\<sigma> (Suc 99))" by (rule assms(1) [rule_format, of 99]) simp
  ultimately have "boosted (\<sigma> (Suc 99))"
    using mlfq_round_cases [of "\<sigma> 99" "\<sigma> (Suc 99)"] by auto
  moreover have "Suc 99 = 100" by simp
  ultimately have "boosted (\<sigma> 100)" by (simp only:)
  moreover have "(0::nat) < 100" and "(100::nat) \<le> 100" by simp_all
  ultimately show False using none by blast
qed

text \<open>A run of one process that is always chosen, for the witness.\<close>

fun solo_run :: "nat \<Rightarrow> kbase" where
  "solo_run 0 = boot_kbase\<lparr>ptable := [zero_proc\<lparr>p_state := RUNNABLE, p_MLFQ_lv := HIGH\<rparr>]\<rparr>"
| "solo_run (Suc k) =
     (case scheduler_return MLFQ 0 ((solo_run k)\<lparr>held := [PtableLock]\<rparr>) of
        Ok _ t \<Rightarrow> t | _ \<Rightarrow> solo_run k)"

declare solo_run.simps(2) [simp del]

lemma solo_return:
  assumes "length (ptable s) = 1" and "CPU_share_Stride s = 0"
  shows "\<exists>t. scheduler_return MLFQ 0 (s\<lparr>held := [PtableLock]\<rparr>) = Ok () t
    \<and> length (ptable t) = 1 \<and> CPU_share_Stride t = 0"
  using assms
  by (simp add: scheduler_return_def init_MLFQ_state_def adjust_MLFQ_aged revaluate_PASS_def
      release_def Let_def)

lemma solo_run_shape: "length (ptable (solo_run k)) = 1 \<and> CPU_share_Stride (solo_run k) = 0"
proof (induction k)
  case 0
  then show ?case by (simp add: boot_kbase_def)
next
  case (Suc k)
  with solo_return [of "solo_run k"] show ?case by (auto simp: solo_run.simps(2))
qed

lemma solo_run_step:
  "scheduler_return MLFQ 0 ((solo_run k)\<lparr>held := [PtableLock]\<rparr>) = Ok () (solo_run (Suc k))"
  using solo_return [of "solo_run k"] solo_run_shape [of k] by (auto simp: solo_run.simps(2))

theorem boost_within_100_rounds_witness:
  "\<exists>k. 0 < k \<and> k \<le> 100 \<and> boosted (solo_run k)"
proof (rule boost_within_100_rounds)
  show "\<forall>k < 100. mlfq_round (solo_run k) (solo_run (Suc k))"
  proof (intro allI impI)
    fix k :: nat
    have "total_ticks_MLFQ ((solo_run k)\<lparr>held := [PtableLock]\<rparr>) = total_ticks_MLFQ (solo_run k)"
      by simp
    then show "mlfq_round (solo_run k) (solo_run (Suc k))"
      unfolding mlfq_round_def using solo_run_step [of k] solo_run_shape [of k]
      by (intro exI [where x = "(solo_run k)\<lparr>held := [PtableLock]\<rparr>"] exI [where x = 0]) simp
  qed
  show "0 \<le> total_ticks_MLFQ (solo_run 0)" by (simp add: boot_kbase_def)
qed

section \<open>Share of the two classes\<close>

lemma pass_increment:
  assumes "1 \<le> d" and "d \<le> 100"
  shows "0 \<le> cdiv 10000 d" and "cdiv 10000 d \<le> 10000"
  using assms zdiv_mono2 [of 10000 1 d] by (simp_all add: cdiv_pos pos_imp_zdiv_nonneg_iff)

lemma pass_increment_mlfq:
  assumes "20 \<le> d"
  shows "0 \<le> cdiv 10000 d \<and> cdiv 10000 d \<le> 500"
proof -
  have "10000 div d \<le> 10000 div 20"
    using assms by (intro zdiv_mono2) simp_all
  with assms show ?thesis by (simp add: cdiv_pos pos_imp_zdiv_nonneg_iff)
qed

lemma scheduler_pick_Ok:
  assumes "scheduler_pick s = Ok (mode, i) u"
  shows "mode = sche_mode s" and "PASS_MLFQ u = PASS_MLFQ s" and "PASS_Stride u = PASS_Stride s"
    and "CPU_share_Stride u = CPU_share_Stride s"
  using assms unfolding scheduler_pick_def switchuvm_def acquire_def Let_def
  by (auto simp: sche_mode_def split: if_splits)

lemma scheduler_return_pass:
  assumes "scheduler_return mode i s = Ok () t"
  shows "CPU_share_Stride t = CPU_share_Stride s" and
    "(PASS_MLFQ t, PASS_Stride t) =
      (if CPU_share_Stride s = 0 then (0, 0)
       else case mode of
         MLFQ \<Rightarrow> (PASS_MLFQ s + cdiv 10000 (100 - CPU_share_Stride s), PASS_Stride s)
       | Stride \<Rightarrow> (PASS_MLFQ s, PASS_Stride s + cdiv 10000 (CPU_share_Stride s)))"
proof -
  from assms obtain w v where w: "(case mode of
        MLFQ \<Rightarrow> Ok () (init_MLFQ_state (adjust_MLFQ_state i (switchkvm s)))
      | Stride \<Rightarrow> adjust_Stride_state i (switchkvm s)) = Ok () w"
    and v: "revaluate_PASS mode i w = Ok () v"
    and t: "t = v\<lparr>curproc := None, held := remove1 PtableLock (held v)\<rparr>"
    by (rule scheduler_return_Ok)
  have fr: "PASS_MLFQ w = PASS_MLFQ s" "PASS_Stride w = PASS_Stride s" "CPU_share_Stride w = CPU_share_Stride s"
    using w by (auto simp: init_MLFQ_state_def adjust_MLFQ_state_def adjust_Stride_state_def Let_def
        split: Proc_mode.splits if_splits)
  show "CPU_share_Stride t = CPU_share_Stride s"
    using v t fr by (auto simp: revaluate_PASS_def Let_def split: Proc_mode.splits if_splits)
  show "(PASS_MLFQ t, PASS_Stride t) =
      (if CPU_share_Stride s = 0 then (0, 0)
       else case mode of
         MLFQ \<Rightarrow> (PASS_MLFQ s + cdiv 10000 (100 - CPU_share_Stride s), PASS_Stride s)
       | Stride \<Rightarrow> (PASS_MLFQ s, PASS_Stride s + cdiv 10000 (CPU_share_Stride s)))"
    using v t fr by (auto simp: revaluate_PASS_def Let_def split: Proc_mode.splits if_splits)
qed

text \<open>
  One CPU and its processes. A state has the kernel state, the shares reserved and not given back, and
  the class and entry of the process that runs, if one does. While it runs, a process without a share
  may reserve one, a process that exits gives back the share it reserved, and whatever else happens
  leaves the passes and the reserved total alone.
\<close>

type_synonym pass_state = "kbase \<times> int list \<times> (Proc_mode \<times> nat) option"

inductive pass_step :: "pass_state \<Rightarrow> pass_state \<Rightarrow> bool" where
  pick: "scheduler_pick s = Ok (mode, i) u \<Longrightarrow> pass_step (s, rs, None) (u, rs, Some (mode, i))"
| reserve: "\<lbrakk>curproc s = Some j; p_proc_mode (the_proc s j) = MLFQ; set_cpu_share n s = Ok 0 t\<rbrakk>
    \<Longrightarrow> pass_step (s, rs, Some m) (t, n # rs, Some m)"
| leave: "\<lbrakk>p_proc_mode (the_proc s j) = Stride; p_CPU_SHARE (the_proc s j) \<in> set rs\<rbrakk>
    \<Longrightarrow> pass_step (s, rs, Some m) (release_share j s, remove1 (p_CPU_SHARE (the_proc s j)) rs, Some m)"
| other: "\<lbrakk>PASS_MLFQ t = PASS_MLFQ s; PASS_Stride t = PASS_Stride s; CPU_share_Stride t = CPU_share_Stride s\<rbrakk>
    \<Longrightarrow> pass_step (s, rs, r) (t, rs, r)"
| return: "scheduler_return mode i s = Ok () t \<Longrightarrow> pass_step (s, rs, Some (mode, i)) (t, rs, None)"

definition pass_boot :: "pass_state \<Rightarrow> bool" where
  "pass_boot x \<longleftrightarrow> (case x of (s, rs, r) \<Rightarrow>
     PASS_MLFQ s = 0 \<and> PASS_Stride s = 0 \<and> CPU_share_Stride s = 0 \<and> rs = [] \<and> r = None)"

definition shares_ok :: "kbase \<Rightarrow> int list \<Rightarrow> bool" where
  "shares_ok s rs \<longleftrightarrow> CPU_share_Stride s = sum_list rs \<and> sum_list rs \<le> 80 \<and> (\<forall>x \<in> set rs. 0 < x)"

definition pass_inv :: "pass_state \<Rightarrow> bool" where
  "pass_inv x \<longleftrightarrow> (case x of (s, rs, r) \<Rightarrow>
     shares_ok s rs \<and> PASS_MLFQ s \<le> PASS_Stride s + 500 \<and> PASS_Stride s \<le> PASS_MLFQ s + 10000 \<and>
     (case r of
        None \<Rightarrow> CPU_share_Stride s = 0 \<longrightarrow> PASS_MLFQ s = PASS_Stride s
      | Some (MLFQ, _) \<Rightarrow> PASS_MLFQ s \<le> PASS_Stride s
      | Some (Stride, _) \<Rightarrow> PASS_Stride s < PASS_MLFQ s))"

lemma sum_list_remove1: "x \<in> set xs \<Longrightarrow> sum_list (remove1 x xs) = sum_list xs - (x :: int)"
  by (induction xs) auto

lemma shares_ok_range: "shares_ok s rs \<Longrightarrow> 0 \<le> CPU_share_Stride s \<and> CPU_share_Stride s \<le> 80"
  using sum_list_nonneg [of rs] by (auto simp: shares_ok_def intro: less_imp_le)

lemma reserve_shares:
  assumes "shares_ok s rs" "curproc s = Some j" "p_proc_mode (the_proc s j) = MLFQ" "set_cpu_share n s = Ok 0 t"
  shows "shares_ok t (n # rs)" "PASS_MLFQ t = PASS_MLFQ s" "PASS_Stride t = PASS_Stride s"
  using assms by (auto simp: shares_ok_def set_cpu_share_def Let_def split: if_splits)

lemma leave_shares:
  assumes "shares_ok s rs" "p_proc_mode (the_proc s j) = Stride" "p_CPU_SHARE (the_proc s j) \<in> set rs"
  shows "shares_ok (release_share j s) (remove1 (p_CPU_SHARE (the_proc s j)) rs)"
    "PASS_MLFQ (release_share j s) = PASS_MLFQ s" "PASS_Stride (release_share j s) = PASS_Stride s"
  using assms set_remove1_subset [of "p_CPU_SHARE (the_proc s j)" rs]
  by (auto simp: shares_ok_def release_share_def sum_list_remove1)

lemma return_pass:
  assumes "pass_inv (s, rs, Some (mode, i))" and "scheduler_return mode i s = Ok () t"
  shows "pass_inv (t, rs, None)"
proof -
  note r = scheduler_return_pass [OF assms(2)]
  have sh: "shares_ok s rs" using assms(1) by (simp add: pass_inv_def)
  note range = shares_ok_range [OF sh]
  have "shares_ok t rs" using sh r(1) by (simp add: shares_ok_def)
  moreover have "PASS_MLFQ t \<le> PASS_Stride t + 500 \<and> PASS_Stride t \<le> PASS_MLFQ t + 10000"
  proof (cases "CPU_share_Stride s = 0")
    case False
    with range have p: "1 \<le> CPU_share_Stride s" "CPU_share_Stride s \<le> 100" "20 \<le> 100 - CPU_share_Stride s" by simp_all
    show ?thesis
      using assms(1) r(2) False pass_increment [OF p(1,2)] pass_increment_mlfq [OF p(3)]
      by (cases mode) (auto simp: pass_inv_def)
  qed (use r(2) in simp)
  ultimately show ?thesis using r by (auto simp: pass_inv_def)
qed

lemma pass_inv_step: "\<lbrakk>pass_inv x; pass_step x y\<rbrakk> \<Longrightarrow> pass_inv y"
proof (erule pass_step.cases, goal_cases)
  case (1 s mode i u rs)
  then show ?case using scheduler_pick_Ok [OF 1(4)]
    by (auto simp: pass_inv_def shares_ok_def sche_mode_def split: Proc_mode.splits if_splits)
next
  case (2 s j n t rs m)
  then have "shares_ok s rs" by (simp add: pass_inv_def)
  from reserve_shares [OF this 2(4-6)] 2(1-3) show ?case by (auto simp: pass_inv_def split: Proc_mode.splits)
next
  case (3 s j rs m)
  then have "shares_ok s rs" by (simp add: pass_inv_def)
  from leave_shares [OF this 3(4,5)] 3(1-3) show ?case by (auto simp: pass_inv_def split: Proc_mode.splits)
next
  case (4 t s rs r)
  then show ?case by (auto simp: pass_inv_def shares_ok_def split: option.splits Proc_mode.splits)
next
  case (5 mode i s t rs)
  then show ?case using return_pass by blast
qed

lemma pass_inv_boot: "pass_boot x \<Longrightarrow> pass_inv x"
  by (auto simp: pass_boot_def pass_inv_def shares_ok_def)

interpretation passes: invariant_machine pass_boot pass_step pass_inv
  by unfold_locales (fact pass_inv_boot, fact pass_inv_step)

text \<open>
  C25: on one CPU the passes of the two classes stay close and the reserved total stays between 0 and
  80, in every state that scheduler rounds and the processes' calls can reach from boot, if every
  process reserves a share once only and gives it back when it exits: the pass of the MLFQ class
  exceeds the stride class's by at most 500 and is below it by at most 10000.
\<close>

theorem pass_gap_bounded:
  assumes "reach pass_boot pass_step (s, rs, r)"
  shows "PASS_MLFQ s \<le> PASS_Stride s + 500 \<and> PASS_Stride s \<le> PASS_MLFQ s + 10000
    \<and> 0 \<le> CPU_share_Stride s \<and> CPU_share_Stride s \<le> 80"
  using passes.reach_inv [OF assms] shares_ok_range [of s rs] by (simp add: pass_inv_def)

lemmas round_eval = scheduler_pick_def scheduler_return_def sche_mode_def find_runnable_MLFQ_def
  find_runnable_Stride_def switchuvm_def switchkvm_def adjust_MLFQ_state_def init_MLFQ_state_def
  adjust_Stride_state_def upd_proc_def revaluate_PASS_def acquire_def release_def boot_kbase_def
  zero_proc_def Let_def

text \<open>A process reserves half of the CPU and is then preempted.\<close>

definition pass_demo :: kbase where
  "pass_demo = boot_kbase\<lparr>ptable := [zero_proc\<lparr>p_state := RUNNABLE, p_kstack := 1, p_pgdir := 1\<rparr>]\<rparr>"

theorem pass_gap_bounded_witness:
  "\<exists>u v t. scheduler_pick pass_demo = Ok (MLFQ, 0) u \<and> set_cpu_share 50 u = Ok 0 v \<and> scheduler_return MLFQ 0 v = Ok () t
     \<and> PASS_MLFQ t = 200 \<and> PASS_MLFQ t \<le> PASS_Stride t + 500 \<and> CPU_share_Stride t \<le> 80"
proof -
  obtain u where u: "scheduler_pick pass_demo = Ok (MLFQ, 0) u" "curproc u = Some 0" "length (ptable u) = 1"
      "p_proc_mode (the_proc u 0) = MLFQ" "CPU_share_Stride u = 0" "held u = [PtableLock]" "PASS_MLFQ u = 0" "total_ticks_MLFQ u = 0"
    by (simp add: pass_demo_def round_eval rr_skip_def cdiv_def less_MLFQ_level_def)
  obtain v where v: "set_cpu_share 50 u = Ok 0 v" "CPU_share_Stride v = 50" "held v = [PtableLock]" "length (ptable v) = 1"
      "PASS_MLFQ v = 0" "total_ticks_MLFQ v = 0"
    using u by (simp add: set_cpu_share_def Let_def in_int_def upd_proc_def)
  have len: "0 < length (ptable (switchkvm v))" using v(4) by simp
  obtain t where t: "scheduler_return MLFQ 0 v = Ok () t" "PASS_MLFQ t = 200"
    using v by (simp add: scheduler_return_def init_MLFQ_state_def adjust_MLFQ_aged [OF len]
        revaluate_PASS_def release_def Let_def cdiv_def)
  have "reach pass_boot pass_step (pass_demo, [], None)"
    by (rule reach_init) (simp add: pass_boot_def pass_demo_def boot_kbase_def)
  from reach_step [OF reach_step [OF reach_step [OF this pick [OF u(1)]] reserve [OF u(2,4) v(1)]] return [OF t(1)]]
  have "PASS_MLFQ t \<le> PASS_Stride t + 500 \<and> CPU_share_Stride t \<le> 80" using pass_gap_bounded by blast
  then show ?thesis using u(1) v(1) t by blast
qed

section \<open>Idle CPU\<close>

lemma find_runnable_Stride_none:
  assumes "\<forall>p \<in> set (ptable s). \<not> stride_runnable p"
  shows "find_runnable_Stride s = 0"
proof -
  have "stride_scan ps i rp m = rp" if "\<forall>p \<in> set ps. \<not> stride_runnable p" for ps i rp m
    using that by (induction ps arbitrary: i) (auto simp: stride_runnable_def)
  with assms show ?thesis by (simp add: find_runnable_Stride_def)
qed

lemma find_runnable_MLFQ_none:
  assumes "\<forall>p \<in> set (ptable s). mlfq_runnable p \<longrightarrow> p_MLFQ_lv p = LOW \<and> 1000 \<le> p_tick p"
  shows "find_runnable_MLFQ s = 0"
  unfolding find_runnable_MLFQ_def mlfq_scan_eq
proof (rule scan_max_default)
  fix p k
  assume "p \<in> set (ptable s)" and "mlfq_key p = Some k"
  with assms have "k = rank LOW (p_tick p)" and "1000 \<le> p_tick p"
    by (auto simp: mlfq_key_def split: if_splits)
  moreover from this have "cdiv 1000 4 \<le> cdiv (p_tick p) 4"
    using zdiv_mono1 [of 1000 "p_tick p" 4] by (simp add: cdiv_pos)
  ultimately show "k \<le> rank LOW 1000" by (simp add: rank_def)
qed

text \<open>
  C34: in stride mode with no runnable stride process the scheduler falls back to entry 0,
  marks it running whatever its state is, and when that process (whose share is 0) switches
  back, the kernel divides by zero.
\<close>

theorem stride_idle_divide_error:
  assumes "PtableLock \<notin> set (held s)" and "sche_mode s = Stride"
    and "\<forall>p \<in> set (ptable s). \<not> stride_runnable p" and "0 < length (ptable s)"
    and "p_kstack (ptable s ! 0) \<noteq> 0" and "p_pgdir (ptable s ! 0) \<noteq> 0"
    and "p_CPU_SHARE (ptable u' ! 0) = 0"
  shows "(\<exists>u. scheduler_pick s = Ok (Stride, 0) u \<and> p_state (ptable u ! 0) = RUNNING)
    \<and> scheduler_return Stride 0 u' = Fault DivideError"
proof
  have "sche_mode (s\<lparr>held := PtableLock # held s\<rparr>) = Stride"
    using assms(2) by (simp add: sche_mode_def split: if_splits)
  moreover have "find_runnable_Stride (s\<lparr>held := PtableLock # held s\<rparr>) = 0"
    using assms(3) by (intro find_runnable_Stride_none) simp
  ultimately show "\<exists>u. scheduler_pick s = Ok (Stride, 0) u \<and> p_state (ptable u ! 0) = RUNNING"
    using assms by (simp add: scheduler_pick_def acquire_Ok switchuvm_def Let_def)
  show "scheduler_return Stride 0 u' = Fault DivideError"
    using assms(7) by (simp add: scheduler_return_def adjust_Stride_state_def)
qed

theorem stride_idle_divide_error_witness:
  "(\<exists>u. scheduler_pick (boot_kbase\<lparr>CPU_share_Stride := 20, PASS_MLFQ := 125, ptable :=
        [zero_proc\<lparr>p_state := SLEEPING, p_kstack := 1, p_pgdir := 1\<rparr>,
         zero_proc\<lparr>p_state := SLEEPING, p_proc_mode := Stride, p_CPU_SHARE := 20\<rparr>]\<rparr>)
      = Ok (Stride, 0) u \<and> p_state (ptable u ! 0) = RUNNING)
   \<and> scheduler_return Stride 0 (boot_kbase\<lparr>ptable := [zero_proc]\<rparr>) = Fault DivideError"
  by (rule stride_idle_divide_error)
    (simp_all add: boot_kbase_def zero_proc_def sche_mode_def stride_runnable_def)

section \<open>Reserved CPU shares\<close>

definition share_of :: "proc \<Rightarrow> int" where
  "share_of p = (if p_proc_mode p = Stride then p_CPU_SHARE p else 0)"

definition share_sum :: "'a kbase_scheme \<Rightarrow> int" where
  "share_sum s = sum_list (map share_of (ptable s))"

definition share_inv :: "'a kbase_scheme \<Rightarrow> bool" where
  "share_inv s \<longleftrightarrow> CPU_share_Stride s = share_sum s \<and> CPU_share_Stride s \<le> 80
     \<and> (\<forall>p \<in> set (ptable s). p_proc_mode p = Stride \<longrightarrow> 0 < p_CPU_SHARE p)"

lemma sum_list_upd_int:
  "i < length xs \<Longrightarrow> sum_list (xs[i := y]) = sum_list xs + y - (xs ! i :: int)"
  by (induction xs arbitrary: i) (auto split: nat.splits)

lemma share_sum_upd:
  assumes "i < length (ptable s)"
  shows "share_sum (upd_proc i f s) = share_sum s + share_of (f (ptable s ! i)) - share_of (ptable s ! i)"
  using assms by (simp add: share_sum_def ptable_upd_proc map_update sum_list_upd_int)

lemma set_cpu_share_MLFQ_eq:
  assumes "curproc s = Some i" and "i < length (ptable s)" and "p_proc_mode (ptable s ! i) = MLFQ"
    and "0 < n" and "in_int (CPU_share_Stride s + n)"
  shows "set_cpu_share n s =
    (if CPU_share_Stride s + n > 80 then Ok (-1) s
     else Ok 0 ((upd_proc i (\<lambda>p. p\<lparr>p_CPU_SHARE := n, p_proc_mode := Stride,
            p_PASS := max_stride_proc_pass s\<rparr>) s)\<lparr>CPU_share_Stride := CPU_share_Stride s + n\<rparr>))"
  using assms by (simp add: set_cpu_share_def Let_def upd_proc_def)

lemma set_cpu_share_Stride_eq:
  assumes "curproc s = Some i" and "i < length (ptable s)" and "p_proc_mode (ptable s ! i) = Stride"
    and "0 < n" and "in_int (CPU_share_Stride s + n)"
  shows "set_cpu_share n s =
    (if CPU_share_Stride s + n - p_CPU_SHARE (ptable s ! i) > 80 then Ok (-1) s
     else Ok 0 (upd_proc i (\<lambda>p. p\<lparr>p_CPU_SHARE := n, p_PASS := max_stride_proc_pass s\<rparr>) s))"
  using assms by (simp add: set_cpu_share_def Let_def upd_proc_def)

text \<open>
  C27: a request of a process that is still in MLFQ mode is granted exactly when it is
  positive and the reserved total stays within 80, and keeps the reserved total equal to
  the sum of the stride processes' shares, at most 80.
\<close>

theorem set_cpu_share_reserves:
  assumes "share_inv s" and "curproc s = Some i" and "i < length (ptable s)"
    and "p_proc_mode (ptable s ! i) = MLFQ" and "in_int (CPU_share_Stride s + n)"
  shows "\<exists>r t. set_cpu_share n s = Ok r t \<and> share_inv t
    \<and> (r = 0 \<and> 0 < n \<and> CPU_share_Stride s + n \<le> 80 \<and> p_CPU_SHARE (ptable t ! i) = n
         \<and> p_proc_mode (ptable t ! i) = Stride
       \<or> r = -1 \<and> t = s \<and> (n \<le> 0 \<or> 80 < CPU_share_Stride s + n))"
proof (cases "0 < n \<and> CPU_share_Stride s + n \<le> 80")
  case False
  with assms show ?thesis
    using set_cpu_share_MLFQ_eq [OF assms(2-4) _ assms(5)]
    by (cases "0 < n") (auto simp: set_cpu_share_def)
next
  case True
  let ?f = "\<lambda>p. p\<lparr>p_CPU_SHARE := n, p_proc_mode := Stride, p_PASS := max_stride_proc_pass s\<rparr>"
  let ?t = "(upd_proc i ?f s)\<lparr>CPU_share_Stride := CPU_share_Stride s + n\<rparr>"
  have "set_cpu_share n s = Ok 0 ?t"
    using set_cpu_share_MLFQ_eq [OF assms(2-4) _ assms(5)] True by simp
  moreover have "share_sum ?t = share_sum s + n"
    using share_sum_upd [OF assms(3), of ?f] assms(4) by (simp add: share_of_def share_sum_def)
  moreover have "\<forall>p \<in> set (ptable (upd_proc i ?f s)). p_proc_mode p = Stride \<longrightarrow> 0 < p_CPU_SHARE p"
    using assms(1) True by (intro all_upd_proc) (auto simp: share_inv_def)
  ultimately show ?thesis
    using assms True by (auto simp: share_inv_def)
qed

theorem set_cpu_share_reserves_witness:
  "\<exists>t. set_cpu_share 30 (boot_kbase\<lparr>curproc := Some 0, ptable := [zero_proc]\<rparr>) = Ok 0 t
    \<and> share_inv t \<and> p_CPU_SHARE (ptable t ! 0) = 30"
  (is "\<exists>t. set_cpu_share 30 ?s = _ \<and> _")
proof -
  have "share_inv ?s" "curproc ?s = Some 0" "0 < length (ptable ?s)"
      "p_proc_mode (ptable ?s ! 0) = MLFQ" "in_int (CPU_share_Stride ?s + 30)"
    by (simp_all add: share_inv_def share_sum_def share_of_def boot_kbase_def zero_proc_def in_int_def)
  from set_cpu_share_reserves [OF this] show ?thesis by (auto simp: boot_kbase_def)
qed

text \<open>
  C37: a granted request of a process already in stride mode leaves the reserved total as it
  was, although the process's share changes: the source overwrites the old share before it
  subtracts it.
\<close>

theorem set_cpu_share_again_drifts:
  assumes "curproc s = Some i" and "i < length (ptable s)" and "p_proc_mode (ptable s ! i) = Stride"
    and "0 < n" and "in_int (CPU_share_Stride s + n)"
    and "CPU_share_Stride s + n - p_CPU_SHARE (ptable s ! i) \<le> 80"
  shows "\<exists>t. set_cpu_share n s = Ok 0 t \<and> CPU_share_Stride t = CPU_share_Stride s
    \<and> share_sum t = share_sum s + n - p_CPU_SHARE (ptable s ! i)"
  using set_cpu_share_Stride_eq [OF assms(1-5)] assms(6)
    share_sum_upd [OF assms(2), of "\<lambda>p. p\<lparr>p_CPU_SHARE := n, p_PASS := max_stride_proc_pass s\<rparr>"] assms(3)
  by (simp add: share_of_def)

theorem set_cpu_share_again_drifts_witness:
  "\<exists>t. set_cpu_share 80 (boot_kbase\<lparr>curproc := Some 0, CPU_share_Stride := 10,
        ptable := [zero_proc\<lparr>p_proc_mode := Stride, p_CPU_SHARE := 10\<rparr>]\<rparr>) = Ok 0 t
     \<and> CPU_share_Stride t = 10 \<and> share_sum t = 80"
  (is "\<exists>t. set_cpu_share 80 ?s = _ \<and> _")
proof -
  have "curproc ?s = Some 0" "0 < length (ptable ?s)" "p_proc_mode (ptable ?s ! 0) = Stride"
      "(0::int) < 80" "in_int (CPU_share_Stride ?s + 80)"
      "CPU_share_Stride ?s + 80 - p_CPU_SHARE (ptable ?s ! 0) \<le> 80"
    by (simp_all add: in_int_def)
  from set_cpu_share_again_drifts [OF this] show ?thesis
    by (simp add: share_sum_def share_of_def)
qed





end
