(* ===== verification/Sync.thy ===== *)
theory Sync
  imports Xv6_Prelude
begin

text \<open>
  The binary semaphore \<open>xem_t\<close>, the reader-writer lock \<open>rwlock_t\<close> (\<open>proc.c\<close>, \<open>types.h\<close>)
  and the guard of \<open>thread_safe_guard.c\<close> built on it, run by any number of threads that
  interleave at every shared access. A thread is at a program point of the call it is in;
  one step of it is one \<open>xchg\<close> or one access to \<open>readers\<close>, and a failed \<open>xchg\<close> leaves it at
  its point (it yields and tries again).
\<close>

section \<open>Semaphore\<close>

text \<open>\<open>xchg\<close>: the old value and the new content.\<close>

definition xchg :: "nat \<Rightarrow> nat \<Rightarrow> nat \<times> nat" where
  "xchg v new = (v, new)"

definition xem_init :: "nat" where
  "xem_init = 1"

text \<open>One iteration of the loops of \<open>xem_wait\<close> and \<open>xem_unlock\<close>: has it returned?\<close>

definition xem_wait :: "nat \<Rightarrow> bool \<times> nat" where
  "xem_wait v = (let (old, v') = xchg v 0 in (old = 1, v'))"

definition xem_unlock :: "nat \<Rightarrow> bool \<times> nat" where
  "xem_unlock v = (let (old, v') = xchg v 1 in (old = 0, v'))"

section \<open>Reader-writer lock\<close>

record rwlock =
  rw_lock :: nat
  rw_writelock :: nat
  rw_readers :: int

definition rwlock_init :: rwlock where
  "rwlock_init = \<lparr>rw_lock = xem_init, rw_writelock = xem_init, rw_readers = 0\<rparr>"

text \<open>
  Program points. \<open>Idle\<close>: outside every call. \<open>AR1\<close> to \<open>AR4\<close>:
  \<open>rwlock_acquire_readlock\<close> before waiting for \<open>lock\<close>, before \<open>readers++\<close>, before the test
  and the wait for \<open>writelock\<close>, before unlocking \<open>lock\<close>. \<open>Reading\<close>: between acquire and
  release. \<open>RR1\<close> to \<open>RR4\<close>: \<open>rwlock_release_readlock\<close> likewise. \<open>AW\<close>, \<open>Writing\<close>, \<open>RW\<close>: the
  write side.
\<close>

datatype rwpc = Idle | AR1 | AR2 | AR3 | AR4 | Reading | RR1 | RR2 | RR3 | RR4 | AW | Writing | RW

definition wait_on :: "nat \<Rightarrow> rwpc \<Rightarrow> rwpc \<Rightarrow> rwpc \<times> nat" where
  "wait_on v stay go = (let (ok, v') = xem_wait v in (if ok then go else stay, v'))"

definition unlock_on :: "nat \<Rightarrow> rwpc \<Rightarrow> rwpc \<Rightarrow> rwpc \<times> nat" where
  "unlock_on v stay go = (let (ok, v') = xem_unlock v in (if ok then go else stay, v'))"

fun acquire_readlock_step :: "rwpc \<Rightarrow> rwlock \<Rightarrow> rwpc \<times> rwlock" where
  "acquire_readlock_step AR1 rw =
     (let (pc, v) = wait_on (rw_lock rw) AR1 AR2 in (pc, rw\<lparr>rw_lock := v\<rparr>))"
| "acquire_readlock_step AR2 rw = (AR3, rw\<lparr>rw_readers := rw_readers rw + 1\<rparr>)"
| "acquire_readlock_step AR3 rw =
     (if rw_readers rw = 1
      then let (pc, v) = wait_on (rw_writelock rw) AR3 AR4 in (pc, rw\<lparr>rw_writelock := v\<rparr>)
      else (AR4, rw))"
| "acquire_readlock_step AR4 rw =
     (let (pc, v) = unlock_on (rw_lock rw) AR4 Reading in (pc, rw\<lparr>rw_lock := v\<rparr>))"
| "acquire_readlock_step pc rw = (pc, rw)"

fun release_readlock_step :: "rwpc \<Rightarrow> rwlock \<Rightarrow> rwpc \<times> rwlock" where
  "release_readlock_step RR1 rw =
     (let (pc, v) = wait_on (rw_lock rw) RR1 RR2 in (pc, rw\<lparr>rw_lock := v\<rparr>))"
| "release_readlock_step RR2 rw = (RR3, rw\<lparr>rw_readers := rw_readers rw - 1\<rparr>)"
| "release_readlock_step RR3 rw =
     (if rw_readers rw = 0
      then let (pc, v) = unlock_on (rw_writelock rw) RR3 RR4 in (pc, rw\<lparr>rw_writelock := v\<rparr>)
      else (RR4, rw))"
| "release_readlock_step RR4 rw =
     (let (pc, v) = unlock_on (rw_lock rw) RR4 Idle in (pc, rw\<lparr>rw_lock := v\<rparr>))"
| "release_readlock_step pc rw = (pc, rw)"

definition acquire_writelock_step :: "rwpc \<Rightarrow> rwlock \<Rightarrow> rwpc \<times> rwlock" where
  "acquire_writelock_step pc rw =
     (let (pc, v) = wait_on (rw_writelock rw) AW Writing in (pc, rw\<lparr>rw_writelock := v\<rparr>))"

definition release_writelock_step :: "rwpc \<Rightarrow> rwlock \<Rightarrow> rwpc \<times> rwlock" where
  "release_writelock_step pc rw =
     (let (pc, v) = unlock_on (rw_writelock rw) RW Idle in (pc, rw\<lparr>rw_writelock := v\<rparr>))"

text \<open>
  Clients: \<open>thread_safe_pread\<close> and \<open>thread_safe_pwrite\<close> are the only users of the guard's
  lock, so a thread goes from \<open>Idle\<close> into an acquire call, does its \<open>pread\<close> or \<open>pwrite\<close> at
  \<open>Reading\<close> or \<open>Writing\<close>, and then calls the matching release.
\<close>

definition rw_step :: "rwpc \<Rightarrow> rwlock \<Rightarrow> rwpc \<times> rwlock" where
  "rw_step pc rw =
     (if pc \<in> {AR1, AR2, AR3, AR4} then acquire_readlock_step pc rw
      else if pc \<in> {RR1, RR2, RR3, RR4} then release_readlock_step pc rw
      else if pc = AW then acquire_writelock_step pc rw
      else if pc = RW then release_writelock_step pc rw
      else (pc, rw))"

type_synonym rwsys = "rwpc list \<times> rwlock"

inductive guard_step :: "rwsys \<Rightarrow> rwsys \<Rightarrow> bool" where
  call_pread: "i < length pcs \<Longrightarrow> pcs ! i = Idle \<Longrightarrow> guard_step (pcs, rw) (pcs[i := AR1], rw)"
| call_pwrite: "i < length pcs \<Longrightarrow> pcs ! i = Idle \<Longrightarrow> guard_step (pcs, rw) (pcs[i := AW], rw)"
| pread_done: "i < length pcs \<Longrightarrow> pcs ! i = Reading \<Longrightarrow> guard_step (pcs, rw) (pcs[i := RR1], rw)"
| pwrite_done: "i < length pcs \<Longrightarrow> pcs ! i = Writing \<Longrightarrow> guard_step (pcs, rw) (pcs[i := RW], rw)"
| thread_moves: "i < length pcs \<Longrightarrow> rw_step (pcs ! i) rw = (pc', rw') \<Longrightarrow>
     guard_step (pcs, rw) (pcs[i := pc'], rw')"

definition guard_init :: "rwsys \<Rightarrow> bool" where
  "guard_init s \<longleftrightarrow> set (fst s) \<subseteq> {Idle} \<and> snd s = rwlock_init"

inductive_cases guard_stepE: "guard_step (pcs, rw) t"

section \<open>Counting threads\<close>

definition cnt :: "(rwpc \<Rightarrow> bool) \<Rightarrow> rwpc list \<Rightarrow> int" where
  "cnt P pcs = int (length (filter P pcs))"

definition in_lock :: "rwpc \<Rightarrow> bool" where
  "in_lock pc \<longleftrightarrow> pc \<in> {AR2, AR3, AR4, RR2, RR3, RR4}"

definition counted :: "rwpc \<Rightarrow> bool" where
  "counted pc \<longleftrightarrow> pc \<in> {AR3, AR4, Reading, RR1, RR2}"

definition is_writer :: "rwpc \<Rightarrow> bool" where
  "is_writer pc \<longleftrightarrow> pc \<in> {Writing, RW}"

lemma cnt_upd:
  assumes "i < length pcs"
  shows "cnt P (pcs[i := x]) = cnt P pcs - (if P (pcs ! i) then 1 else 0) + (if P x then 1 else 0)"
  using assms
proof (induction pcs arbitrary: i)
  case Nil
  then show ?case by simp
next
  case (Cons y ys)
  show ?case
  proof (cases i)
    case 0
    then show ?thesis by (simp add: cnt_def)
  next
    case (Suc j)
    with Cons.prems Cons.IH [of j] show ?thesis by (cases "P y") (simp_all add: cnt_def)
  qed
qed

lemma cnt_nonneg: "0 \<le> cnt P pcs"
  by (simp add: cnt_def)

lemma cnt_pos_iff: "0 < cnt P pcs \<longleftrightarrow> (\<exists>x \<in> set pcs. P x)"
  by (auto simp: cnt_def filter_empty_conv)

lemma cnt_zero_iff: "cnt P pcs = 0 \<longleftrightarrow> (\<forall>x \<in> set pcs. \<not> P x)"
  by (auto simp: cnt_def filter_empty_conv)

lemma cnt_one_unique:
  assumes "cnt P pcs \<le> 1" and "i < length pcs" and "j < length pcs" and "P (pcs ! i)" and "P (pcs ! j)"
  shows "i = j"
proof (rule ccontr)
  assume "i \<noteq> j"
  show False
  proof (cases "\<forall>y. P y")
    case True
    then have "cnt P pcs = int (length pcs)" by (simp add: cnt_def)
    with assms \<open>i \<noteq> j\<close> show False by linarith
  next
    case False
    then obtain x where "\<not> P x" by blast
    with cnt_upd [OF assms(2), of P x] assms(1,4) have "cnt P (pcs[i := x]) = 0"
      using cnt_nonneg [of P "pcs[i := x]"] by simp
    moreover have "pcs[i := x] ! j = pcs ! j" using \<open>i \<noteq> j\<close> by simp
    ultimately show False
      using assms(3,5) by (metis cnt_zero_iff length_list_update nth_mem)
  qed
qed

lemma cnt_disj_le:
  assumes "\<And>x. P x \<Longrightarrow> R x" and "\<And>x. Q x \<Longrightarrow> R x" and "\<And>x. P x \<Longrightarrow> \<not> Q x"
  shows "cnt P pcs + cnt Q pcs \<le> cnt R pcs"
  by (induction pcs) (use assms in \<open>auto simp: cnt_def\<close>)

lemma cnt_member: "i < length pcs \<Longrightarrow> P (pcs ! i) \<Longrightarrow> 1 \<le> cnt P pcs"
  using cnt_pos_iff [of P pcs] nth_mem by fastforce

section \<open>Invariant\<close>

text \<open>
  Do the readers, as a group, hold \<open>writelock\<close>? They do while \<open>readers\<close> is positive, except
  that the first reader has not got it yet at \<open>AR3\<close>; and the last one still holds it at
  \<open>RR3\<close>.
\<close>

definition group_holds :: "rwpc list \<Rightarrow> int \<Rightarrow> int" where
  "group_holds pcs n =
     (if n \<ge> 1 then if n = 1 \<and> cnt ((=) AR3) pcs = 1 then 0 else 1
      else if cnt ((=) RR3) pcs = 1 then 1 else 0)"

fun rw_inv :: "rwsys \<Rightarrow> bool" where
  "rw_inv (pcs, rw) \<longleftrightarrow>
     int (rw_lock rw) = 1 - cnt in_lock pcs
     \<and> rw_readers rw = cnt counted pcs
     \<and> int (rw_writelock rw) = 1 - cnt is_writer pcs - group_holds pcs (rw_readers rw)"

lemma rw_inv_facts:
  "cnt ((=) AR3) pcs + cnt ((=) RR3) pcs \<le> cnt in_lock pcs"
  "cnt ((=) AR3) pcs + cnt ((=) Reading) pcs \<le> cnt counted pcs"
  by (rule cnt_disj_le; auto simp: in_lock_def counted_def)+

lemma group_holds_01: "group_holds pcs n = 0 \<or> group_holds pcs n = 1"
  by (simp add: group_holds_def)

lemma rw_inv_binary:
  assumes "rw_inv (pcs, rw)"
  shows "rw_lock rw = 0 \<or> rw_lock rw = 1" and "rw_writelock rw = 0 \<or> rw_writelock rw = 1"
proof -
  have "int (rw_lock rw) \<le> 1" and "int (rw_writelock rw) \<le> 1"
    using assms cnt_nonneg [of in_lock pcs] cnt_nonneg [of is_writer pcs]
      group_holds_01 [of pcs "rw_readers rw"] by auto
  then show "rw_lock rw = 0 \<or> rw_lock rw = 1" and "rw_writelock rw = 0 \<or> rw_writelock rw = 1"
    by auto
qed

lemmas rw_step_eval = rw_step_def wait_on_def unlock_on_def xem_wait_def xem_unlock_def xchg_def
  acquire_writelock_step_def release_writelock_step_def

lemma group_holds_upd:
  assumes "i < length pcs" and "pcs ! i \<notin> {AR3, RR3}" and "pc' \<notin> {AR3, RR3}"
  shows "group_holds (pcs[i := pc']) n = group_holds pcs n"
  using assms by (auto simp: group_holds_def cnt_upd)

lemma rw_inv_idle_step:
  assumes "rw_inv (pcs, rw)" and "i < length pcs"
    and "(pcs ! i, pc') \<in> {(Idle, AR1), (Idle, AW), (Reading, RR1), (Writing, RW)}"
  shows "rw_inv (pcs[i := pc'], rw)"
proof -
  have "group_holds (pcs[i := pc']) n = group_holds pcs n" for n
    using assms(3) by (intro group_holds_upd [OF assms(2)]) auto
  moreover have "in_lock (pcs ! i) = in_lock pc'" "counted (pcs ! i) = counted pc'"
      "is_writer (pcs ! i) = is_writer pc'"
    using assms(3) by (auto simp: in_lock_def counted_def is_writer_def)
  ultimately show ?thesis using assms(1,2) by (simp add: cnt_upd)
qed

lemma lone_holder:
  assumes "rw_inv (pcs, rw)" and "i < length pcs" and "in_lock (pcs ! i)" and "in_lock pc"
  shows "cnt ((=) pc) pcs = (if pcs ! i = pc then 1 else 0)" and "cnt in_lock pcs = 1" and "rw_lock rw = 0"
proof -
  have one: "cnt in_lock pcs = 1 \<and> rw_lock rw = 0"
    using assms(1) cnt_member [OF assms(2), of in_lock] assms(3) by auto
  then show "cnt in_lock pcs = 1" and "rw_lock rw = 0" by simp_all
  have "cnt ((=) pc) pcs + cnt ((=) (pcs ! i)) pcs \<le> 1" if "pcs ! i \<noteq> pc"
    using cnt_disj_le [of "(=) pc" in_lock "(=) (pcs ! i)" pcs] that assms(3,4) one by auto
  moreover have "cnt ((=) pc) pcs + cnt (\<lambda>_. False) pcs \<le> 1"
    using cnt_disj_le [of "(=) pc" in_lock "\<lambda>_. False" pcs] assms(4) one by auto
  ultimately show "cnt ((=) pc) pcs = (if pcs ! i = pc then 1 else 0)"
    using cnt_member [OF assms(2), of "(=) (pcs ! i)"] cnt_nonneg [of "(=) pc" pcs]
      cnt_nonneg [of "\<lambda>_. False" pcs] by auto
qed

lemma rw_step_simps:
  "rw_step Idle rw = (Idle, rw)"
  "rw_step AR1 rw = (if rw_lock rw = 1 then AR2 else AR1, rw\<lparr>rw_lock := 0\<rparr>)"
  "rw_step AR2 rw = (AR3, rw\<lparr>rw_readers := rw_readers rw + 1\<rparr>)"
  "rw_step AR3 rw = (if rw_readers rw = 1
     then (if rw_writelock rw = 1 then AR4 else AR3, rw\<lparr>rw_writelock := 0\<rparr>) else (AR4, rw))"
  "rw_step AR4 rw = (if rw_lock rw = 0 then Reading else AR4, rw\<lparr>rw_lock := 1\<rparr>)"
  "rw_step Reading rw = (Reading, rw)"
  "rw_step RR1 rw = (if rw_lock rw = 1 then RR2 else RR1, rw\<lparr>rw_lock := 0\<rparr>)"
  "rw_step RR2 rw = (RR3, rw\<lparr>rw_readers := rw_readers rw - 1\<rparr>)"
  "rw_step RR3 rw = (if rw_readers rw = 0
     then (if rw_writelock rw = 0 then RR4 else RR3, rw\<lparr>rw_writelock := 1\<rparr>) else (RR4, rw))"
  "rw_step RR4 rw = (if rw_lock rw = 0 then Idle else RR4, rw\<lparr>rw_lock := 1\<rparr>)"
  "rw_step AW rw = (if rw_writelock rw = 1 then Writing else AW, rw\<lparr>rw_writelock := 0\<rparr>)"
  "rw_step Writing rw = (Writing, rw)"
  "rw_step RW rw = (if rw_writelock rw = 0 then Idle else RW, rw\<lparr>rw_writelock := 1\<rparr>)"
  by (simp_all add: rw_step_eval)

lemmas pc_class = in_lock_def counted_def is_writer_def

lemma rw_inv_moves_in_lock:
  assumes inv: "rw_inv (pcs, rw)" and i: "i < length pcs" and il: "in_lock (pcs ! i)"
  shows "case rw_step (pcs ! i) rw of (pc', rw') \<Rightarrow> rw_inv (pcs[i := pc'], rw')"
proof -
  note upd = cnt_upd [OF i]
  note b = rw_inv_binary [OF inv]
  have l: "cnt ((=) AR3) pcs = (if pcs ! i = AR3 then 1 else 0)"
      "cnt ((=) RR3) pcs = (if pcs ! i = RR3 then 1 else 0)"
      "cnt in_lock pcs = 1" "rw_lock rw = 0"
    using lone_holder [OF inv i il, of AR3] lone_holder [OF inv i il, of RR3]
    by (simp_all add: in_lock_def)
  have w: "int (rw_writelock rw) = 1 - cnt is_writer pcs - group_holds pcs (rw_readers rw)"
    and r: "rw_readers rw = cnt counted pcs" and n: "0 \<le> cnt is_writer pcs" "0 \<le> cnt counted pcs"
    using inv cnt_nonneg by auto
  have m: "counted (pcs ! i) \<Longrightarrow> 1 \<le> cnt counted pcs"
    by (rule cnt_member [OF i])
  consider "pcs ! i = AR2" | "pcs ! i = AR3" | "pcs ! i = AR4" | "pcs ! i = RR2"
    | "pcs ! i = RR3" | "pcs ! i = RR4"
    using il by (auto simp: in_lock_def)
  then show ?thesis
  proof cases
    case 1
    then show ?thesis using l w r n by (simp add: rw_step_simps upd pc_class group_holds_def)
  next
    case 2
    then show ?thesis using l w r n m b by (auto simp: rw_step_simps upd pc_class group_holds_def)
  next
    case 3
    then show ?thesis using l w r n m by (simp add: rw_step_simps upd pc_class group_holds_def)
  next
    case 4
    then show ?thesis using l w r n m by (auto simp: rw_step_simps upd pc_class group_holds_def)
  next
    case 5
    then show ?thesis using l w r n b by (auto simp: rw_step_simps upd pc_class group_holds_def)
  next
    case 6
    then show ?thesis using l w r n by (simp add: rw_step_simps upd pc_class group_holds_def)
  qed
qed

lemma rw_inv_moves_outside:
  assumes inv: "rw_inv (pcs, rw)" and i: "i < length pcs" and il: "\<not> in_lock (pcs ! i)"
  shows "case rw_step (pcs ! i) rw of (pc', rw') \<Rightarrow> rw_inv (pcs[i := pc'], rw')"
proof -
  note upd = cnt_upd [OF i]
  note b = rw_inv_binary [OF inv]
  have l: "int (rw_lock rw) = 1 - cnt in_lock pcs" and r: "rw_readers rw = cnt counted pcs"
    and w: "int (rw_writelock rw) = 1 - cnt is_writer pcs - group_holds pcs (rw_readers rw)"
    using inv by auto
  have m: "is_writer (pcs ! i) \<Longrightarrow> 1 \<le> cnt is_writer pcs"
    by (rule cnt_member [OF i])
  have n: "0 \<le> group_holds pcs (rw_readers rw)"
    using group_holds_01 [of pcs "rw_readers rw"] by auto
  have g: "group_holds (pcs[i := pc']) k = group_holds pcs k"
    if "pc' \<notin> {AR3, RR3}" for pc' k
    using il that by (intro group_holds_upd [OF i]) (auto simp: in_lock_def)
  show ?thesis
    using il l r w b m n
    by (cases "pcs ! i") (auto simp: rw_step_simps upd g pc_class)
qed

lemma rw_inv_moves:
  assumes "rw_inv (pcs, rw)" and "i < length pcs" and "rw_step (pcs ! i) rw = (pc', rw')"
  shows "rw_inv (pcs[i := pc'], rw')"
  using rw_inv_moves_in_lock [OF assms(1,2)] rw_inv_moves_outside [OF assms(1,2)] assms(3)
  by (cases "in_lock (pcs ! i)") auto

lemma rw_inv_init: "guard_init s \<Longrightarrow> rw_inv s"
proof -
  assume s: "guard_init s"
  have "cnt P (fst s) = 0" if "\<not> P Idle" for P
    using s that by (auto simp: guard_init_def cnt_zero_iff)
  with s show "rw_inv s"
    by (cases s) (simp add: guard_init_def rwlock_init_def xem_init_def pc_class group_holds_def)
qed

lemma rw_inv_guard_step: "guard_step s t \<Longrightarrow> rw_inv s \<Longrightarrow> rw_inv t"
  by (induction rule: guard_step.induct) (blast intro: rw_inv_idle_step rw_inv_moves)+

interpretation guard: invariant_machine guard_init guard_step rw_inv
  by unfold_locales (auto intro: rw_inv_init rw_inv_guard_step)

section \<open>Exclusion and progress\<close>

lemma rw_inv_writer_excludes:
  assumes "rw_inv (pcs, rw)" and "i < length pcs" and "j < length pcs" and "i \<noteq> j"
    and "pcs ! i = Writing"
  shows "pcs ! j \<notin> {Reading, RR1, Writing}"
proof -
  have w: "1 \<le> cnt is_writer pcs" "cnt is_writer pcs \<le> 1" and g: "group_holds pcs (cnt counted pcs) = 0"
    using assms(1,5) cnt_member [OF assms(2), of is_writer] group_holds_01 [of pcs "cnt counted pcs"]
    by (auto simp: is_writer_def)
  have "\<not> is_writer (pcs ! j)"
    using cnt_one_unique [OF w(2) assms(2,3)] assms(4,5) by (auto simp: is_writer_def)
  moreover have "pcs ! j \<notin> {Reading, RR1}"
  proof
    assume r: "pcs ! j \<in> {Reading, RR1}"
    have "cnt ((=) AR3) pcs + cnt ((=) (pcs ! j)) pcs \<le> cnt counted pcs"
      using r by (intro cnt_disj_le) (auto simp: counted_def)
    with g r cnt_member [OF assms(3), of "(=) (pcs ! j)"] cnt_nonneg [of "(=) AR3" pcs] show False
      by (auto simp: group_holds_def split: if_splits)
  qed
  ultimately show ?thesis by (auto simp: is_writer_def)
qed

text \<open>A thread that can leave its program point: it is inside its \<open>pread\<close> or \<open>pwrite\<close>, or
  its next access succeeds.\<close>

definition can_move :: "rwpc \<Rightarrow> rwlock \<Rightarrow> bool" where
  "can_move pc rw \<longleftrightarrow> pc \<in> {Reading, Writing} \<or> fst (rw_step pc rw) \<noteq> pc"

lemma cnt_obtain:
  assumes "0 < cnt P pcs"
  obtains i where "i < length pcs" "P (pcs ! i)"
  using assms by (auto simp: cnt_pos_iff in_set_conv_nth)

lemma writer_moves:
  assumes "rw_inv (pcs, rw)" and "0 < cnt is_writer pcs"
  shows "\<exists>j < length pcs. can_move (pcs ! j) rw"
proof -
  obtain j where j: "j < length pcs" "is_writer (pcs ! j)" using assms(2) by (rule cnt_obtain)
  have "rw_writelock rw = 0"
    using assms group_holds_01 [of pcs "rw_readers rw"] by auto
  with j show ?thesis by (auto simp: is_writer_def can_move_def rw_step_simps)
qed

lemma lock_holder_moves:
  assumes inv: "rw_inv (pcs, rw)" and "0 < cnt in_lock pcs"
  shows "\<exists>j < length pcs. can_move (pcs ! j) rw"
proof -
  obtain j where j: "j < length pcs" "in_lock (pcs ! j)" using assms(2) by (rule cnt_obtain)
  note l = lone_holder [OF inv j(1,2)]
  have w: "int (rw_writelock rw) = 1 - cnt is_writer pcs - group_holds pcs (rw_readers rw)"
    using inv by simp
  show ?thesis
  proof (cases "0 < cnt is_writer pcs")
    case True
    then show ?thesis by (rule writer_moves [OF inv])
  next
    case False
    then have w0: "cnt is_writer pcs = 0" using cnt_nonneg [of is_writer pcs] by linarith
    have "can_move (pcs ! j) rw"
    proof (cases "pcs ! j")
      case AR3
      with w w0 l(1) [of AR3] show ?thesis
        by (auto simp: can_move_def rw_step_simps in_lock_def group_holds_def split: if_splits)
    next
      case RR3
      with w w0 l(1) [of RR3] show ?thesis
        by (auto simp: can_move_def rw_step_simps in_lock_def group_holds_def split: if_splits)
    qed (use j(2) l(3) [of AR2] in \<open>auto simp: can_move_def rw_step_simps in_lock_def\<close>)
    with j(1) show ?thesis by blast
  qed
qed

lemma rw_inv_progress:
  assumes inv: "rw_inv (pcs, rw)" and "i < length pcs" and "pcs ! i \<noteq> Idle"
  shows "\<exists>j < length pcs. can_move (pcs ! j) rw"
proof (cases "0 < cnt is_writer pcs \<or> 0 < cnt in_lock pcs")
  case True
  then show ?thesis using writer_moves [OF inv] lock_holder_moves [OF inv] by blast
next
  case False
  then have free: "cnt is_writer pcs = 0" "cnt in_lock pcs = 0"
    using cnt_nonneg [of is_writer pcs] cnt_nonneg [of in_lock pcs] by linarith+
  have l: "rw_lock rw = 1" using inv free by simp
  have nl: "\<And>j. j < length pcs \<Longrightarrow> \<not> in_lock (pcs ! j)" using free(2) by (simp add: cnt_zero_iff)
  have grp: ?thesis if c: "0 < cnt counted pcs"
  proof -
    obtain j where j: "j < length pcs" "counted (pcs ! j)" using c by (rule cnt_obtain)
    with nl [OF j(1)] l have "can_move (pcs ! j) rw"
      by (auto simp: counted_def in_lock_def can_move_def rw_step_simps)
    with j(1) show ?thesis by blast
  qed
  have "can_move (pcs ! i) rw" if "\<not> 0 < cnt counted pcs"
  proof -
    have "cnt ((=) RR3) pcs = 0" using nl by (auto simp: cnt_zero_iff in_set_conv_nth in_lock_def)
    then have "rw_writelock rw = 1" using inv free that by (auto simp: group_holds_def)
    moreover have "\<not> is_writer (pcs ! i)" "\<not> counted (pcs ! i)"
      using cnt_member [OF assms(2), of is_writer] cnt_member [OF assms(2), of counted] free that by auto
    ultimately show ?thesis using assms(3) nl [OF assms(2)] l
      by (cases "pcs ! i") (auto simp: can_move_def rw_step_simps pc_class)
  qed
  with grp assms(2) show ?thesis by blast
qed

section \<open>Properties\<close>

text \<open>C3: in every state that threads running \<open>thread_safe_pread\<close> and \<open>thread_safe_pwrite\<close> on one
  guard can reach, under every interleaving of their accesses to the lock, a thread inside
  its \<open>pwrite\<close> is alone: no other thread is inside its \<open>pread\<close> or \<open>pwrite\<close>.\<close>

theorem guard_writer_alone:
  assumes "reach guard_init guard_step (pcs, rw)" and "i < length pcs" and "j < length pcs"
    and "i \<noteq> j" and "pcs ! i = Writing"
  shows "pcs ! j \<noteq> Reading \<and> pcs ! j \<noteq> Writing"
  using rw_inv_writer_excludes [OF guard.reach_inv [OF assms(1)] assms(2-5)] by simp

lemma reach_writing:
  "reach guard_init guard_step ([Writing, AR1], \<lparr>rw_lock = 1, rw_writelock = 0, rw_readers = 0\<rparr>)"
proof -
  let ?rw = "rwlock_init"
  have "reach guard_init guard_step ([Idle, Idle], ?rw)"
    by (rule reach.intros) (simp add: guard_init_def)
  then have "reach guard_init guard_step ([AW, Idle], ?rw)"
    using call_pwrite [of 0 "[Idle, Idle]" ?rw] by (auto intro: reach.intros)
  then have "reach guard_init guard_step ([AW, AR1], ?rw)"
    using call_pread [of 1 "[AW, Idle]" ?rw] by (auto intro: reach.intros)
  then show ?thesis
    using thread_moves [of 0 "[AW, AR1]" ?rw Writing "?rw\<lparr>rw_writelock := 0\<rparr>"]
    by (auto intro: reach.intros simp: rw_step_simps rwlock_init_def xem_init_def)
qed

theorem guard_writer_alone_witness:
  "[Writing, AR1] ! 1 \<noteq> Reading \<and> [Writing, AR1] ! 1 \<noteq> Writing"
  by (rule guard_writer_alone [OF reach_writing, of 0 1]) simp_all

text \<open>C28: the guard never deadlocks: in every reachable state in which some thread is inside a
  call of \<open>thread_safe_pread\<close> or \<open>thread_safe_pwrite\<close>, at least one such thread can leave its
  program point (it is inside its transfer, or its next access to the lock succeeds).\<close>

theorem guard_no_deadlock:
  assumes "reach guard_init guard_step (pcs, rw)" and "i < length pcs" and "pcs ! i \<noteq> Idle"
  shows "\<exists>j < length pcs. can_move (pcs ! j) rw"
  by (rule rw_inv_progress [OF guard.reach_inv [OF assms(1)] assms(2,3)])

theorem guard_no_deadlock_witness:
  "\<exists>j < length [Writing, AR1].
     can_move ([Writing, AR1] ! j) \<lparr>rw_lock = 1, rw_writelock = 0, rw_readers = 0\<rparr>"
  by (rule guard_no_deadlock [OF reach_writing, of 1]) simp_all

end
