(* ===== verification/Sleeplock.thy ===== *)
theory Sleeplock
  imports Proc_Base
begin

text \<open>
  Sleep locks (\<open>sleeplock.c\<close>). A lock lives inside a buffer or an inode, so the operations
  are given the way to read it and to change it, and the channel that stands for its address.
\<close>

record sleeplock =
  sl_locked :: bool
  sl_pid :: int

definition initsleeplock :: sleeplock where
  "initsleeplock = \<lparr>sl_locked = False, sl_pid = 0\<rparr>"

text \<open>
  \<open>acquiresleep\<close> from its test on, with the inner spin lock held: it sleeps while the lock is
  taken. \<open>acquiresleep_resume\<close> is what a woken process does: it tests again.
\<close>

definition acquiresleep_test ::
    "chan \<Rightarrow> ('a kbase_scheme \<Rightarrow> sleeplock) \<Rightarrow> (sleeplock \<Rightarrow> 'a kbase_scheme \<Rightarrow> 'a kbase_scheme)
      \<Rightarrow> 'a kbase_scheme \<Rightarrow> (unit, 'a kbase_scheme) kres" where
  "acquiresleep_test ch lk set_lk s =
     (if sl_locked (lk s) then sleep ch (SleepLk ch) s
      else case curproc s of
        None \<Rightarrow> Fault (Undefined ''acquiresleep without a process'')
      | Some p \<Rightarrow> release (SleepLk ch) (set_lk \<lparr>sl_locked = True, sl_pid = p_pid (the_proc s p)\<rparr> s))"

definition acquiresleep ::
    "chan \<Rightarrow> ('a kbase_scheme \<Rightarrow> sleeplock) \<Rightarrow> (sleeplock \<Rightarrow> 'a kbase_scheme \<Rightarrow> 'a kbase_scheme)
      \<Rightarrow> 'a kbase_scheme \<Rightarrow> (unit, 'a kbase_scheme) kres" where
  "acquiresleep ch lk set_lk s =
     kbind (acquire (SleepLk ch) s) (\<lambda>_ s. acquiresleep_test ch lk set_lk s)"

definition acquiresleep_resume ::
    "chan \<Rightarrow> ('a kbase_scheme \<Rightarrow> sleeplock) \<Rightarrow> (sleeplock \<Rightarrow> 'a kbase_scheme \<Rightarrow> 'a kbase_scheme)
      \<Rightarrow> 'a kbase_scheme \<Rightarrow> (unit, 'a kbase_scheme) kres" where
  "acquiresleep_resume ch lk set_lk s =
     kbind (sleep_resume (SleepLk ch) s) (\<lambda>_ s. acquiresleep_test ch lk set_lk s)"

definition releasesleep ::
    "chan \<Rightarrow> (sleeplock \<Rightarrow> 'a kbase_scheme \<Rightarrow> 'a kbase_scheme)
      \<Rightarrow> 'a kbase_scheme \<Rightarrow> (unit, 'a kbase_scheme) kres" where
  "releasesleep ch set_lk s =
     kbind (acquire (SleepLk ch) s) (\<lambda>_ s.
     kbind (wakeup ch (set_lk \<lparr>sl_locked = False, sl_pid = 0\<rparr> s)) (\<lambda>_ s.
     release (SleepLk ch) s))"

definition holdingsleep ::
    "chan \<Rightarrow> ('a kbase_scheme \<Rightarrow> sleeplock) \<Rightarrow> 'a kbase_scheme \<Rightarrow> (bool, 'a kbase_scheme) kres" where
  "holdingsleep ch lk s =
     kbind (acquire (SleepLk ch) s) (\<lambda>_ s.
       case curproc s of
         None \<Rightarrow> Fault (Undefined ''holdingsleep without a process'')
       | Some p \<Rightarrow>
           let r = sl_locked (lk s) \<and> sl_pid (lk s) = p_pid (the_proc s p)
           in kbind (release (SleepLk ch) s) (\<lambda>_ s. Ok r s))"

end
