(* ===== verification/Mem_String.thy ===== *)
theory Mem_String
  imports Xv6_Prelude
begin

text \<open>
  The byte and string routines of the kernel (\<open>string.c\<close>) and of the user library
  (\<open>ulib.c\<close>), on a memory that maps addresses to bytes. Loops over a counter recurse on
  it; loops that only stop at a NUL are partial functions, so that a string without a
  terminator is \<open>None\<close>.
\<close>

section \<open>Kernel: string.c\<close>

fun stosb :: "bytes \<Rightarrow> nat \<Rightarrow> byte \<Rightarrow> nat \<Rightarrow> bytes" where
  "stosb m dst c 0 = m"
| "stosb m dst c (Suc n) = stosb (m(dst := c)) (dst + 1) c n"

text \<open>\<open>stosl\<close> stores \<open>n\<close> words; \<open>memset\<close> calls it with \<open>dst\<close> a multiple of 4.\<close>

fun stosl :: "bytes \<Rightarrow> nat \<Rightarrow> u32 \<Rightarrow> nat \<Rightarrow> bytes" where
  "stosl m dst w 0 = m"
| "stosl m dst w (Suc n) = stosl (put_uint m (dst div 4) w) (dst + 4) w n"

definition memset :: "bytes \<Rightarrow> nat \<Rightarrow> u32 \<Rightarrow> nat \<Rightarrow> bytes" where
  "memset m dst c n =
     (if dst mod 4 = 0 \<and> n mod 4 = 0 then
        let c = c AND 0xFF
        in stosl m dst (push_bit 24 c OR push_bit 16 c OR push_bit 8 c OR c) (n div 4)
      else stosb m dst (ucast c) n)"

fun memcmp :: "bytes \<Rightarrow> nat \<Rightarrow> nat \<Rightarrow> nat \<Rightarrow> int" where
  "memcmp m s1 s2 0 = 0"
| "memcmp m s1 s2 (Suc n) =
     (if m s1 \<noteq> m s2 then uint (m s1) - uint (m s2) else memcmp m (s1 + 1) (s2 + 1) n)"

fun copy_up :: "bytes \<Rightarrow> nat \<Rightarrow> nat \<Rightarrow> nat \<Rightarrow> bytes" where
  "copy_up m d s 0 = m"
| "copy_up m d s (Suc n) = copy_up (m(d := m s)) (d + 1) (s + 1) n"

fun copy_down :: "bytes \<Rightarrow> nat \<Rightarrow> nat \<Rightarrow> nat \<Rightarrow> bytes" where
  "copy_down m d s 0 = m"
| "copy_down m d s (Suc n) = copy_down (m(d - 1 := m (s - 1))) (d - 1) (s - 1) n"

definition memmove :: "bytes \<Rightarrow> nat \<Rightarrow> nat \<Rightarrow> nat \<Rightarrow> bytes" where
  "memmove m dst src n =
     (if src < dst \<and> src + n > dst then copy_down m (dst + n) (src + n) n
      else copy_up m dst src n)"

definition memcpy :: "bytes \<Rightarrow> nat \<Rightarrow> nat \<Rightarrow> nat \<Rightarrow> bytes" where
  "memcpy m dst src n = memmove m dst src n"

fun strncmp :: "bytes \<Rightarrow> nat \<Rightarrow> nat \<Rightarrow> nat \<Rightarrow> int" where
  "strncmp m p q 0 = 0"
| "strncmp m p q (Suc n) =
     (if m p \<noteq> 0 \<and> m p = m q then strncmp m (p + 1) (q + 1) n
      else uint (m p) - uint (m q))"

text \<open>The copying loop, then the padding loop that goes on with the same counter.\<close>

fun strncpy :: "bytes \<Rightarrow> nat \<Rightarrow> nat \<Rightarrow> nat \<Rightarrow> bytes" where
  "strncpy m s t 0 = m"
| "strncpy m s t (Suc n) =
     (let m' = m(s := m t)
      in if m t \<noteq> 0 then strncpy m' (s + 1) (t + 1) n else stosb m' (s + 1) 0 n)"

fun safestrcpy_loop :: "bytes \<Rightarrow> nat \<Rightarrow> nat \<Rightarrow> nat \<Rightarrow> bytes" where
  "safestrcpy_loop m s t 0 = m(s := 0)"
| "safestrcpy_loop m s t (Suc n) =
     (let m' = m(s := m t)
      in if m t \<noteq> 0 then safestrcpy_loop m' (s + 1) (t + 1) n else m'(s + 1 := 0))"

definition safestrcpy :: "bytes \<Rightarrow> nat \<Rightarrow> nat \<Rightarrow> int \<Rightarrow> bytes" where
  "safestrcpy m s t n = (if n \<le> 0 then m else safestrcpy_loop m s t (nat n - 1))"

partial_function (option) strlen_from :: "bytes \<Rightarrow> nat \<Rightarrow> nat \<Rightarrow> nat option" where
  "strlen_from m s n = (if m (s + n) = 0 then Some n else strlen_from m s (n + 1))"

definition strlen :: "bytes \<Rightarrow> nat \<Rightarrow> nat option" where
  "strlen m s = strlen_from m s 0"

section \<open>User library: ulib.c\<close>

partial_function (option) strcpy :: "bytes \<Rightarrow> nat \<Rightarrow> nat \<Rightarrow> bytes option" where
  "strcpy m s t =
     (let m' = m(s := m t) in if m t \<noteq> 0 then strcpy m' (s + 1) (t + 1) else Some m')"

partial_function (option) strcmp :: "bytes \<Rightarrow> nat \<Rightarrow> nat \<Rightarrow> int option" where
  "strcmp m p q =
     (if m p \<noteq> 0 \<and> m p = m q then strcmp m (p + 1) (q + 1)
      else Some (uint (m p) - uint (m q)))"

definition umemset :: "bytes \<Rightarrow> nat \<Rightarrow> u32 \<Rightarrow> nat \<Rightarrow> bytes" where
  "umemset m dst c n = stosb m dst (ucast c) n"

partial_function (option) strchr :: "bytes \<Rightarrow> nat \<Rightarrow> byte \<Rightarrow> nat option option" where
  "strchr m s c =
     (if m s = 0 then Some None else if m s = c then Some (Some s) else strchr m (s + 1) c)"

text \<open>Signed overflow in \<open>atoi\<close> is undefined: \<open>Inl ()\<close>.\<close>

definition is_digit :: "byte \<Rightarrow> bool" where
  "is_digit c \<longleftrightarrow> 48 \<le> uint c \<and> uint c \<le> 57"

partial_function (option) atoi_from :: "bytes \<Rightarrow> nat \<Rightarrow> int \<Rightarrow> (unit + int) option" where
  "atoi_from m s n =
     (if is_digit (m s) then
        if n * 10 + uint (m s) < 2 ^ 31 then atoi_from m (s + 1) (n * 10 + uint (m s) - 48)
        else Some (Inl ())
      else Some (Inr n))"

definition atoi :: "bytes \<Rightarrow> nat \<Rightarrow> (unit + int) option" where
  "atoi m s = atoi_from m s 0"

definition umemmove :: "bytes \<Rightarrow> nat \<Rightarrow> nat \<Rightarrow> int \<Rightarrow> bytes" where
  "umemmove m dst src n = copy_up m dst src (nat n)"

text \<open>\<open>gets\<close> reads the bytes the caller's input delivers one at a time; \<open>None\<close> ends it.\<close>

fun gets_loop :: "byte list \<Rightarrow> nat \<Rightarrow> byte list" where
  "gets_loop inp 0 = []"
| "gets_loop [] (Suc k) = []"
| "gets_loop (c # inp) (Suc k) =
     (if c = 10 \<or> c = 13 then [c] else c # gets_loop inp k)"

definition gets :: "bytes \<Rightarrow> nat \<Rightarrow> int \<Rightarrow> byte list \<Rightarrow> bytes" where
  "gets m buf mx inp = blit m buf (gets_loop inp (nat (mx - 1)) @ [0])"

section \<open>Lemmas\<close>

text \<open>The string at an address, cut off after \<open>n\<close> bytes.\<close>

definition cstr :: "bytes \<Rightarrow> nat \<Rightarrow> nat \<Rightarrow> byte list" where
  "cstr m t n = takeWhile (\<lambda>b. b \<noteq> 0) (slice m t n)"

lemma blit_Nil [simp]: "blit m d [] = m"
  by (rule ext) (auto simp: blit_def)

lemma blit_Cons: "blit m d (b # bs) = blit (m(d := b)) (d + 1) bs"
proof (rule ext)
  fix k
  consider "k < d" | "k = d" | j where "k = d + Suc j"
    by (metis less_imp_Suc_add linorder_neqE_nat add_Suc_right)
  then show "blit m d (b # bs) k = blit (m(d := b)) (d + 1) bs k"
    by cases (auto simp: blit_def)
qed

lemma slice_Suc: "slice m s (Suc n) = m s # slice m (s + 1) n"
  by (simp add: slice_def upt_conv_Cons del: upt_Suc)

lemma cstr_0 [simp]: "cstr m t 0 = []"
  by (simp add: cstr_def slice_def)

lemma cstr_Suc: "cstr m t (Suc n) = (if m t = 0 then [] else m t # cstr m (t + 1) n)"
  by (simp add: cstr_def slice_Suc)

lemma cstr_nonzero: "j < length (cstr m t n) \<Longrightarrow> cstr m t n ! j \<noteq> 0"
  using set_takeWhileD nth_mem unfolding cstr_def by fastforce

lemma slice_Suc_end: "slice m s (Suc n) = slice m s n @ [m (s + n)]"
  by (simp add: slice_def)

lemma slice_cong: "(\<And>k. k < n \<Longrightarrow> m (s + k) = m' (s + k)) \<Longrightarrow> slice m s n = slice m' s n"
  by (rule nth_equalityI) (simp_all add: slice_def)

lemma cstr_cong: "(\<And>k. k < n \<Longrightarrow> m (s + k) = m' (s + k)) \<Longrightarrow> cstr m s n = cstr m' s n"
  unfolding cstr_def using slice_cong [of n m s m'] by simp

lemma stosb_blit: "stosb m dst c n = blit m dst (replicate n c)"
  by (induction n arbitrary: m dst) (simp_all add: blit_Cons)

lemma put_uint_blit:
  "put_uint m i w = blit m (4 * i) [ucast w, ucast (drop_bit 8 w), ucast (drop_bit 16 w), ucast (drop_bit 24 w)]"
  by (simp add: put_uint_def blit_Cons numeral_2_eq_2 numeral_3_eq_3)

lemma fill_word_bytes:
  fixes c :: u32
  defines "w \<equiv> push_bit 24 (c AND 0xFF) OR push_bit 16 (c AND 0xFF) OR push_bit 8 (c AND 0xFF) OR (c AND 0xFF)"
  shows "ucast w = (ucast c :: byte)" "ucast (drop_bit 8 w) = (ucast c :: byte)"
    "ucast (drop_bit 16 w) = (ucast c :: byte)" "ucast (drop_bit 24 w) = (ucast c :: byte)"
proof -
  have m: "(0xFF :: u32) = mask 8" by (simp add: mask_eq_exp_minus_1)
  show "ucast w = (ucast c :: byte)" "ucast (drop_bit 8 w) = (ucast c :: byte)"
    "ucast (drop_bit 16 w) = (ucast c :: byte)" "ucast (drop_bit 24 w) = (ucast c :: byte)"
    unfolding w_def m by (rule bit_word_eqI; auto simp: bit_simps)+
qed

lemma blit_append: "blit m d (xs @ ys) = blit (blit m d xs) (d + length xs) ys"
  by (induction xs arbitrary: m d) (simp_all add: blit_Cons)

lemma stosl_blit:
  assumes "dst mod 4 = 0" and "ucast w = c" "ucast (drop_bit 8 w) = c" "ucast (drop_bit 16 w) = c"
    "ucast (drop_bit 24 w) = c"
  shows "stosl m dst w n = blit m dst (replicate (4 * n) c)"
  using assms(1)
proof (induction n arbitrary: m dst)
  case 0
  then show ?case by simp
next
  case (Suc n)
  have r: "replicate (4 * Suc n) c = [c, c, c, c] @ replicate (4 * n) c"
    by (simp add: numeral_eq_Suc)
  have l: "length [c, c, c, c] = 4" by simp
  have d: "4 * (dst div 4) = dst" using Suc.prems by auto
  have "stosl m dst w (Suc n) = stosl (blit m dst [c, c, c, c]) (dst + 4) w n"
    by (simp add: put_uint_blit assms(2-5) d)
  also have "\<dots> = blit (blit m dst [c, c, c, c]) (dst + 4) (replicate (4 * n) c)"
    by (rule Suc.IH) (use Suc.prems in simp)
  finally show ?case by (simp only: r blit_append l)
qed

lemma copy_up_blit:
  assumes "dst \<le> src \<or> src + n \<le> dst"
  shows "copy_up m dst src n = blit m dst (slice m src n)"
  using assms
proof (induction n arbitrary: m dst src)
  case 0
  then show ?case by (simp add: slice_def)
next
  case (Suc n)
  let ?m = "m(dst := m src)"
  have "slice ?m (src + 1) n = slice m (src + 1) n"
    using Suc.prems by (intro slice_cong) auto
  moreover have "copy_up ?m (dst + 1) (src + 1) n = blit ?m (dst + 1) (slice ?m (src + 1) n)"
    using Suc.prems by (intro Suc.IH) auto
  ultimately show ?case by (simp add: slice_Suc blit_Cons)
qed

lemma copy_down_blit:
  assumes "src < dst"
  shows "copy_down m (dst + n) (src + n) n = blit m dst (slice m src n)"
proof (induction n arbitrary: m)
  case 0
  then show ?case by (simp add: slice_def)
next
  case (Suc n)
  let ?m = "m(dst + n := m (src + n))"
  have sl: "slice ?m src n = slice m src n"
    using assms by (intro slice_cong) auto
  have "copy_down ?m (dst + n) (src + n) n = blit ?m dst (slice ?m src n)" by (rule Suc.IH)
  then have "copy_down m (dst + Suc n) (src + Suc n) (Suc n) = blit ?m dst (slice m src n)"
    by (simp add: sl)
  also have "\<dots> = blit m dst (slice m src (Suc n))"
    by (rule ext) (auto simp: blit_def slice_Suc_end nth_append)
  finally show ?case .
qed

lemma memset_blit: "memset m dst c n = blit m dst (replicate n (ucast c))"
proof (cases "dst mod 4 = 0 \<and> n mod 4 = 0")
  case True
  then have "4 * (n div 4) = n" by auto
  with True stosl_blit [OF _ fill_word_bytes, of dst m c "n div 4"] show ?thesis
    unfolding memset_def Let_def by (simp only: simp_thms if_True)
next
  case False
  then show ?thesis by (auto simp: memset_def stosb_blit)
qed

lemma memmove_blit: "memmove m dst src n = blit m dst (slice m src n)"
  by (auto simp: memmove_def copy_down_blit intro: copy_up_blit)

lemma memcmp_correct:
  "memcmp m s1 s2 n = 0 \<longleftrightarrow> slice m s1 n = slice m s2 n"
  by (induction n arbitrary: s1 s2)
    (simp_all add: slice_def [of _ _ 0] slice_Suc word_uint_eq_iff)

lemma strlen_from_Some:
  assumes "m (s + n + k) = 0" and "\<And>j. j < k \<Longrightarrow> m (s + n + j) \<noteq> 0"
  shows "strlen_from m s n = Some (n + k)"
  using assms
proof (induction k arbitrary: n)
  case 0
  then show ?case by (subst strlen_from.simps) simp
next
  case (Suc k)
  have "strlen_from m s (n + 1) = Some (n + 1 + k)"
  proof (rule Suc.IH)
    show "m (s + (n + 1) + k) = 0" using Suc.prems(1) by simp
    show "m (s + (n + 1) + j) \<noteq> 0" if "j < k" for j
      using Suc.prems(2) [of "Suc j"] that by simp
  qed
  moreover have "m (s + n) \<noteq> 0" using Suc.prems(2) [of 0] by simp
  ultimately show ?case by (subst strlen_from.simps) simp
qed

lemma strncpy_blit:
  assumes "s + n \<le> t \<or> t + n \<le> s"
  shows "strncpy m s t n =
    blit m s (let w = cstr m t n in w @ replicate (n - length w) 0)"
  using assms
proof (induction n arbitrary: m s t)
  case 0
  then show ?case by (simp add: slice_def)
next
  case (Suc n)
  let ?m = "m(s := m t)"
  have sl: "cstr ?m (t + 1) n = cstr m (t + 1) n"
    using Suc.prems by (intro cstr_cong) auto
  have "strncpy ?m (s + 1) (t + 1) n =
      blit ?m (s + 1) (let w = cstr ?m (t + 1) n
                       in w @ replicate (n - length w) 0)"
    using Suc.prems by (intro Suc.IH) auto
  then show ?case unfolding sl
    by (simp add: cstr_Suc blit_Cons stosb_blit Let_def)
qed

lemma safestrcpy_loop_blit:
  assumes "s + n < t \<or> t + n \<le> s"
  shows "\<exists>r. safestrcpy_loop m s t n =
      blit m s (cstr m t n @ 0 # r) \<and> length r \<le> 1
    \<and> length (cstr m t n) + length r \<le> n"
  using assms
proof (induction n arbitrary: m s t)
  case 0
  then show ?case by (auto simp: slice_def blit_Cons)
next
  case (Suc n)
  let ?m = "m(s := m t)"
  have sl: "cstr ?m (t + 1) n = cstr m (t + 1) n"
    using Suc.prems by (intro cstr_cong) auto
  show ?case
  proof (cases "m t = 0")
    case True
    then show ?thesis by (intro exI [of _ "[0]"]) (simp add: cstr_Suc blit_Cons)
  next
    case False
    have "\<exists>r. safestrcpy_loop ?m (s + 1) (t + 1) n =
        blit ?m (s + 1) (cstr ?m (t + 1) n @ 0 # r) \<and> length r \<le> 1
      \<and> length (cstr ?m (t + 1) n) + length r \<le> n"
      using Suc.prems by (intro Suc.IH) auto
    with False show ?thesis unfolding sl by (auto simp: cstr_Suc blit_Cons)
  qed
qed

lemma strlen_word:
  assumes "m (s + k) = 0" and "\<And>j. j < k \<Longrightarrow> m (s + j) \<noteq> 0"
  shows "strlen m s = Some k"
  using strlen_from_Some [of m s 0 k] assms by (simp add: strlen_def)

section \<open>Properties\<close>

text \<open>C30: the kernel's \<open>memmove\<close> is right for overlapping ranges too: whichever direction it
  copies in, the destination gets the bytes the source range had before the call and every
  other byte is unchanged.\<close>

theorem memmove_correct:
  "memmove m dst src n k = (if dst \<le> k \<and> k < dst + n then m (src + (k - dst)) else m k)"
  by (auto simp: memmove_blit blit_def slice_def)

text \<open>C31: the word-storing \<open>memset\<close> of the kernel has the effect of the byte-storing one of
  the user library for every destination, length and fill value, also one that does not fit
  a byte.\<close>

theorem memset_word_stores: "memset m dst c n = umemset m dst c n"
  by (simp add: umemset_def memset_blit stosb_blit)

text \<open>C32: \<open>safestrcpy\<close> into a buffer of \<open>n\<close> bytes that does not overlap the source always
  leaves a terminated string of the copied prefix, and writes nothing outside the buffer.\<close>

theorem safestrcpy_terminates:
  assumes "0 < n" and "s + nat n \<le> t \<or> t + nat n \<le> s"
  shows "strlen (safestrcpy m s t n) s = Some (length (cstr m t (nat n - 1)))
    \<and> slice (safestrcpy m s t n) s (length (cstr m t (nat n - 1))) = cstr m t (nat n - 1)
    \<and> int (length (cstr m t (nat n - 1))) < n
    \<and> (\<forall>k. k < s \<or> s + nat n \<le> k \<longrightarrow> safestrcpy m s t n k = m k)"
proof -
  let ?w = "cstr m t (nat n - 1)"
  have "s + (nat n - 1) < t \<or> t + (nat n - 1) \<le> s" using assms by linarith
  then obtain r where r: "safestrcpy m s t n = blit m s (?w @ 0 # r)" "length ?w + length r \<le> nat n - 1"
    using safestrcpy_loop_blit [of s "nat n - 1" t m] assms(1) by (auto simp: safestrcpy_def)
  have "strlen (safestrcpy m s t n) s = Some (length ?w)"
    by (rule strlen_word) (auto simp: r(1) blit_def nth_append cstr_nonzero)
  moreover have "slice (safestrcpy m s t n) s (length ?w) = ?w"
    by (rule nth_equalityI) (auto simp: r(1) slice_def blit_def nth_append)
  moreover have "int (length ?w) < n" using r(2) assms(1) by linarith
  moreover have "safestrcpy m s t n k = m k" if "k < s \<or> s + nat n \<le> k" for k
    using that r(2) assms(1) by (auto simp: r(1) blit_def)
  ultimately show ?thesis by blast
qed

theorem safestrcpy_terminates_witness:
  "strlen (safestrcpy (\<lambda>k. if k = 102 then 0 else 65) 0 100 16) 0 = Some 2
    \<and> safestrcpy (\<lambda>k. if k = 102 then 0 else 65) 0 100 16 20 = 65"
  using safestrcpy_terminates [of 16 0 100 "\<lambda>k. if k = 102 then 0 else 65"]
  by (simp add: cstr_def slice_def upt_rec_numeral)

section \<open>Overlapping copies in the user library\<close>

lemma copy_up_Suc_end:
  "copy_up m dst src (Suc n) = (copy_up m dst src n)(dst + n := copy_up m dst src n (src + n))"
proof (induction n arbitrary: m dst src)
  case (Suc n)
  let ?m = "m(dst := m src)"
  have "copy_up m dst src (Suc (Suc n)) = copy_up ?m (dst + 1) (src + 1) (Suc n)" by (rule copy_up.simps(2))
  also have "\<dots> = (copy_up ?m (dst + 1) (src + 1) n)(dst + 1 + n := copy_up ?m (dst + 1) (src + 1) n (src + 1 + n))"
    by (rule Suc.IH)
  finally show ?case unfolding copy_up.simps(2) [of m dst src n] by (simp del: copy_up.simps)
qed simp

text \<open>Copying upwards onto a range that starts \<open>dst - src\<close> further up repeats the bytes in between.\<close>

lemma copy_up_repeats:
  assumes "src < dst"
  shows "copy_up m dst src n k = (if dst \<le> k \<and> k < dst + n then m (src + (k - dst) mod (dst - src)) else m k)"
proof (induction n arbitrary: k)
  case (Suc n)
  have "(n - (dst - src)) mod (dst - src) = n mod (dst - src)" if "dst - src \<le> n"
    using that by (simp add: le_mod_geq)
  moreover have "src + n - dst = n - (dst - src)" using assms by simp
  ultimately show ?case using assms by (auto simp: copy_up_Suc_end Suc less_Suc_eq simp del: copy_up.simps)
qed auto

lemma periodic_mod:
  assumes "\<And>k. k + d < n \<Longrightarrow> f (k + d) = f k" and "0 < (d::nat)"
  shows "k < n \<Longrightarrow> f (k mod d) = f k"
proof (induction k rule: less_induct)
  case (less k)
  show ?case
  proof (cases "k < d")
    case False
    then have "f (k mod d) = f (k - d)" using less assms(2) by (simp add: le_mod_geq)
    then show ?thesis using assms(1) [of "k - d"] False less.prems by simp
  qed simp
qed

text \<open>C40: the \<open>memmove\<close> of the user library only copies upwards. On a range that overlaps its
  destination from below it fills the destination with repetitions of the bytes before the overlap;
  it does what the kernel's \<open>memmove\<close> does exactly when the range repeats itself already.\<close>

theorem umemmove_overlap:
  assumes "src < dst" and "dst < src + n"
  shows "slice (umemmove m dst src (int n)) dst n = map (\<lambda>k. m (src + k mod (dst - src))) [0 ..< n]
    \<and> (umemmove m dst src (int n) = memmove m dst src n \<longleftrightarrow> (\<forall>k < src + n - dst. m (dst + k) = m (src + k)))"
proof -
  let ?d = "dst - src"
  have u: "umemmove m dst src (int n) k = (if dst \<le> k \<and> k < dst + n then m (src + (k - dst) mod ?d) else m k)" for k
    by (simp add: umemmove_def copy_up_repeats [OF assms(1)])
  have v: "memmove m dst src n k = (if dst \<le> k \<and> k < dst + n then m (src + (k - dst)) else m k)" for k
    by (auto simp: memmove_blit blit_def slice_def)
  have "umemmove m dst src (int n) = memmove m dst src n \<longleftrightarrow> (\<forall>k < n. m (src + k mod ?d) = m (src + k))"
  proof
    assume e: "umemmove m dst src (int n) = memmove m dst src n"
    show "\<forall>k < n. m (src + k mod ?d) = m (src + k)"
    proof (intro allI impI)
      fix k assume "k < n"
      then show "m (src + k mod ?d) = m (src + k)" using fun_cong [OF e, of "dst + k"] by (simp add: u v)
    qed
  qed (auto simp: fun_eq_iff u v)
  also have "\<dots> \<longleftrightarrow> (\<forall>k < src + n - dst. m (dst + k) = m (src + k))"
  proof
    assume e: "\<forall>k < n. m (src + k mod ?d) = m (src + k)"
    show "\<forall>k < src + n - dst. m (dst + k) = m (src + k)"
    proof (intro allI impI)
      fix k assume "k < src + n - dst"
      then have k: "k < n" "k + ?d < n" "src + (k + ?d) = dst + k" using assms by linarith+
      show "m (dst + k) = m (src + k)" using e [rule_format, OF k(1)] e [rule_format, OF k(2), unfolded mod_add_self2 k(3)] by simp
    qed
  next
    assume e: "\<forall>k < src + n - dst. m (dst + k) = m (src + k)"
    have "m (src + (k + ?d)) = m (src + k)" if "k + ?d < n" for k
    proof -
      have "k < src + n - dst" "src + (k + ?d) = dst + k" using that assms(1) by linarith+
      then show ?thesis using e by metis
    qed
    then show "\<forall>k < n. m (src + k mod ?d) = m (src + k)"
      using periodic_mod [of ?d n "\<lambda>k. m (src + k)"] assms(1) by simp
  qed
  finally have "umemmove m dst src (int n) = memmove m dst src n \<longleftrightarrow> (\<forall>k < src + n - dst. m (dst + k) = m (src + k))" .
  moreover have "slice (umemmove m dst src (int n)) dst n = map (\<lambda>k. m (src + k mod ?d)) [0 ..< n]"
    by (rule nth_equalityI) (simp_all add: slice_def u)
  ultimately show ?thesis by blast
qed

theorem umemmove_overlap_witness:
  "umemmove (\<lambda>k. of_nat k) 12 10 5 \<noteq> memmove (\<lambda>k. of_nat k) 12 10 5
    \<and> slice (umemmove (\<lambda>k. of_nat k) 12 10 5) 12 5 = [10, 11, 10, 11, 10]"
proof -
  have "[0 ..< 5] = [0, 1, 2, 3, 4::nat]" by code_simp
  then have "map (\<lambda>k. of_nat (10 + k mod 2)) [0 ..< 5] = ([10, 11, 10, 11, 10] :: byte list)" by simp
  moreover have "\<not> (\<forall>k < 3. (of_nat (12 + k) :: byte) = of_nat (10 + k))" by (intro notI) (drule spec [of _ 0], simp)
  ultimately show ?thesis using umemmove_overlap [of 10 12 5 "\<lambda>k. of_nat k"] by simp
qed

end
