(* ===== verification/Kalloc.thy ===== *)
theory Kalloc
  imports Proc_Base Mem_String
begin

text \<open>
  The physical page allocator (\<open>kalloc.c\<close>). Physical memory is byte addressed; the free
  list is threaded through the first word of each free page, as in the code. Pointers are
  kernel virtual addresses, \<open>0\<close> is null. \<open>kend\<close> and \<open>kdata\<close> are
  the addresses of the linker symbols \<open>end\<close> and \<open>data\<close>.
\<close>

section \<open>Data\<close>

record kmem = kbase +
  mem :: bytes
  freelist :: nat
  use_lock :: bool
  kend :: nat
  kdata :: nat

section \<open>Operations\<close>

text \<open>\<open>if(kmem.use_lock) acquire(&kmem.lock)\<close>, and its \<open>release\<close>.\<close>

definition kmem_acquire :: "'a kmem_scheme \<Rightarrow> (unit, 'a kmem_scheme) kres" where
  "kmem_acquire s = (if use_lock s then acquire KmemLock s else Ok () s)"

definition kmem_release :: "'a kmem_scheme \<Rightarrow> (unit, 'a kmem_scheme) kres" where
  "kmem_release s = (if use_lock s then release KmemLock s else Ok () s)"

text \<open>\<open>r->next\<close> of the page at \<open>v\<close>.\<close>

definition run_next :: "bytes \<Rightarrow> nat \<Rightarrow> nat" where
  "run_next m v = unat (get_uint m (V2P v div 4))"

definition set_run_next :: "bytes \<Rightarrow> nat \<Rightarrow> nat \<Rightarrow> bytes" where
  "set_run_next m v x = put_uint m (V2P v div 4) (of_nat x)"

definition kfree :: "nat \<Rightarrow> 'a kmem_scheme \<Rightarrow> (unit, 'a kmem_scheme) kres" where
  "kfree v s =
     (if v mod PGSIZE \<noteq> 0 \<or> v < kend s \<or> V2P v \<ge> PHYSTOP then panic ''kfree''
      else
        let s = s\<lparr>mem := memset (mem s) (V2P v) 1 PGSIZE\<rparr>
        in kbind (kmem_acquire s) (\<lambda>_ s.
             kmem_release (s\<lparr>mem := set_run_next (mem s) v (freelist s), freelist := v\<rparr>)))"

definition kalloc :: "'a kmem_scheme \<Rightarrow> (nat, 'a kmem_scheme) kres" where
  "kalloc s =
     kbind (kmem_acquire s) (\<lambda>_ s.
       let r = freelist s;
           s = (if r \<noteq> 0 then s\<lparr>freelist := run_next (mem s) r\<rparr> else s)
       in kbind (kmem_release s) (\<lambda>_ s. Ok r s))"

function freerange_loop :: "nat \<Rightarrow> nat \<Rightarrow> 'a kmem_scheme \<Rightarrow> (unit, 'a kmem_scheme) kres" where
  "freerange_loop p vend s =
     (if p + PGSIZE \<le> vend
      then kbind (kfree p s) (\<lambda>_ s. freerange_loop (p + PGSIZE) vend s)
      else Ok () s)"
  by pat_completeness auto
termination
  by (relation "measure (\<lambda>(p, vend, s). vend - p)") (auto simp: PGSIZE_def)

declare freerange_loop.simps [simp del]

definition freerange :: "nat \<Rightarrow> nat \<Rightarrow> 'a kmem_scheme \<Rightarrow> (unit, 'a kmem_scheme) kres" where
  "freerange vstart vend s = freerange_loop (PGROUNDUP vstart) vend s"

definition kinit1 :: "nat \<Rightarrow> nat \<Rightarrow> 'a kmem_scheme \<Rightarrow> (unit, 'a kmem_scheme) kres" where
  "kinit1 vstart vend s = freerange vstart vend (s\<lparr>use_lock := False\<rparr>)"

definition kinit2 :: "nat \<Rightarrow> nat \<Rightarrow> 'a kmem_scheme \<Rightarrow> (unit, 'a kmem_scheme) kres" where
  "kinit2 vstart vend s =
     kbind (freerange vstart vend s) (\<lambda>_ s. Ok () (s\<lparr>use_lock := True\<rparr>))"

section \<open>The free list\<close>

text \<open>The list of pages that \<open>kmem.freelist\<close> leads through.\<close>

fun chain :: "bytes \<Rightarrow> nat \<Rightarrow> nat list \<Rightarrow> bool" where
  "chain m h [] \<longleftrightarrow> h = 0"
| "chain m h (p # ps) \<longleftrightarrow> h = p \<and> p \<noteq> 0 \<and> chain m (run_next m p) ps"

definition page_ok :: "nat \<Rightarrow> nat \<Rightarrow> bool" where
  "page_ok e v \<longleftrightarrow> v mod PGSIZE = 0 \<and> e \<le> v \<and> KERNBASE \<le> v \<and> v < KERNBASE + PHYSTOP"

text \<open>Does the byte at physical address \<open>a\<close> belong to the page at \<open>v\<close>?\<close>

definition in_page :: "nat \<Rightarrow> nat \<Rightarrow> bool" where
  "in_page v a \<longleftrightarrow> V2P v \<le> a \<and> a < V2P v + PGSIZE"

definition pool :: "'a kmem_scheme \<Rightarrow> nat list \<Rightarrow> bool" where
  "pool s ps \<longleftrightarrow> chain (mem s) (freelist s) ps \<and> distinct ps \<and> (\<forall>p \<in> set ps. page_ok (kend s) p)
     \<and> KmemLock \<notin> set (held s)"

lemma page_ok_V2P: "page_ok e v \<Longrightarrow> V2P v = v - KERNBASE"
  by (simp add: page_ok_def V2P_def usub_id kconst)

lemma page_ok_nonzero: "page_ok e v \<Longrightarrow> v \<noteq> 0"
  by (auto simp: page_ok_def kconst)

lemma page_ok_lt: "page_ok e v \<Longrightarrow> v < 2 ^ 32"
  by (simp add: page_ok_def kconst)

lemma page_ok_index: "page_ok e v \<Longrightarrow> \<exists>k. V2P v = 4096 * k \<and> v = KERNBASE + 4096 * k \<and> k < 57344"
proof -
  assume v: "page_ok e v"
  then obtain j where j: "v = 4096 * j" by (auto simp: page_ok_def kconst)
  with v show ?thesis
    by (intro exI [of _ "j - 524288"]) (auto simp: page_ok_V2P page_ok_def kconst)
qed

lemma in_page_disjoint:
  assumes "page_ok e v" and "page_ok e w" and "v \<noteq> w" and "in_page v a"
  shows "\<not> in_page w a"
proof -
  obtain i j where ij: "V2P v = 4096 * i" "V2P w = 4096 * j" "i \<noteq> j"
    using page_ok_index [OF assms(1)] page_ok_index [OF assms(2)] assms(3) by auto
  consider "i < j" | "j < i" using ij(3) by linarith
  then show ?thesis
    using assms(4) ij(1,2) by cases (auto simp: in_page_def PGSIZE_def)
qed

text \<open>The link of a page only depends on the bytes of that page.\<close>

lemma run_next_cong:
  assumes "page_ok e v" and "\<And>a. in_page v a \<Longrightarrow> m' a = m a"
  shows "run_next m' v = run_next m v"
proof -
  obtain k where k: "V2P v = 4096 * k" using page_ok_index [OF assms(1)] by blast
  have "m' (V2P v + j) = m (V2P v + j)" if "j < 4" for j
    using that by (intro assms(2)) (simp add: in_page_def PGSIZE_def)
  from this [of 0] this [of 1] this [of 2] this [of 3] show ?thesis
    by (simp add: run_next_def get_uint_def k)
qed

lemma chain_cong:
  assumes "\<And>p. p \<in> set ps \<Longrightarrow> run_next m' p = run_next m p"
  shows "chain m' h ps = chain m h ps"
  using assms by (induction ps arbitrary: h) auto

lemma run_next_set: "x < 2 ^ 32 \<Longrightarrow> run_next (set_run_next m v x) v = x"
  by (simp add: run_next_def set_run_next_def unat_of_nat)

lemma set_run_next_frame:
  assumes "page_ok e v" and "\<not> in_page v a"
  shows "set_run_next m v x a = m a"
proof -
  obtain k where k: "V2P v = 4096 * k" using page_ok_index [OF assms(1)] by blast
  with assms(2) have "a div 4 \<noteq> V2P v div 4" by (auto simp: in_page_def PGSIZE_def)
  then show ?thesis unfolding set_run_next_def by (rule put_uint_frame)
qed

lemma memset_page_frame: "\<not> in_page v a \<Longrightarrow> memset m (V2P v) c PGSIZE a = m a"
  by (auto simp: memset_blit blit_def in_page_def)

definition kfree_mem :: "bytes \<Rightarrow> nat \<Rightarrow> nat \<Rightarrow> bytes" where
  "kfree_mem m v f = set_run_next (memset m (V2P v) 1 PGSIZE) v f"

lemma kfree_mem_frame: "page_ok e v \<Longrightarrow> \<not> in_page v a \<Longrightarrow> kfree_mem m v f a = m a"
  by (simp add: kfree_mem_def set_run_next_frame memset_page_frame)

lemma kfree_eq:
  assumes "page_ok (kend s) v" and "KmemLock \<notin> set (held s)"
  shows "kfree v s = Ok () (s\<lparr>mem := kfree_mem (mem s) v (freelist s), freelist := v\<rparr>)"
  using assms page_ok_V2P [OF assms(1)]
  by (auto simp: kfree_def Let_def kmem_acquire_def kmem_release_def acquire_def release_def
      page_ok_def kfree_mem_def)

lemma kalloc_eq:
  assumes "KmemLock \<notin> set (held s)"
  shows "kalloc s = Ok (freelist s)
    (if freelist s = 0 then s else s\<lparr>freelist := run_next (mem s) (freelist s)\<rparr>)"
  using assms
  by (simp add: kalloc_def Let_def kmem_acquire_def kmem_release_def acquire_def release_def)

lemma pool_head: "pool s ps \<Longrightarrow> freelist s = (case ps of [] \<Rightarrow> 0 | p # _ \<Rightarrow> p)"
  by (cases ps) (auto simp: pool_def)

lemma pool_head_lt: "pool s ps \<Longrightarrow> freelist s < 2 ^ 32"
  using page_ok_lt by (cases ps) (auto simp: pool_def)

lemma kfree_pool:
  assumes "pool s ps" and "page_ok (kend s) v" and "v \<notin> set ps"
  shows "pool (s\<lparr>mem := kfree_mem (mem s) v (freelist s), freelist := v\<rparr>) (v # ps)"
proof -
  let ?m = "kfree_mem (mem s) v (freelist s)"
  have "run_next ?m p = run_next (mem s) p" if "p \<in> set ps" for p
  proof (rule run_next_cong)
    show p: "page_ok (kend s) p" using assms(1) that by (auto simp: pool_def)
    show "?m a = mem s a" if "in_page p a" for a
      using kfree_mem_frame [OF assms(2)] in_page_disjoint [OF p assms(2) _ that]
        \<open>p \<in> set ps\<close> assms(3) by blast
  qed
  then have "chain ?m (freelist s) ps"
    using assms(1) chain_cong [of ps ?m "mem s"] by (auto simp: pool_def)
  moreover have "run_next ?m v = freelist s"
    unfolding kfree_mem_def by (rule run_next_set [OF pool_head_lt [OF assms(1)]])
  ultimately show ?thesis
    using assms page_ok_nonzero by (auto simp: pool_def)
qed

lemma kalloc_pool:
  assumes "pool s (p # ps)"
  shows "kalloc s = Ok p (s\<lparr>freelist := run_next (mem s) p\<rparr>)"
    and "pool (s\<lparr>freelist := run_next (mem s) p\<rparr>) ps"
  using assms by (auto simp: pool_def kalloc_eq)

lemma kalloc_empty: "pool s [] \<Longrightarrow> kalloc s = Ok 0 s"
  by (simp add: pool_def kalloc_eq)

lemma pool_mem_cong:
  assumes "pool s ps" and "\<And>p a. p \<in> set ps \<Longrightarrow> in_page p a \<Longrightarrow> m a = mem s a"
  shows "pool (s\<lparr>mem := m\<rparr>) ps"
proof -
  have "chain m (freelist s) ps = chain (mem s) (freelist s) ps"
    using assms by (intro chain_cong run_next_cong) (auto simp: pool_def)
  with assms(1) show ?thesis by (simp add: pool_def)
qed

section \<open>Interface\<close>

text \<open>What the clients of the allocator rely on: it hands out the pages of a pool one by one,
  answers \<open>0\<close> when the pool is empty, and takes back any page outside it.\<close>

locale page_pool =
  fixes alloc :: "'s \<Rightarrow> (nat, 's) kres" and give_back :: "nat \<Rightarrow> 's \<Rightarrow> (unit, 's) kres"
    and is_pool :: "'s \<Rightarrow> nat list \<Rightarrow> bool" and is_page :: "'s \<Rightarrow> nat \<Rightarrow> bool"
  assumes alloc_some: "is_pool s (p # ps) \<Longrightarrow> \<exists>t. alloc s = Ok p t \<and> is_pool t ps \<and> is_page t = is_page s"
    and alloc_none: "is_pool s [] \<Longrightarrow> alloc s = Ok 0 s"
    and give_back_ok: "is_pool s ps \<Longrightarrow> is_page s v \<Longrightarrow> v \<notin> set ps \<Longrightarrow>
      \<exists>t. give_back v s = Ok () t \<and> is_pool t (v # ps) \<and> is_page t = is_page s"
    and pool_pages: "is_pool s ps \<Longrightarrow> distinct ps \<and> (\<forall>p \<in> set ps. p \<noteq> 0 \<and> is_page s p)"
begin

lemma alloc_nonzero_iff: "is_pool s ps \<Longrightarrow> alloc s = Ok r t \<Longrightarrow> r \<noteq> 0 \<longleftrightarrow> ps \<noteq> []"
  using alloc_none alloc_some pool_pages by (cases ps) force+

lemma alloc_cases:
  assumes "is_pool s ps" and "alloc s = Ok r t" and "r \<noteq> 0"
  obtains qs where "ps = r # qs" and "is_pool t qs" and "is_page t = is_page s"
  using assms alloc_none alloc_some by (cases ps) force+

lemma give_back_alloc:
  assumes "is_pool s ps" and "is_page s v" and "v \<notin> set ps"
  shows "\<exists>t u. give_back v s = Ok () t \<and> alloc t = Ok v u \<and> is_pool u ps"
  using give_back_ok [OF assms] alloc_some by blast

end

interpretation kpool: page_pool kalloc kfree pool "\<lambda>s. page_ok (kend s)"
proof unfold_locales
  fix s :: "'a kmem_scheme" and p ps v
  show "pool s (p # ps) \<Longrightarrow> \<exists>t. kalloc s = Ok p t \<and> pool t ps \<and> page_ok (kend t) = page_ok (kend s)"
    using kalloc_pool by fastforce
  show "pool s [] \<Longrightarrow> kalloc s = Ok 0 s" by (rule kalloc_empty)
  show "pool s ps \<Longrightarrow> page_ok (kend s) v \<Longrightarrow> v \<notin> set ps \<Longrightarrow>
      \<exists>t. kfree v s = Ok () t \<and> pool t (v # ps) \<and> page_ok (kend t) = page_ok (kend s)"
    using kfree_pool [of s ps v] kfree_eq [of s v] by (auto simp: pool_def)
  show "pool s ps \<Longrightarrow> distinct ps \<and> (\<forall>p \<in> set ps. p \<noteq> 0 \<and> page_ok (kend s) p)"
    using page_ok_nonzero by (auto simp: pool_def)
qed

section \<open>Any use of the allocator\<close>

text \<open>
  The kernel allocates, frees a page it was given, and writes whatever it wants into pages
  it was given; \<open>out\<close> lists the pages handed out.
\<close>

inductive kmem_step :: "'a kmem_scheme \<times> nat list \<Rightarrow> 'a kmem_scheme \<times> nat list \<Rightarrow> bool" where
  step_alloc: "kalloc s = Ok p t \<Longrightarrow> p \<noteq> 0 \<Longrightarrow> kmem_step (s, out) (t, p # out)"
| step_free: "p \<in> set out \<Longrightarrow> kfree p s = Ok () t \<Longrightarrow> kmem_step (s, out) (t, remove1 p out)"
| step_write: "p \<in> set out \<Longrightarrow> in_page p a \<Longrightarrow>
    kmem_step (s, out) (s\<lparr>mem := (mem s)(a := b)\<rparr>, out)"

definition kmem_start :: "nat set \<Rightarrow> 'a kmem_scheme \<times> nat list \<Rightarrow> bool" where
  "kmem_start A x \<longleftrightarrow> snd x = [] \<and> (\<exists>ps. pool (fst x) ps \<and> set ps = A)"

definition kmem_inv :: "nat set \<Rightarrow> 'a kmem_scheme \<times> nat list \<Rightarrow> bool" where
  "kmem_inv A x \<longleftrightarrow> (\<exists>ps. pool (fst x) ps \<and> distinct (ps @ snd x) \<and> set (ps @ snd x) = A
     \<and> (\<forall>p \<in> set (snd x). page_ok (kend (fst x)) p))"

lemma kmem_inv_step: "kmem_step x y \<Longrightarrow> kmem_inv A x \<Longrightarrow> kmem_inv A y"
proof (induction rule: kmem_step.induct)
  case (step_alloc s p t out)
  then obtain ps where ps: "pool s ps" "distinct (ps @ out)" "set (ps @ out) = A"
      "\<forall>q \<in> set out. page_ok (kend s) q"
    by (auto simp: kmem_inv_def)
  obtain qs where qs: "ps = p # qs" "pool t qs" "page_ok (kend t) = page_ok (kend s)"
    using kpool.alloc_cases [OF ps(1) step_alloc(1,2)] by metis
  with ps kpool.pool_pages [OF ps(1)] show ?case
    unfolding kmem_inv_def by (intro exI [of _ qs]) auto
next
  case (step_free p out s t)
  then obtain ps where ps: "pool s ps" "distinct (ps @ out)" "set (ps @ out) = A"
      "\<forall>q \<in> set out. page_ok (kend s) q"
    by (auto simp: kmem_inv_def)
  have "page_ok (kend s) p" "p \<notin> set ps" using ps step_free(1) by auto
  then have "pool t (p # ps)" "page_ok (kend t) = page_ok (kend s)"
    using kpool.give_back_ok [OF ps(1), of p] step_free(2) by auto
  with ps step_free(1) show ?case
    unfolding kmem_inv_def by (intro exI [of _ "p # ps"]) auto
next
  case (step_write p out a s b)
  then obtain ps where ps: "pool s ps" "distinct (ps @ out)" "set (ps @ out) = A"
      "\<forall>q \<in> set out. page_ok (kend s) q"
    by (auto simp: kmem_inv_def)
  have "pool (s\<lparr>mem := (mem s)(a := b)\<rparr>) ps"
  proof (rule pool_mem_cong [OF ps(1)])
    fix q c assume q: "q \<in> set ps" "in_page q c"
    have "page_ok (kend s) q" using ps(1) q(1) by (simp add: pool_def)
    then have "c \<noteq> a"
      using in_page_disjoint [of "kend s" q p c] ps(2,4) q step_write by auto
    then show "((mem s)(a := b)) c = mem s c" by simp
  qed
  with ps show ?case unfolding kmem_inv_def by (intro exI [of _ ps]) simp
qed

lemma kmem_inv_start: "kmem_start A x \<Longrightarrow> kmem_inv A x"
  using kpool.pool_pages by (fastforce simp: kmem_start_def kmem_inv_def)

interpretation kmem_use: invariant_machine "kmem_start A" kmem_step "kmem_inv A" for A
  by unfold_locales (rule kmem_inv_start kmem_inv_step; assumption)+

section \<open>Filling the pool\<close>

definition pages_from :: "nat \<Rightarrow> nat \<Rightarrow> nat list" where
  "pages_from p vend = map (\<lambda>i. p + i * PGSIZE) [0 ..< (vend - p) div PGSIZE]"

lemma pages_from_empty: "\<not> p + PGSIZE \<le> vend \<Longrightarrow> pages_from p vend = []"
  by (simp add: pages_from_def PGSIZE_def)

lemma pages_from_step:
  assumes "p + PGSIZE \<le> vend"
  shows "pages_from p vend = p # pages_from (p + PGSIZE) vend"
proof -
  have "(vend - p) div PGSIZE = Suc ((vend - (p + PGSIZE)) div PGSIZE)"
    using assms by (simp add: PGSIZE_def div_if [of "vend - p"])
  then show ?thesis
    unfolding pages_from_def by (simp add: upt_conv_Cons map_Suc_upt [symmetric] comp_def algebra_simps del: upt_Suc)
qed

lemma freerange_loop_pool:
  assumes "pool s ps" and "p mod PGSIZE = 0" and "kend s \<le> p" and "KERNBASE \<le> p"
    and "vend \<le> KERNBASE + PHYSTOP" and "\<forall>q \<in> set ps. q < p"
  shows "\<exists>t. freerange_loop p vend s = Ok () t \<and> pool t (rev (pages_from p vend) @ ps)
    \<and> kend t = kend s"
  using assms
proof (induction p vend s arbitrary: ps rule: freerange_loop.induct)
  case (1 p vend s)
  show ?case
  proof (cases "p + PGSIZE \<le> vend")
    case False
    with 1 show ?thesis by (auto simp: freerange_loop.simps [of p] pages_from_empty)
  next
    case True
    let ?s = "s\<lparr>mem := kfree_mem (mem s) p (freelist s), freelist := p\<rparr>"
    have p: "page_ok (kend s) p" using 1 True by (auto simp: page_ok_def kconst)
    have k: "kfree p s = Ok () ?s"
      using 1(2) by (intro kfree_eq [OF p]) (simp add: pool_def)
    have "pool ?s (p # ps)" by (rule kfree_pool [OF 1(2) p]) (use 1(7) in auto)
    then have "\<exists>t. freerange_loop (p + PGSIZE) vend ?s = Ok () t
        \<and> pool t (rev (pages_from (p + PGSIZE) vend) @ p # ps) \<and> kend t = kend ?s"
      using 1 True k by (intro 1(1)) (auto simp: PGSIZE_def)
    with True k show ?thesis by (simp add: freerange_loop.simps [of p] pages_from_step)
  qed
qed

section \<open>Properties\<close>

text \<open>C6: whatever sequence of \<open>kalloc\<close>, \<open>kfree\<close> of pages handed out and writes into pages
  handed out the kernel performs, no page is handed out twice: the pages in use are
  distinct pages of the initial pool, the next \<open>kalloc\<close> returns a page that is not in use,
  and it fails exactly when every page of the pool is in use.\<close>

theorem kalloc_never_shares:
  assumes "reach (kmem_start A) kmem_step (s, out)"
  shows "distinct out \<and> set out \<subseteq> A
    \<and> (\<exists>p t. kalloc s = Ok p t \<and> (if set out = A then p = 0 else p \<in> A - set out))"
proof -
  obtain ps where ps: "pool s ps" "distinct (ps @ out)" "set (ps @ out) = A"
    using kmem_use.reach_inv [OF assms] by (auto simp: kmem_inv_def)
  show ?thesis
  proof (cases ps)
    case Nil
    with ps kalloc_empty [of s] show ?thesis by auto
  next
    case (Cons p qs)
    with ps kalloc_pool(1) [of s p qs] show ?thesis by auto
  qed
qed

definition two_pages :: "kmem" where
  "two_pages = kbase.extend boot_kbase
     \<lparr>mem = set_run_next zero_bytes (KERNBASE + 4096) (KERNBASE + 8192), freelist = KERNBASE + 4096,
      use_lock = True, kend = KERNBASE, kdata = KERNBASE\<rparr>"

lemma two_pages_pool: "pool two_pages [KERNBASE + 4096, KERNBASE + 8192]"
  by (simp add: pool_def two_pages_def kbase.defs boot_kbase_def page_ok_def run_next_def
      set_run_next_def V2P_def usub_def kconst)

theorem kalloc_never_shares_witness:
  "\<exists>p t. kalloc two_pages = Ok p t \<and> p \<in> {KERNBASE + 4096, KERNBASE + 8192}"
proof -
  have "reach (kmem_start {KERNBASE + 4096, KERNBASE + 8192}) kmem_step (two_pages, [])"
    using two_pages_pool by (intro reach_init) (force simp: kmem_start_def)
  from kalloc_never_shares [OF this] show ?thesis by simp
qed

text \<open>C33: \<open>freerange\<close> puts exactly the whole pages between its bounds, rounded up to a page at
  the lower end, on the free list and does not panic, when the range lies between the end
  of the kernel and the top of physical memory.\<close>

theorem freerange_fills:
  assumes "pool s []" and "kend s \<le> PGROUNDUP vstart" and "KERNBASE \<le> PGROUNDUP vstart"
    and "vend \<le> KERNBASE + PHYSTOP"
  shows "\<exists>t. freerange vstart vend s = Ok () t \<and> pool t (rev (pages_from (PGROUNDUP vstart) vend))"
  using freerange_loop_pool [OF assms(1) _ assms(2-4)] by (auto simp: freerange_def)

lemma upt_three: "[0 ..< 3 :: nat] = [0, 1, 2]"
  by (simp add: numeral_3_eq_3 numeral_2_eq_2)

theorem freerange_fills_witness:
  "\<exists>t. freerange (KERNBASE + 5) (KERNBASE + 20000) (two_pages\<lparr>freelist := 0\<rparr>) = Ok () t
    \<and> pool t [KERNBASE + 12288, KERNBASE + 8192, KERNBASE + 4096]"
proof -
  have "pool (two_pages\<lparr>freelist := 0\<rparr>) []"
    by (simp add: pool_def two_pages_def kbase.defs boot_kbase_def)
  moreover have "rev (pages_from (PGROUNDUP (KERNBASE + 5)) (KERNBASE + 20000)) =
      [KERNBASE + 12288, KERNBASE + 8192, KERNBASE + 4096]"
    by (simp add: pages_from_def PGROUNDUP_def uadd_def kconst upt_three)
  ultimately show ?thesis
    using freerange_fills [of "two_pages\<lparr>freelist := 0\<rparr>" "KERNBASE + 5" "KERNBASE + 20000"]
    by (simp add: two_pages_def kbase.defs PGROUNDUP_def uadd_def kconst)
qed

end
