(* ===== verification/Bio.thy ===== *)
theory Bio
  imports Sleeplock Kalloc
begin

text \<open>
  The buffer cache (\<open>bio.c\<close>) over the disk driver \<open>memide.c\<close>. The cache is a fixed array of
  buffers that are also linked, through \<open>prev\<close> and \<open>next\<close>, into a ring around \<open>head\<close>, most
  recently used first; links are indices into the array and \<open>head\<close> is the entry after the last
  buffer.
\<close>

section \<open>Data\<close>

record buf =
  b_valid :: bool
  b_dirty :: bool
  b_dev :: nat
  b_blockno :: nat
  b_lock :: sleeplock
  b_refcnt :: nat
  b_prev :: nat
  b_next :: nat
  b_data :: bytes

text \<open>
  The disk is an array of blocks; \<open>dwrites\<close> is a history variable that lists every write to
  it, the last one first.
\<close>

record kbio = kmem +
  bcache :: "buf list"
  memdisk :: "nat \<Rightarrow> bytes"
  disksize :: nat
  dwrites :: "(nat \<times> bytes) list"

definition HEAD :: nat where [kconst]: "HEAD = NBUF"

abbreviation the_buf :: "'a kbio_scheme \<Rightarrow> nat \<Rightarrow> buf" where
  "the_buf s b \<equiv> bcache s ! b"

definition upd_buf :: "nat \<Rightarrow> (buf \<Rightarrow> buf) \<Rightarrow> 'a kbio_scheme \<Rightarrow> 'a kbio_scheme" where
  "upd_buf b f s = s\<lparr>bcache := (bcache s)[b := f (the_buf s b)]\<rparr>"

section \<open>Links\<close>

definition link_upd :: "nat \<Rightarrow> (buf \<Rightarrow> buf) \<Rightarrow> buf list \<Rightarrow> buf list" where
  "link_upd b f bs = bs[b := f (bs ! b)]"

text \<open>Insert \<open>b\<close> after \<open>head\<close> (the last four statements of \<open>brelse\<close> and of the loop of \<open>binit\<close>).\<close>

definition push_front :: "nat \<Rightarrow> buf list \<Rightarrow> buf list" where
  "push_front b bs =
     (let bs = link_upd b (b_next_update (\<lambda>_. b_next (bs ! HEAD))) bs;
          bs = link_upd b (b_prev_update (\<lambda>_. HEAD)) bs;
          bs = link_upd (b_next (bs ! HEAD)) (b_prev_update (\<lambda>_. b)) bs
      in link_upd HEAD (b_next_update (\<lambda>_. b)) bs)"

definition unlink :: "nat \<Rightarrow> buf list \<Rightarrow> buf list" where
  "unlink b bs =
     (let bs = link_upd (b_next (bs ! b)) (b_prev_update (\<lambda>_. b_prev (bs ! b))) bs
      in link_upd (b_prev (bs ! b)) (b_next_update (\<lambda>_. b_next (bs ! b))) bs)"

definition init_buf :: "nat \<Rightarrow> buf list \<Rightarrow> buf list" where
  "init_buf b bs = push_front b (link_upd b (b_lock_update (\<lambda>_. initsleeplock)) bs)"

definition binit :: "'a kbio_scheme \<Rightarrow> 'a kbio_scheme" where
  "binit s =
     (let bs = link_upd HEAD (b_prev_update (\<lambda>_. HEAD)) (bcache s);
          bs = link_upd HEAD (b_next_update (\<lambda>_. HEAD)) bs
      in s\<lparr>bcache := fold init_buf [0 ..< NBUF] bs\<rparr>)"

section \<open>Disk driver: memide.c\<close>

text \<open>\<open>holdingsleep\<close>, \<open>acquiresleep\<close> and \<open>releasesleep\<close> on the lock of buffer \<open>b\<close>.\<close>

abbreviation buf_lock :: "nat \<Rightarrow> 'a kbio_scheme \<Rightarrow> sleeplock" where
  "buf_lock b s \<equiv> b_lock (the_buf s b)"

abbreviation set_buf_lock :: "nat \<Rightarrow> sleeplock \<Rightarrow> 'a kbio_scheme \<Rightarrow> 'a kbio_scheme" where
  "set_buf_lock b l s \<equiv> upd_buf b (b_lock_update (\<lambda>_. l)) s"

definition iderw :: "nat \<Rightarrow> 'a kbio_scheme \<Rightarrow> (unit, 'a kbio_scheme) kres" where
  "iderw b s =
     kbind (holdingsleep (ChBufLock b) (buf_lock b) s) (\<lambda>h s.
       if \<not> h then panic ''iderw: buf not locked''
       else if b_valid (the_buf s b) \<and> \<not> b_dirty (the_buf s b) then panic ''iderw: nothing to do''
       else if b_dev (the_buf s b) \<noteq> 1 then panic ''iderw: request not for disk 1''
       else if b_blockno (the_buf s b) \<ge> disksize s then panic ''iderw: block out of range''
       else if b_dirty (the_buf s b) then
         Ok () (upd_buf b (\<lambda>x. x\<lparr>b_dirty := False, b_valid := True\<rparr>)
           (s\<lparr>memdisk := (memdisk s)(b_blockno (the_buf s b) := b_data (the_buf s b)),
              dwrites := (b_blockno (the_buf s b), b_data (the_buf s b)) # dwrites s\<rparr>))
       else
         Ok () (upd_buf b (\<lambda>x. x\<lparr>b_data := memdisk s (b_blockno x), b_valid := True\<rparr>) s))"

section \<open>Cache operations\<close>

text \<open>
  The two scans of \<open>bget\<close>: along \<open>next\<close> for the block, along \<open>prev\<close> for a free buffer. The ring
  has \<open>NBUF\<close> buffers, which bounds the walk; a ring that does not lead back to \<open>head\<close> makes it
  diverge.
\<close>

fun find_block :: "nat \<Rightarrow> buf list \<Rightarrow> nat \<Rightarrow> nat \<Rightarrow> nat \<Rightarrow> (nat option) option" where
  "find_block 0 bs b dev blockno = (if b = HEAD then Some None else None)"
| "find_block (Suc n) bs b dev blockno =
     (if b = HEAD then Some None
      else if b_dev (bs ! b) = dev \<and> b_blockno (bs ! b) = blockno then Some (Some b)
      else find_block n bs (b_next (bs ! b)) dev blockno)"

fun find_unused :: "nat \<Rightarrow> buf list \<Rightarrow> nat \<Rightarrow> (nat option) option" where
  "find_unused 0 bs b = (if b = HEAD then Some None else None)"
| "find_unused (Suc n) bs b =
     (if b = HEAD then Some None
      else if b_refcnt (bs ! b) = 0 \<and> \<not> b_dirty (bs ! b) then Some (Some b)
      else find_unused n bs (b_prev (bs ! b)))"

definition bget :: "nat \<Rightarrow> nat \<Rightarrow> 'a kbio_scheme \<Rightarrow> (nat, 'a kbio_scheme) kres" where
  "bget dev blockno s =
     kbind (acquire BcacheLock s) (\<lambda>_ s.
       case find_block NBUF (bcache s) (b_next (the_buf s HEAD)) dev blockno of
         None \<Rightarrow> Fault Diverges
       | Some (Some b) \<Rightarrow>
           kbind (release BcacheLock (upd_buf b (\<lambda>x. x\<lparr>b_refcnt := b_refcnt x + 1\<rparr>) s)) (\<lambda>_ s.
           kbind (acquiresleep (ChBufLock b) (buf_lock b) (set_buf_lock b) s) (\<lambda>_ s. Ok b s))
       | Some None \<Rightarrow>
           case find_unused NBUF (bcache s) (b_prev (the_buf s HEAD)) of
             None \<Rightarrow> Fault Diverges
           | Some (Some b) \<Rightarrow>
               kbind (release BcacheLock (upd_buf b (\<lambda>x. x\<lparr>b_dev := dev, b_blockno := blockno,
                   b_valid := False, b_dirty := False, b_refcnt := 1\<rparr>) s)) (\<lambda>_ s.
               kbind (acquiresleep (ChBufLock b) (buf_lock b) (set_buf_lock b) s) (\<lambda>_ s. Ok b s))
           | Some None \<Rightarrow> panic ''bget: no buffers'')"

definition bread :: "nat \<Rightarrow> nat \<Rightarrow> 'a kbio_scheme \<Rightarrow> (nat, 'a kbio_scheme) kres" where
  "bread dev blockno s =
     kbind (bget dev blockno s) (\<lambda>b s.
       if \<not> b_valid (the_buf s b) then kbind (iderw b s) (\<lambda>_ s. Ok b s) else Ok b s)"

definition bwrite :: "nat \<Rightarrow> 'a kbio_scheme \<Rightarrow> (unit, 'a kbio_scheme) kres" where
  "bwrite b s =
     kbind (holdingsleep (ChBufLock b) (buf_lock b) s) (\<lambda>h s.
       if \<not> h then panic ''bwrite'' else iderw b (upd_buf b (b_dirty_update (\<lambda>_. True)) s))"

definition brelse :: "nat \<Rightarrow> 'a kbio_scheme \<Rightarrow> (unit, 'a kbio_scheme) kres" where
  "brelse b s =
     kbind (holdingsleep (ChBufLock b) (buf_lock b) s) (\<lambda>h s.
       if \<not> h then panic ''brelse''
       else
         kbind (releasesleep (ChBufLock b) (set_buf_lock b) s) (\<lambda>_ s.
         kbind (acquire BcacheLock s) (\<lambda>_ s.
           let s = upd_buf b (\<lambda>x. x\<lparr>b_refcnt := usub (b_refcnt x) 1\<rparr>) s;
               s = (if b_refcnt (the_buf s b) = 0
                    then s\<lparr>bcache := push_front b (unlink b (bcache s))\<rparr> else s)
           in release BcacheLock s)))"

text \<open>Assignment to the data of a buffer that the caller has locked.\<close>

definition set_data :: "nat \<Rightarrow> bytes \<Rightarrow> 'a kbio_scheme \<Rightarrow> 'a kbio_scheme" where
  "set_data b d s = upd_buf b (b_data_update (\<lambda>_. d)) s"

section \<open>The ring\<close>

text \<open>
  \<open>linked nx pv ys\<close>: the links lead along \<open>ys\<close>, forwards and backwards. \<open>ring bs xs\<close>: the buffers
  in the order of \<open>xs\<close>, most recently used first, form the ring around \<open>head\<close>.
\<close>

fun linked :: "(nat \<Rightarrow> nat) \<Rightarrow> (nat \<Rightarrow> nat) \<Rightarrow> nat list \<Rightarrow> bool" where
  "linked nx pv (a # b # ys) \<longleftrightarrow> nx a = b \<and> pv b = a \<and> linked nx pv (b # ys)"
| "linked nx pv ys \<longleftrightarrow> True"

definition nexts :: "buf list \<Rightarrow> nat \<Rightarrow> nat" where
  "nexts bs i = b_next (bs ! i)"

definition prevs :: "buf list \<Rightarrow> nat \<Rightarrow> nat" where
  "prevs bs i = b_prev (bs ! i)"

definition ring :: "buf list \<Rightarrow> nat list \<Rightarrow> bool" where
  "ring bs xs \<longleftrightarrow> length bs = NBUF + 1 \<and> distinct xs \<and> set xs = {..< NBUF}
     \<and> linked (nexts bs) (prevs bs) (HEAD # xs @ [HEAD])"

lemma linked_append:
  "linked nx pv (xs @ a # ys) \<longleftrightarrow> linked nx pv (xs @ [a]) \<and> linked nx pv (a # ys)"
proof (induction xs)
  case (Cons x xs) then show ?case by (cases xs) auto
qed simp

lemma linked_nx: "a \<notin> set (butlast ys) \<Longrightarrow> linked (nx(a := v)) pv ys = linked nx pv ys"
  by (induction nx pv ys rule: linked.induct) auto

lemma linked_pv: "a \<notin> set (tl ys) \<Longrightarrow> linked nx (pv(a := v)) ys = linked nx pv ys"
proof (induction nx pv ys rule: linked.induct)
  case (1 nx pv x b ys)
  then have "a \<notin> set (tl (b # ys))" "a \<noteq> b" by auto
  with 1 show ?case by simp
qed simp_all

lemma linked_step: "linked nx pv (xs @ a # b # ys) \<Longrightarrow> nx a = b \<and> pv b = a"
  using linked_append [of nx pv xs a "b # ys"] by simp

lemma nth_link_upd: "link_upd i f bs ! j = (if j = i \<and> i < length bs then f (bs ! i) else bs ! j)"
  by (simp add: link_upd_def) (metis list_update_beyond not_le nth_list_update_eq nth_list_update_neq)

lemma nexts_upd:
  "i < length bs \<Longrightarrow> nexts (link_upd i (b_next_update (\<lambda>_. v)) bs) = (nexts bs)(i := v)"
  "nexts (link_upd i (b_prev_update (\<lambda>_. v)) bs) = nexts bs"
  "i < length bs \<Longrightarrow> prevs (link_upd i (b_prev_update (\<lambda>_. v)) bs) = (prevs bs)(i := v)"
  "prevs (link_upd i (b_next_update (\<lambda>_. v)) bs) = prevs bs"
  by (auto simp: nexts_def prevs_def nth_link_upd fun_eq_iff)

lemma link_upd_length [simp]: "length (link_upd i f bs) = length bs"
  by (simp add: link_upd_def)

lemma unlink_linked:
  assumes "linked nx pv (HEAD # us @ b # vs @ [HEAD])" and "distinct (us @ b # vs)"
    and "HEAD \<notin> set (us @ b # vs)"
  shows "linked (nx(pv b := nx b)) (pv(nx b := pv b)) (HEAD # us @ vs @ [HEAD])"
proof -
  define p where "p = last (HEAD # us)"
  define L where "L = butlast (HEAD # us)"
  define n where "n = hd (vs @ [HEAD])"
  define R where "R = tl (vs @ [HEAD])"
  have Lp: "HEAD # us = L @ [p]" by (simp add: p_def L_def)
  have nR: "vs @ [HEAD] = n # R" by (simp add: n_def R_def)
  have all: "linked nx pv (L @ p # b # n # R)"
    using assms(1) Lp nR by (metis append.assoc append_Cons append_Nil)
  have pb: "pv b = p" "nx b = n" using linked_step [of nx pv L p b "n # R"] linked_step [of nx pv "L @ [p]" b n R] all by auto
  have parts: "linked nx pv (L @ [p])" "linked nx pv (n # R)"
    using all linked_append [of nx pv L p "b # n # R"] linked_append [of nx pv "[p, b]" n R] by auto
  have p1: "p \<notin> set L" using assms(2,3) Lp by (metis distinct.simps(2) distinct_append not_distinct_conv_prefix set_append UnCI distinct_butlast L_def)
  have p2: "p \<notin> set (butlast (n # R))"
  proof -
    have "p \<in> insert HEAD (set us)" using Lp by (metis last_in_set list.distinct(1) list.simps(15) p_def)
    moreover have "butlast (n # R) = vs" using nR by (metis butlast_snoc)
    ultimately show ?thesis using assms(2,3) by auto
  qed
  have n1: "n \<notin> set (tl (L @ [p]))"
  proof -
    have "tl (L @ [p]) = us" using Lp by (metis list.sel(3))
    moreover have "n \<in> insert HEAD (set vs)" by (cases vs) (auto simp: n_def)
    ultimately show ?thesis using assms(2,3) by auto
  qed
  have n2: "n \<notin> set R"
    using assms(2,3) by (cases vs) (auto simp: n_def R_def)
  have "linked (nx(p := n)) (pv(n := p)) (L @ p # n # R)"
    using parts p1 p2 n1 n2 by (subst linked_append) (simp add: linked_nx linked_pv)
  moreover have "HEAD # us @ vs @ [HEAD] = L @ p # n # R"
    using Lp nR by (metis append.assoc append_Cons append_Nil)
  ultimately show ?thesis using pb by simp
qed

lemma push_linked:
  assumes "linked nx pv (HEAD # ys @ [HEAD])" and "b \<notin> set ys" and "b \<noteq> HEAD" and "HEAD \<notin> set ys"
    and "distinct ys"
  shows "linked (nx(b := nx HEAD, HEAD := b)) (pv(b := HEAD, nx HEAD := b)) (HEAD # b # ys @ [HEAD])"
proof -
  define n where "n = hd (ys @ [HEAD])"
  define R where "R = tl (ys @ [HEAD])"
  have nR: "ys @ [HEAD] = n # R" by (simp add: n_def R_def)
  have nx: "nx HEAD = n" and rest: "linked nx pv (n # R)" using assms(1) nR by simp_all
  have bl: "butlast (n # R) = ys" using nR by (metis butlast_snoc)
  have "b \<notin> set (n # R)" using assms(2,3) nR by (metis Un_iff empty_iff empty_set set_ConsD set_append)
  moreover have "n \<notin> set R" using assms(4,5) by (cases ys) (auto simp: n_def R_def)
  moreover have "HEAD \<notin> set (butlast (n # R))" "b \<notin> set (butlast (n # R))" using bl assms by auto
  ultimately have "linked (nx(b := n, HEAD := b)) (pv(b := HEAD, n := b)) (n # R)"
    using rest by (simp add: linked_nx linked_pv)
  moreover have "n \<noteq> b" using \<open>b \<notin> set (n # R)\<close> by auto
  ultimately show ?thesis using nR nx assms(3) by simp
qed

text \<open>Everything in a buffer but its links.\<close>

definition strip :: "buf \<Rightarrow> buf" where
  "strip x = x\<lparr>b_prev := 0, b_next := 0\<rparr>"

lemma strip_sel [simp]:
  "b_valid (strip x) = b_valid x" "b_dirty (strip x) = b_dirty x" "b_dev (strip x) = b_dev x"
  "b_blockno (strip x) = b_blockno x" "b_lock (strip x) = b_lock x" "b_refcnt (strip x) = b_refcnt x"
  "b_data (strip x) = b_data x"
  by (simp_all add: strip_def)

lemma strip_eqD:
  assumes "strip x = strip y"
  shows "b_valid x = b_valid y" "b_dirty x = b_dirty y" "b_dev x = b_dev y"
    "b_blockno x = b_blockno y" "b_lock x = b_lock y" "b_refcnt x = b_refcnt y" "b_data x = b_data y"
  using arg_cong [OF assms, of b_valid] arg_cong [OF assms, of b_dirty] arg_cong [OF assms, of b_dev]
    arg_cong [OF assms, of b_blockno] arg_cong [OF assms, of b_lock] arg_cong [OF assms, of b_refcnt]
    arg_cong [OF assms, of b_data]
  by simp_all

lemma strip_link_upd [simp]:
  "strip (link_upd i (b_next_update (\<lambda>_. v)) bs ! j) = strip (bs ! j)"
  "strip (link_upd i (b_prev_update (\<lambda>_. v)) bs ! j) = strip (bs ! j)"
  by (simp_all add: nth_link_upd strip_def)

lemma strip_unlink [simp]: "strip (unlink b bs ! j) = strip (bs ! j)"
  by (simp add: unlink_def Let_def)

lemma strip_push_front [simp]: "strip (push_front b bs ! j) = strip (bs ! j)"
  by (simp add: push_front_def Let_def)

lemma length_unlink [simp]: "length (unlink b bs) = length bs"
  by (simp add: unlink_def Let_def)

lemma length_push_front [simp]: "length (push_front b bs) = length bs"
  by (simp add: push_front_def Let_def)

lemma HEAD_NBUF: "HEAD = NBUF"
  by (simp add: HEAD_def)

lemma ring_facts:
  assumes "ring bs xs"
  shows "length bs = NBUF + 1" "distinct xs" "HEAD \<notin> set xs" "length xs = NBUF"
    "b \<in> set xs \<longleftrightarrow> b < NBUF" "linked (nexts bs) (prevs bs) (HEAD # xs @ [HEAD])"
proof -
  show "length bs = NBUF + 1" "distinct xs" "linked (nexts bs) (prevs bs) (HEAD # xs @ [HEAD])"
    using assms by (simp_all add: ring_def)
  show "HEAD \<notin> set xs" "b \<in> set xs \<longleftrightarrow> b < NBUF" using assms by (auto simp: ring_def HEAD_def)
  show "length xs = NBUF" using assms distinct_card [of xs] by (simp add: ring_def)
qed

lemma nexts_unlink:
  assumes "nexts bs b < length bs" and "prevs bs b < length bs" and "nexts bs b \<noteq> b"
  shows "nexts (unlink b bs) = (nexts bs)(prevs bs b := nexts bs b)"
    and "prevs (unlink b bs) = (prevs bs)(nexts bs b := prevs bs b)"
proof -
  have l: "link_upd (nexts bs b) (b_prev_update (\<lambda>_. prevs bs b)) bs ! b = bs ! b"
    using assms(3) by (simp add: nth_link_upd)
  have "unlink b bs = link_upd (prevs bs b) (b_next_update (\<lambda>_. nexts bs b))
      (link_upd (nexts bs b) (b_prev_update (\<lambda>_. prevs bs b)) bs)"
    using l by (simp add: unlink_def Let_def nexts_def prevs_def)
  then show "nexts (unlink b bs) = (nexts bs)(prevs bs b := nexts bs b)"
    "prevs (unlink b bs) = (prevs bs)(nexts bs b := prevs bs b)"
    using assms by (simp_all add: nexts_upd)
qed

lemma nexts_push_front:
  assumes "b < length bs" and "HEAD < length bs" and "b \<noteq> HEAD" and "nexts bs HEAD < length bs"
  shows "nexts (push_front b bs) = (nexts bs)(b := nexts bs HEAD, HEAD := b)"
    and "prevs (push_front b bs) = (prevs bs)(b := HEAD, nexts bs HEAD := b)"
proof -
  let ?b1 = "link_upd b (b_prev_update (\<lambda>_. HEAD)) (link_upd b (b_next_update (\<lambda>_. nexts bs HEAD)) bs)"
  have "b_next (?b1 ! HEAD) = nexts bs HEAD" using assms(3) by (simp add: nth_link_upd nexts_def)
  then have "push_front b bs = link_upd HEAD (b_next_update (\<lambda>_. b))
      (link_upd (nexts bs HEAD) (b_prev_update (\<lambda>_. b)) ?b1)"
    by (simp add: push_front_def Let_def nexts_def)
  then show "nexts (push_front b bs) = (nexts bs)(b := nexts bs HEAD, HEAD := b)"
    "prevs (push_front b bs) = (prevs bs)(b := HEAD, nexts bs HEAD := b)"
    using assms by (simp_all add: nexts_upd fun_upd_twist)
qed

text \<open>Releasing a buffer for good moves it to the front.\<close>

lemma ring_move:
  assumes "ring bs xs" and "b < NBUF"
  shows "ring (push_front b (unlink b bs)) (b # remove1 b xs)"
proof -
  note rf = ring_facts [OF assms(1)]
  obtain us vs where sp: "xs = us @ b # vs" using assms(2) rf(5) split_list by metis
  have d: "distinct (us @ b # vs)" "HEAD \<notin> set (us @ b # vs)" using rf(2,3) sp by simp_all
  have rm: "remove1 b xs = us @ vs" using d sp by (simp add: remove1_append)
  have lk: "linked (nexts bs) (prevs bs) (HEAD # us @ b # vs @ [HEAD])" using rf(6) sp by simp
  define n where "n = hd (vs @ [HEAD])"
  define p where "p = last (HEAD # us)"
  have nR: "vs @ [HEAD] = n # tl (vs @ [HEAD])" by (simp add: n_def)
  have Lp: "HEAD # us = butlast (HEAD # us) @ [p]" by (simp add: p_def)
  have "linked (nexts bs) (prevs bs) ((HEAD # us) @ b # n # tl (vs @ [HEAD]))"
    using lk nR by (metis append_Cons)
  then have nb: "nexts bs b = n" by (rule linked_step [THEN conjunct1])
  have "linked (nexts bs) (prevs bs) (butlast (HEAD # us) @ p # b # vs @ [HEAD])"
    using lk Lp by (metis append.assoc append_Cons append_Nil)
  then have pb: "prevs bs b = p" using linked_step by blast
  have ins: "n \<in> insert HEAD (set vs)" "p \<in> insert HEAD (set us)"
    by (cases vs; simp add: n_def) (cases us; simp add: p_def)
  have lens: "n < length bs" "p < length bs" "n \<noteq> b"
    using ins rf(1,5) sp d HEAD_NBUF by (force, force, auto)
  have l1: "linked (nexts (unlink b bs)) (prevs (unlink b bs)) (HEAD # (us @ vs) @ [HEAD])"
    using unlink_linked [OF lk d] nexts_unlink [of bs b] nb pb lens by simp
  have h: "nexts (unlink b bs) HEAD < length (unlink b bs)"
  proof -
    have "nexts (unlink b bs) HEAD = hd ((us @ vs) @ [HEAD])" using l1 by (cases "us @ vs") auto
    moreover have "hd ((us @ vs) @ [HEAD]) \<in> insert HEAD (set xs)" using sp by (cases us; cases vs) auto
    ultimately show ?thesis using rf(1,5) HEAD_NBUF by force
  qed
  have bn: "b \<noteq> HEAD" "b \<notin> set (us @ vs)" "HEAD \<notin> set (us @ vs)" "distinct (us @ vs)" using d by auto
  have "linked (nexts (push_front b (unlink b bs))) (prevs (push_front b (unlink b bs))) (HEAD # b # (us @ vs) @ [HEAD])"
    using push_linked [OF l1 bn(2,1,3,4)] nexts_push_front [of b "unlink b bs"] h bn(1) assms(2) rf(1) HEAD_NBUF by simp
  then show ?thesis using rf assms(1) rm sp by (auto simp: ring_def)
qed

lemma find_block_linked:
  assumes "linked (nexts bs) pv (ys @ [HEAD])" and "HEAD \<notin> set ys" and "length ys \<le> n"
  shows "find_block n bs (hd (ys @ [HEAD])) dev blk
     = Some (List.find (\<lambda>b. b_dev (bs ! b) = dev \<and> b_blockno (bs ! b) = blk) ys)"
  using assms
proof (induction ys arbitrary: n)
  case Nil then show ?case by (cases n) simp_all
next
  case (Cons y ys)
  obtain m where n: "n = Suc m" using Cons.prems(3) by (cases n) auto
  have nx: "b_next (bs ! y) = hd (ys @ [HEAD])" "linked (nexts bs) pv (ys @ [HEAD])"
    using Cons.prems(1) by (cases ys; simp add: nexts_def) (cases ys; use Cons.prems(1) in simp)
  have "find_block m bs (hd (ys @ [HEAD])) dev blk
      = Some (List.find (\<lambda>b. b_dev (bs ! b) = dev \<and> b_blockno (bs ! b) = blk) ys)"
    by (rule Cons.IH [OF nx(2)]) (use Cons.prems n in auto)
  moreover have "y \<noteq> HEAD" using Cons.prems(2) by auto
  ultimately show ?case unfolding n using nx(1) by simp
qed

lemma find_unused_linked:
  assumes "linked nx (prevs bs) (HEAD # ys)" and "HEAD \<notin> set ys" and "length ys \<le> n"
  shows "find_unused n bs (last (HEAD # ys))
     = Some (List.find (\<lambda>b. b_refcnt (bs ! b) = 0 \<and> \<not> b_dirty (bs ! b)) (rev ys))"
  using assms
proof (induction ys arbitrary: n rule: rev_induct)
  case Nil then show ?case by (cases n) simp_all
next
  case (snoc y ys)
  obtain m where n: "n = Suc m" using snoc.prems(3) by (cases n) auto
  define L where "L = butlast (HEAD # ys)"
  define p where "p = last (HEAD # ys)"
  have Lp: "HEAD # ys = L @ [p]" by (simp add: p_def L_def)
  have "linked nx (prevs bs) (L @ p # y # [])" using snoc.prems(1) Lp
    by (metis append.assoc append_Cons append_Nil)
  then have st: "b_prev (bs ! y) = p" "linked nx (prevs bs) (HEAD # ys)"
    using linked_step [of nx "prevs bs" L p y "[]"] linked_append [of nx "prevs bs" L p "[y]"] Lp
    by (auto simp: prevs_def)
  have "find_unused m bs (last (HEAD # ys))
      = Some (List.find (\<lambda>b. b_refcnt (bs ! b) = 0 \<and> \<not> b_dirty (bs ! b)) (rev ys))"
    by (rule snoc.IH [OF st(2)]) (use snoc.prems n in auto)
  moreover have "y \<noteq> HEAD" using snoc.prems(2) by auto
  ultimately show ?case unfolding n using st(1) p_def by simp
qed

lemma init_buf_nexts:
  assumes "b < length bs" and "HEAD < length bs" and "b \<noteq> HEAD" and "nexts bs HEAD < length bs"
  shows "nexts (init_buf b bs) = (nexts bs)(b := nexts bs HEAD, HEAD := b)"
    and "prevs (init_buf b bs) = (prevs bs)(b := HEAD, nexts bs HEAD := b)"
proof -
  let ?l = "link_upd b (b_lock_update (\<lambda>_. initsleeplock)) bs"
  have l: "nexts ?l = nexts bs" "prevs ?l = prevs bs"
    by (auto simp: nexts_def prevs_def nth_link_upd fun_eq_iff)
  show "nexts (init_buf b bs) = (nexts bs)(b := nexts bs HEAD, HEAD := b)"
    "prevs (init_buf b bs) = (prevs bs)(b := HEAD, nexts bs HEAD := b)"
    using nexts_push_front [of b ?l] l assms by (simp_all add: init_buf_def)
qed

lemma length_init_buf [simp]: "length (init_buf b bs) = length bs"
  by (simp add: init_buf_def)

lemma binit_linked:
  assumes "length bs = NBUF + 1" and "nexts bs HEAD = HEAD" and "prevs bs HEAD = HEAD" and "k \<le> NBUF"
  shows "length (fold init_buf [0 ..< k] bs) = NBUF + 1
    \<and> linked (nexts (fold init_buf [0 ..< k] bs)) (prevs (fold init_buf [0 ..< k] bs)) (HEAD # rev [0 ..< k] @ [HEAD])"
  using assms(4)
proof (induction k)
  case 0 then show ?case using assms by simp
next
  case (Suc k)
  let ?bs = "fold init_buf [0 ..< k] bs"
  have len: "length ?bs = NBUF + 1" and lk: "linked (nexts ?bs) (prevs ?bs) (HEAD # rev [0 ..< k] @ [HEAD])"
    using Suc by simp_all
  have "nexts ?bs HEAD = hd (rev [0 ..< k] @ [HEAD])" using lk by (cases "rev [0 ..< k]") auto
  then have h: "nexts ?bs HEAD < length ?bs" using Suc.prems len HEAD_NBUF by (cases k) auto
  have nh: "k \<noteq> HEAD" "k < length ?bs" "HEAD < length ?bs" using Suc.prems len HEAD_NBUF by simp_all
  have "linked (nexts (init_buf k ?bs)) (prevs (init_buf k ?bs)) (HEAD # k # rev [0 ..< k] @ [HEAD])"
    using push_linked [OF lk, of k] init_buf_nexts [OF nh(2,3,1) h] nh Suc.prems HEAD_NBUF by simp
  then show ?case using len by simp
qed

lemma binit_ring:
  assumes "length (bcache s) = NBUF + 1"
  shows "ring (bcache (binit s)) (rev [0 ..< NBUF])"
proof -
  let ?bs = "link_upd HEAD (b_next_update (\<lambda>_. HEAD)) (link_upd HEAD (b_prev_update (\<lambda>_. HEAD)) (bcache s))"
  have "nexts ?bs HEAD = HEAD" "prevs ?bs HEAD = HEAD"
    using assms by (simp_all add: nexts_def prevs_def nth_link_upd HEAD_def)
  then show ?thesis using binit_linked [of ?bs NBUF] assms by (simp add: binit_def Let_def ring_def atLeast0LessThan)
qed

section \<open>Consistent caches\<close>

text \<open>
  \<open>cache_ok s B\<close>: the running process holds the buffers in \<open>B\<close> and nobody else holds one; no block
  of the disk is cached twice; a clean buffer that nobody holds agrees with the disk.
\<close>

definition cur_pid :: "'a kbase_scheme \<Rightarrow> int" where
  "cur_pid s = p_pid (the_proc s (the (curproc s)))"

definition buf_ok :: "'a kbio_scheme \<Rightarrow> nat set \<Rightarrow> nat \<Rightarrow> bool" where
  "buf_ok s B b \<longleftrightarrow>
     (b \<in> B \<longrightarrow> b_lock (the_buf s b) = \<lparr>sl_locked = True, sl_pid = cur_pid s\<rparr> \<and> b_refcnt (the_buf s b) = 1
        \<and> b_valid (the_buf s b) \<and> b_dev (the_buf s b) = 1)
     \<and> (b \<notin> B \<longrightarrow> \<not> sl_locked (b_lock (the_buf s b)) \<and> b_refcnt (the_buf s b) = 0
        \<and> (b_valid (the_buf s b) \<and> \<not> b_dirty (the_buf s b) \<and> b_dev (the_buf s b) = 1
             \<longrightarrow> b_data (the_buf s b) = memdisk s (b_blockno (the_buf s b))))
     \<and> (b_dirty (the_buf s b) \<longrightarrow> b_valid (the_buf s b) \<and> b_dev (the_buf s b) = 1)
     \<and> (b_dev (the_buf s b) = 1 \<longrightarrow> b_blockno (the_buf s b) < disksize s)"

definition caches :: "'a kbio_scheme \<Rightarrow> nat \<Rightarrow> nat \<Rightarrow> bool" where
  "caches s b bno \<longleftrightarrow> b < NBUF \<and> b_dev (the_buf s b) = 1 \<and> b_blockno (the_buf s b) = bno"

definition cache_ok :: "'a kbio_scheme \<Rightarrow> nat set \<Rightarrow> bool" where
  "cache_ok s B \<longleftrightarrow> (\<exists>xs. ring (bcache s) xs) \<and> B \<subseteq> {..< NBUF} \<and> (\<forall>b < NBUF. buf_ok s B b)
     \<and> (\<forall>b c bno. caches s b bno \<and> caches s c bno \<longrightarrow> b = c)"

text \<open>What a reader of the block gets: the cached data if there is any, else the disk's.\<close>

definition view :: "'a kbio_scheme \<Rightarrow> nat \<Rightarrow> bytes" where
  "view s bno =
     (case List.find (\<lambda>b. caches s b bno \<and> b_valid (the_buf s b)) [0 ..< NBUF] of
        None \<Rightarrow> memdisk s bno | Some b \<Rightarrow> b_data (the_buf s b))"

definition dirty_blocks :: "'a kbio_scheme \<Rightarrow> nat set" where
  "dirty_blocks s = {bno. \<exists>b. caches s b bno \<and> b_dirty (the_buf s b)}"

lemma cache_okD:
  assumes "cache_ok s B"
  shows "\<exists>xs. ring (bcache s) xs" "B \<subseteq> {..< NBUF}" "b < NBUF \<Longrightarrow> buf_ok s B b"
    "caches s b bno \<Longrightarrow> caches s c bno \<Longrightarrow> b = c"
  using assms unfolding cache_ok_def by blast+

lemma cache_ok_length: "cache_ok s B \<Longrightarrow> length (bcache s) = NBUF + 1"
  using cache_okD(1) ring_facts(1) by blast

lemma view_cached:
  assumes "cache_ok s B" and "caches s b bno" and "b_valid (the_buf s b)"
  shows "view s bno = b_data (the_buf s b)"
proof -
  have "b < NBUF" using assms(2) by (simp add: caches_def)
  then obtain c where c: "List.find (\<lambda>b. caches s b bno \<and> b_valid (the_buf s b)) [0 ..< NBUF] = Some c"
    using assms(2,3) find_None_iff [of "\<lambda>b. caches s b bno \<and> b_valid (the_buf s b)" "[0 ..< NBUF]"]
    by (cases "List.find (\<lambda>b. caches s b bno \<and> b_valid (the_buf s b)) [0 ..< NBUF]") auto
  then have "caches s c bno" by (auto simp: find_Some_iff)
  then have "c = b" using cache_okD(4) [OF assms(1)] assms(2) by blast
  with c show ?thesis by (simp add: view_def)
qed

lemma view_uncached:
  assumes "\<And>b. caches s b bno \<Longrightarrow> \<not> b_valid (the_buf s b)"
  shows "view s bno = memdisk s bno"
proof -
  have "List.find (\<lambda>b. caches s b bno \<and> b_valid (the_buf s b)) [0 ..< NBUF] = None"
    using assms by (auto simp: find_None_iff)
  then show ?thesis by (simp add: view_def)
qed

text \<open>A block with no dirty buffer that somebody holds reads as on the disk.\<close>

lemma view_clean:
  assumes "cache_ok s B" and "bno \<notin> dirty_blocks s" and "\<And>b. b \<in> B \<Longrightarrow> \<not> caches s b bno"
  shows "view s bno = memdisk s bno"
proof (cases "\<exists>b. caches s b bno \<and> b_valid (the_buf s b)")
  case True
  then obtain b where b: "caches s b bno" "b_valid (the_buf s b)" by blast
  then have "buf_ok s B b" "b \<notin> B" "\<not> b_dirty (the_buf s b)"
    using cache_okD(3) [OF assms(1), of b] assms(2,3) by (auto simp: caches_def dirty_blocks_def)
  then have "b_data (the_buf s b) = memdisk s bno" using b by (auto simp: buf_ok_def caches_def)
  then show ?thesis using view_cached [OF assms(1) b] by simp
next
  case False
  then show ?thesis using view_uncached by blast
qed

section \<open>Buffer locks\<close>

lemma held_nil: "held s = [] \<Longrightarrow> s\<lparr>held := []\<rparr> = s"
  by (cases s) simp

lemma upd_buf_sel [simp]:
  "held (upd_buf b f s) = held s" "curproc (upd_buf b f s) = curproc s" "ptable (upd_buf b f s) = ptable s"
  "bcache (upd_buf b f s) = (bcache s)[b := f (bcache s ! b)]" "memdisk (upd_buf b f s) = memdisk s"
  "disksize (upd_buf b f s) = disksize s" "dwrites (upd_buf b f s) = dwrites s"
  by (simp_all add: upd_buf_def)

lemma upd_buf_held: "upd_buf b f (s\<lparr>held := h\<rparr>) = (upd_buf b f s)\<lparr>held := h\<rparr>"
  by (simp add: upd_buf_def)

lemma acquire_buf_lock:
  assumes "held s = []" and "curproc s = Some p" and "\<not> sl_locked (b_lock (the_buf s b))"
  shows "acquiresleep (ChBufLock b) (buf_lock b) (set_buf_lock b) s
    = Ok () (set_buf_lock b \<lparr>sl_locked = True, sl_pid = cur_pid s\<rparr> s)"
  using assms
  by (simp add: acquiresleep_def acquiresleep_test_def acquire_Ok release_Ok upd_buf_held cur_pid_def held_nil)

lemma holding_buf_lock:
  assumes "held s = []" and "curproc s = Some p"
  shows "holdingsleep (ChBufLock b) (buf_lock b) s
    = Ok (sl_locked (b_lock (the_buf s b)) \<and> sl_pid (b_lock (the_buf s b)) = cur_pid s) s"
  using assms by (simp add: holdingsleep_def acquire_Ok release_Ok cur_pid_def held_nil)

lemma wakeup1_held: "wakeup1 c (s\<lparr>held := h\<rparr>) = (wakeup1 c s)\<lparr>held := h\<rparr>"
  by (simp add: wakeup1_def)

lemma release_buf_lock:
  assumes "held s = []"
  shows "releasesleep (ChBufLock b) (set_buf_lock b) s
    = Ok () (wakeup1 (ChBufLock b) (set_buf_lock b \<lparr>sl_locked = False, sl_pid = 0\<rparr> s))"
  using assms
  by (simp add: releasesleep_def acquire_Ok wakeup_Ok release_Ok upd_buf_held wakeup1_held held_nil)

section \<open>Reading a block\<close>

definition got :: "'a kbio_scheme \<Rightarrow> buf \<Rightarrow> buf" where
  "got s x = x\<lparr>b_refcnt := 1, b_lock := \<lparr>sl_locked = True, sl_pid = cur_pid s\<rparr>\<rparr>"

text \<open>\<open>bget\<close> finds the block in a buffer that nobody holds, or takes over an unused buffer.\<close>

lemma ring_find_block:
  assumes "ring bs xs"
  shows "find_block NBUF bs (b_next (bs ! HEAD)) dev blk
     = Some (List.find (\<lambda>b. b_dev (bs ! b) = dev \<and> b_blockno (bs ! b) = blk) xs)"
proof -
  note rf = ring_facts [OF assms]
  have lk: "linked (nexts bs) (prevs bs) (xs @ [HEAD])" "b_next (bs ! HEAD) = hd (xs @ [HEAD])"
    using rf(6) by (cases xs; simp add: nexts_def) (cases xs; use rf(6) in \<open>simp add: nexts_def\<close>)
  show ?thesis unfolding lk(2) by (rule find_block_linked [OF lk(1) rf(3)]) (simp add: rf(4))
qed

lemma ring_find_unused:
  assumes "ring bs xs"
  shows "find_unused NBUF bs (b_prev (bs ! HEAD))
     = Some (List.find (\<lambda>b. b_refcnt (bs ! b) = 0 \<and> \<not> b_dirty (bs ! b)) (rev xs))"
proof -
  note rf = ring_facts [OF assms]
  have Lp: "HEAD # xs = butlast (HEAD # xs) @ [last (HEAD # xs)]" by simp
  have "linked (nexts bs) (prevs bs) (butlast (HEAD # xs) @ last (HEAD # xs) # HEAD # [])"
    using rf(6) Lp by (metis append.assoc append_Cons append_Nil)
  then have lk: "linked (nexts bs) (prevs bs) (HEAD # xs)" "b_prev (bs ! HEAD) = last (HEAD # xs)"
    using linked_step [of "nexts bs" "prevs bs" "butlast (HEAD # xs)" "last (HEAD # xs)" HEAD "[]"]
      linked_append [of "nexts bs" "prevs bs" "butlast (HEAD # xs)" "last (HEAD # xs)" "[HEAD]"] Lp
    by (auto simp: prevs_def)
  show ?thesis unfolding lk(2) by (rule find_unused_linked [OF lk(1) rf(3)]) (simp add: rf(4))
qed

lemma bget_cached:
  assumes "cache_ok s B" and "held s = []" and "curproc s = Some p" and "caches s b bno" and "b \<notin> B"
  shows "bget 1 bno s = Ok b (upd_buf b (got s) s)"
proof -
  obtain xs where r: "ring (bcache s) xs" using cache_okD(1) [OF assms(1)] by blast
  have b: "b < NBUF" using assms(4) by (simp add: caches_def)
  have fb: "List.find (\<lambda>b. b_dev (bcache s ! b) = 1 \<and> b_blockno (bcache s ! b) = bno) xs = Some b"
  proof (cases "List.find (\<lambda>b. b_dev (bcache s ! b) = 1 \<and> b_blockno (bcache s ! b) = bno) xs")
    case None
    then show ?thesis using assms(4) ring_facts(5) [OF r] by (auto simp: find_None_iff caches_def)
  next
    case (Some c)
    then have "c \<in> set xs" "b_dev (bcache s ! c) = 1" "b_blockno (bcache s ! c) = bno"
      by (auto simp: find_Some_iff)
    then have "caches s c bno" using ring_facts(5) [OF r] by (simp add: caches_def)
    then show ?thesis using cache_okD(4) [OF assms(1,4)] Some by simp
  qed
  have bo: "\<not> sl_locked (b_lock (the_buf s b))" "b_refcnt (the_buf s b) = 0"
    using cache_okD(3) [OF assms(1) b] assms(5) by (simp_all add: buf_ok_def)
  let ?s1 = "upd_buf b (\<lambda>x. x\<lparr>b_refcnt := b_refcnt x + 1\<rparr>) s"
  have len: "b < length (bcache s)" using b cache_ok_length [OF assms(1)] by simp
  have a: "acquiresleep (ChBufLock b) (buf_lock b) (set_buf_lock b) ?s1
      = Ok () (set_buf_lock b \<lparr>sl_locked = True, sl_pid = cur_pid ?s1\<rparr> ?s1)"
    by (rule acquire_buf_lock) (use assms bo len in auto)
  have e: "set_buf_lock b \<lparr>sl_locked = True, sl_pid = cur_pid ?s1\<rparr> ?s1 = upd_buf b (got s) s"
    using bo len by (simp add: upd_buf_def got_def cur_pid_def)
  show ?thesis using assms(2) fb a e
    by (simp add: bget_def acquire_Ok release_Ok ring_find_block [OF r] upd_buf_held held_nil)
qed

lemma bget_recycled:
  assumes "cache_ok s B" and "held s = []" and "curproc s = Some p" and "\<And>b. \<not> caches s b bno"
    and "ring (bcache s) xs"
    and "List.find (\<lambda>b. b_refcnt (the_buf s b) = 0 \<and> \<not> b_dirty (the_buf s b)) (rev xs) = Some b"
  shows "bget 1 bno s = Ok b (upd_buf b (\<lambda>x. got s (x\<lparr>b_dev := 1, b_blockno := bno, b_valid := False, b_dirty := False\<rparr>)) s)"
proof -
  have fb: "List.find (\<lambda>b. b_dev (bcache s ! b) = 1 \<and> b_blockno (bcache s ! b) = bno) xs = None"
    using assms(4) ring_facts(5) [OF assms(5)] by (auto simp: find_None_iff caches_def)
  have bx: "b \<in> set xs" "b_refcnt (the_buf s b) = 0" "\<not> b_dirty (the_buf s b)"
    using assms(6) unfolding find_Some_iff by (metis length_rev nth_mem set_rev)+
  have b: "b < NBUF" using bx(1) ring_facts(5) [OF assms(5)] by simp
  then have len: "b < length (bcache s)" using cache_ok_length [OF assms(1)] by simp
  have bo: "\<not> sl_locked (b_lock (the_buf s b))"
    using cache_okD(3) [OF assms(1) b] bx(2) by (cases "b \<in> B") (auto simp: buf_ok_def)
  let ?s1 = "upd_buf b (\<lambda>x. x\<lparr>b_dev := 1, b_blockno := bno, b_valid := False, b_dirty := False, b_refcnt := 1\<rparr>) s"
  have a: "acquiresleep (ChBufLock b) (buf_lock b) (set_buf_lock b) ?s1
      = Ok () (set_buf_lock b \<lparr>sl_locked = True, sl_pid = cur_pid ?s1\<rparr> ?s1)"
    by (rule acquire_buf_lock) (use assms bo len in auto)
  have e: "set_buf_lock b \<lparr>sl_locked = True, sl_pid = cur_pid ?s1\<rparr> ?s1
      = upd_buf b (\<lambda>x. got s (x\<lparr>b_dev := 1, b_blockno := bno, b_valid := False, b_dirty := False\<rparr>)) s"
    using bx(3) len by (simp add: upd_buf_def got_def cur_pid_def)
  show ?thesis using assms(2) fb a e assms(6)
    by (simp add: bget_def acquire_Ok release_Ok ring_find_block [OF assms(5)] ring_find_unused [OF assms(5)]
        upd_buf_held held_nil)
qed

lemma bread_after_bget:
  assumes "bget 1 bno s = Ok b (upd_buf b (\<lambda>_. x) s)" and "held s = []" and "curproc s = Some p"
    and "b < length (bcache s)" and "b_lock x = \<lparr>sl_locked = True, sl_pid = cur_pid s\<rparr>"
    and "b_dev x = 1" and "b_blockno x = bno" and "bno < disksize s" and "b_dirty x \<Longrightarrow> b_valid x"
  shows "bread 1 bno s = Ok b (upd_buf b (\<lambda>_. if b_valid x then x else x\<lparr>b_data := memdisk s bno, b_valid := True\<rparr>) s)"
proof (cases "b_valid x")
  case True
  then show ?thesis using assms(1,4) by (simp add: bread_def)
next
  case False
  let ?s1 = "upd_buf b (\<lambda>_. x) s"
  have cp: "cur_pid ?s1 = cur_pid s" by (simp add: cur_pid_def)
  have h: "holdingsleep (ChBufLock b) (buf_lock b) ?s1 = Ok True ?s1"
    using holding_buf_lock [of ?s1 p b] assms cp by simp
  have "\<not> b_dirty x" using False assms(9) by blast
  then have "iderw b ?s1 = Ok () (upd_buf b (\<lambda>_. x\<lparr>b_data := memdisk s bno, b_valid := True\<rparr>) s)"
    using h assms(4-8) False by (simp add: iderw_def upd_buf_def)
  then show ?thesis using False assms(1,4) by (simp add: bread_def)
qed

lemma nexts_upd_buf:
  assumes "b_next x = b_next (bs ! b)" and "b_prev x = b_prev (bs ! b)"
  shows "nexts (bs[b := x]) = nexts bs" and "prevs (bs[b := x]) = prevs bs"
  using assms by (auto simp: nexts_def prevs_def fun_eq_iff)
    (metis list_update_beyond not_le nth_list_update_eq nth_list_update_neq)+

lemma ring_upd_buf:
  assumes "ring bs xs" and "b_next x = b_next (bs ! b)" and "b_prev x = b_prev (bs ! b)"
  shows "ring (bs[b := x]) xs"
  using assms nexts_upd_buf [OF assms(2,3)] by (simp add: ring_def)

lemma caches_upd:
  assumes "b < length (bcache s)"
  shows "caches (upd_buf b (\<lambda>_. x) s) c bno \<longleftrightarrow>
    (if c = b then b < NBUF \<and> b_dev x = 1 \<and> b_blockno x = bno else caches s c bno)"
  using assms by (auto simp: caches_def)

lemma cache_ok_take:
  assumes ok: "cache_ok s B" and b: "b < NBUF"
    and x: "b_lock x = \<lparr>sl_locked = True, sl_pid = cur_pid s\<rparr>" "b_refcnt x = 1" "b_valid x" "b_dev x = 1"
      "b_blockno x < disksize s" "b_next x = b_next (the_buf s b)" "b_prev x = b_prev (the_buf s b)"
    and uq: "\<And>c. caches s c (b_blockno x) \<Longrightarrow> c = b"
  shows "cache_ok (upd_buf b (\<lambda>_. x) s) (insert b B)"
proof -
  let ?t = "upd_buf b (\<lambda>_. x) s"
  have len: "b < length (bcache s)" using b cache_ok_length [OF ok] by simp
  obtain xs where "ring (bcache s) xs" using cache_okD(1) [OF ok] by blast
  then have "ring (bcache ?t) xs" using ring_upd_buf [OF _ x(6,7)] by simp
  moreover have "insert b B \<subseteq> {..< NBUF}" using cache_okD(2) [OF ok] b by auto
  moreover have "buf_ok ?t (insert b B) c" if "c < NBUF" for c
  proof (cases "c = b")
    case True then show ?thesis using x(1-5) len by (simp add: buf_ok_def cur_pid_def)
  next
    case False
    then have "the_buf ?t c = the_buf s c" by simp
    then show ?thesis using cache_okD(3) [OF ok that] False by (simp add: buf_ok_def cur_pid_def)
  qed
  moreover have "c = d" if "caches ?t c bno" "caches ?t d bno" for c d bno
    using that cache_okD(4) [OF ok, of c bno d] uq unfolding caches_upd [OF len] by (metis (full_types))
  ultimately show ?thesis unfolding cache_ok_def by blast
qed

lemma view_eqI:
  assumes "cache_ok t B'"
    and "\<And>b. caches t b bno \<Longrightarrow> b_valid (the_buf t b) \<Longrightarrow> b_data (the_buf t b) = v"
    and "(\<And>b. caches t b bno \<Longrightarrow> \<not> b_valid (the_buf t b)) \<Longrightarrow> memdisk t bno = v"
  shows "view t bno = v"
  using assms view_cached view_uncached by metis

text \<open>Taking a buffer over for a block does not change what anybody reads.\<close>

lemma view_take:
  assumes ok: "cache_ok s B" and ok': "cache_ok (upd_buf b (\<lambda>_. x) s) B'" and b: "b < NBUF" "b \<notin> B"
    and x: "b_valid x" "b_dev x = 1" "b_data x = view s (b_blockno x)"
    and old: "caches s b (b_blockno x) \<or> \<not> b_dirty (the_buf s b)"
  shows "view (upd_buf b (\<lambda>_. x) s) bno = view s bno"
proof (rule view_eqI [OF ok'])
  let ?t = "upd_buf b (\<lambda>_. x) s"
  have len: "b < length (bcache s)" using b cache_ok_length [OF ok] by simp
  note cu = caches_upd [OF len]
  fix c assume c: "caches ?t c bno" "b_valid (the_buf ?t c)"
  show "b_data (the_buf ?t c) = view s bno"
  proof (cases "c = b")
    case True then show ?thesis using c x cu len by simp
  next
    case False
    then show ?thesis using c cu view_cached [OF ok, of c bno] by simp
  qed
next
  let ?t = "upd_buf b (\<lambda>_. x) s"
  have len: "b < length (bcache s)" using b cache_ok_length [OF ok] by simp
  note cu = caches_upd [OF len]
  assume none: "\<And>c. caches ?t c bno \<Longrightarrow> \<not> b_valid (the_buf ?t c)"
  have "view s bno = memdisk s bno"
  proof (cases "\<exists>c. caches s c bno \<and> b_valid (the_buf s c)")
    case True
    then obtain c where c: "caches s c bno" "b_valid (the_buf s c)" by blast
    then have "c = b" using none cu by (metis nth_list_update_neq upd_buf_sel(4))
    moreover have "b_blockno x \<noteq> bno" using none [of b] cu len x(1,2) b(1) by auto
    ultimately have "\<not> b_dirty (the_buf s b)" "b_dev (the_buf s b) = 1" "b_blockno (the_buf s b) = bno"
      using old c by (auto simp: caches_def)
    then show ?thesis using cache_okD(3) [OF ok b(1)] b(2) c \<open>c = b\<close> view_cached [OF ok c]
      by (auto simp: buf_ok_def)
  next
    case False then show ?thesis using view_uncached by blast
  qed
  then show "memdisk ?t bno = view s bno" by simp
qed

lemma dirty_take:
  assumes "b < NBUF" and "b < length (bcache s)" and "b_dev x = 1"
    and "b_dirty x \<longleftrightarrow> caches s b (b_blockno x) \<and> b_dirty (the_buf s b)"
    and "caches s b (b_blockno x) \<or> \<not> b_dirty (the_buf s b)"
  shows "dirty_blocks (upd_buf b (\<lambda>_. x) s) = dirty_blocks s"
proof -
  have "caches (upd_buf b (\<lambda>_. x) s) c bno \<and> b_dirty (the_buf (upd_buf b (\<lambda>_. x) s) c)
      \<longleftrightarrow> caches s c bno \<and> b_dirty (the_buf s c)" for c bno
  proof (cases "c = b")
    case True
    have "b_blockno x = bno \<and> b_dirty x \<longleftrightarrow> caches s b bno \<and> b_dirty (the_buf s b)"
      using assms(4,5) unfolding caches_def by metis
    then show ?thesis using True caches_upd [OF assms(2)] assms(1-3) by simp
  next
    case False
    then show ?thesis using caches_upd [OF assms(2)] by simp
  qed
  then show ?thesis by (simp add: dirty_blocks_def)
qed

text \<open>There is a buffer to recycle unless every one is dirty or held.\<close>

lemma free_buffer:
  assumes ok: "cache_ok s B" and "card (dirty_blocks s) + card B < NBUF" and "finite (dirty_blocks s)"
  shows "\<exists>b < NBUF. b_refcnt (the_buf s b) = 0 \<and> \<not> b_dirty (the_buf s b)"
proof (rule ccontr)
  assume no: "\<not> (\<exists>b < NBUF. b_refcnt (the_buf s b) = 0 \<and> \<not> b_dirty (the_buf s b))"
  let ?D = "{b. b < NBUF \<and> b_dirty (the_buf s b)}"
  have dv: "caches s b (b_blockno (the_buf s b))" if "b \<in> ?D" for b
    using that cache_okD(3) [OF ok, of b] unfolding buf_ok_def caches_def by blast
  have sub: "{..< NBUF} \<subseteq> ?D \<union> B"
  proof
    fix b assume "b \<in> {..< NBUF}"
    then show "b \<in> ?D \<union> B" using no cache_okD(3) [OF ok, of b] unfolding buf_ok_def by blast
  qed
  have inj: "inj_on (\<lambda>b. b_blockno (the_buf s b)) ?D"
  proof (rule inj_onI)
    fix b c assume bc: "b \<in> ?D" "c \<in> ?D" "b_blockno (the_buf s b) = b_blockno (the_buf s c)"
    then have "caches s b (b_blockno (the_buf s b))" "caches s c (b_blockno (the_buf s b))"
      using dv [of b] dv [of c] by simp_all
    then show "b = c" using cache_okD(4) [OF ok] by blast
  qed
  have "(\<lambda>b. b_blockno (the_buf s b)) ` ?D \<subseteq> dirty_blocks s"
    using dv unfolding dirty_blocks_def by blast
  from card_inj_on_le [OF inj this assms(3)] have "card ?D \<le> card (dirty_blocks s)" .
  moreover have "finite (?D \<union> B)" using cache_okD(2) [OF ok] finite_subset [of B "{..< NBUF}"] by simp
  from card_mono [OF this sub] have "NBUF \<le> card ?D + card B" using card_Un_le [of ?D B] by simp
  ultimately show False using assms(2) by simp
qed

lemma finite_dirty [simp]: "finite (dirty_blocks s)"
proof -
  have "dirty_blocks s \<subseteq> (\<lambda>b. b_blockno (the_buf s b)) ` {..< NBUF}"
    by (auto simp: dirty_blocks_def caches_def)
  then show ?thesis using finite_subset by blast
qed

text \<open>
  What \<open>bget\<close> delivers: a buffer for the block, held by this process, with the block's content if it
  is valid. The block was in this buffer, or nowhere, and then the buffer's old content is on the disk.
\<close>

definition only_in :: "'a kbio_scheme \<Rightarrow> nat \<Rightarrow> nat \<Rightarrow> bool" where
  "only_in s bno b \<longleftrightarrow> (\<forall>c. caches s c bno \<longrightarrow> c = b)"

definition gotten :: "'a kbio_scheme \<Rightarrow> nat set \<Rightarrow> nat \<Rightarrow> nat \<Rightarrow> buf \<Rightarrow> bool" where
  "gotten s B bno b x \<longleftrightarrow> b < NBUF \<and> b \<notin> B
     \<and> b_lock x = \<lparr>sl_locked = True, sl_pid = cur_pid s\<rparr> \<and> b_refcnt x = 1 \<and> b_dev x = 1 \<and> b_blockno x = bno
     \<and> b_next x = b_next (the_buf s b) \<and> b_prev x = b_prev (the_buf s b)
     \<and> (b_valid x \<longrightarrow> b_data x = view s bno) \<and> (\<not> b_valid x \<longrightarrow> view s bno = memdisk s bno)
     \<and> (b_dirty x \<longrightarrow> b_valid x) \<and> (b_dirty x \<longleftrightarrow> caches s b bno \<and> b_dirty (the_buf s b))
     \<and> (caches s b bno \<or> \<not> b_dirty (the_buf s b)) \<and> only_in s bno b"

lemma gotten_cached:
  assumes ok: "cache_ok s B" and c: "caches s b bno" and b: "b \<notin> B"
  shows "gotten s B bno b (got s (the_buf s b))"
proof -
  have n: "b < NBUF" "b_dev (the_buf s b) = 1" "b_blockno (the_buf s b) = bno" using c by (auto simp: caches_def)
  have bo: "b_dirty (the_buf s b) \<longrightarrow> b_valid (the_buf s b)"
    using cache_okD(3) [OF ok n(1)] unfolding buf_ok_def by blast
  have uc: "only_in s bno b" using cache_okD(4) [OF ok c] unfolding only_in_def by blast
  have v1: "b_valid (the_buf s b) \<longrightarrow> b_data (the_buf s b) = view s bno" using view_cached [OF ok c] by simp
  have v2: "\<not> b_valid (the_buf s b) \<longrightarrow> view s bno = memdisk s bno"
    using uc view_uncached [of s bno] unfolding only_in_def by blast
  show ?thesis unfolding gotten_def got_def using n b bo uc v1 v2 c by simp
qed

lemma gotten_recycled:
  assumes ok: "cache_ok s B" and c: "\<And>b. \<not> caches s b bno" and f: "f < NBUF" "b_refcnt (the_buf s f) = 0"
    "\<not> b_dirty (the_buf s f)"
  shows "gotten s B bno f (got s (the_buf s f\<lparr>b_dev := 1, b_blockno := bno, b_valid := False, b_dirty := False\<rparr>))"
proof -
  have "f \<notin> B" using cache_okD(3) [OF ok f(1)] f(2) unfolding buf_ok_def by auto
  moreover have "view s bno = memdisk s bno" using c view_uncached by blast
  moreover have "only_in s bno f" using c by (simp add: only_in_def)
  ultimately show ?thesis unfolding gotten_def got_def using f c by simp
qed

lemma bget_spec:
  assumes ok: "cache_ok s B" and env: "held s = []" "curproc s = Some p"
    and fresh: "\<And>b. b \<in> B \<Longrightarrow> \<not> caches s b bno" and room: "(\<exists>b. caches s b bno) \<or> card (dirty_blocks s) + card B < NBUF"
  obtains b x where "bget 1 bno s = Ok b (upd_buf b (\<lambda>_. x) s)" "gotten s B bno b x"
proof (cases "\<exists>b. caches s b bno")
  case True
  then obtain b where c: "caches s b bno" by blast
  then have b: "b \<notin> B" using fresh by blast
  have "bget 1 bno s = Ok b (upd_buf b (\<lambda>_. got s (the_buf s b)) s)"
    using bget_cached [OF ok env c b] by (simp add: upd_buf_def)
  then show thesis using that gotten_cached [OF ok c b] by blast
next
  case False
  obtain xs where r: "ring (bcache s) xs" using cache_okD(1) [OF ok] by blast
  let ?P = "\<lambda>b. b_refcnt (the_buf s b) = 0 \<and> \<not> b_dirty (the_buf s b)"
  obtain b where "b < NBUF" "?P b" using free_buffer [OF ok _ finite_dirty] room False by blast
  then have "List.find ?P (rev xs) \<noteq> None" using ring_facts(5) [OF r, of b] by (simp add: find_None_iff) blast
  then obtain f where f: "List.find ?P (rev xs) = Some f" by blast
  then have fx: "f \<in> set xs" "?P f" unfolding find_Some_iff by (metis length_rev nth_mem set_rev)+
  then have fb: "f < NBUF" using ring_facts(5) [OF r] by simp
  have "bget 1 bno s = Ok f (upd_buf f (\<lambda>_. got s (the_buf s f\<lparr>b_dev := 1, b_blockno := bno, b_valid := False, b_dirty := False\<rparr>)) s)"
    using bget_recycled [OF ok env _ r f, of bno] False by (simp add: upd_buf_def)
  moreover have "gotten s B bno f (got s (the_buf s f\<lparr>b_dev := 1, b_blockno := bno, b_valid := False, b_dirty := False\<rparr>))"
    by (rule gotten_recycled [OF ok _ fb]) (use False fx(2) in blast)+
  ultimately show thesis by (rule that)
qed

text \<open>
  \<open>bread\<close> of a block that this process does not hold, with a buffer to spare: it returns the block's
  content in a buffer that is now held, and nothing anybody reads has changed.
\<close>

lemma bread_spec:
  assumes ok: "cache_ok s B" and env: "held s = []" "curproc s = Some p" and bno: "bno < disksize s"
    and fresh: "\<And>b. b \<in> B \<Longrightarrow> \<not> caches s b bno" and room: "(\<exists>b. caches s b bno) \<or> card (dirty_blocks s) + card B < NBUF"
  obtains b x where "bread 1 bno s = Ok b (upd_buf b (\<lambda>_. x) s)" "b < NBUF" "b \<notin> B"
    "b_blockno x = bno" "b_data x = view s bno" "b_dirty x \<longleftrightarrow> bno \<in> dirty_blocks s"
    "cache_ok (upd_buf b (\<lambda>_. x) s) (insert b B)" "view (upd_buf b (\<lambda>_. x) s) = view s"
    "dirty_blocks (upd_buf b (\<lambda>_. x) s) = dirty_blocks s"
proof -
  obtain b x where g: "bget 1 bno s = Ok b (upd_buf b (\<lambda>_. x) s)" and gx: "gotten s B bno b x"
    by (rule bget_spec [OF ok env fresh room])
  note gd = gx [unfolded gotten_def]
  define y where "y = (if b_valid x then x else x\<lparr>b_data := memdisk s bno, b_valid := True\<rparr>)"
  have y: "b_lock y = \<lparr>sl_locked = True, sl_pid = cur_pid s\<rparr>" "b_refcnt y = 1" "b_valid y" "b_dev y = 1"
    "b_blockno y = bno" "b_next y = b_next (the_buf s b)" "b_prev y = b_prev (the_buf s b)"
    "b_data y = view s bno" "b_dirty y = b_dirty x"
    using gd by (simp_all add: y_def)
  have b: "b < NBUF" "b \<notin> B" using gd by simp_all
  have len: "b < length (bcache s)" using b cache_ok_length [OF ok] by simp
  have br: "bread 1 bno s = Ok b (upd_buf b (\<lambda>_. y) s)"
    unfolding y_def by (rule bread_after_bget [OF g env len _ _ _ bno]) (use gd in simp_all)
  have ok': "cache_ok (upd_buf b (\<lambda>_. y) s) (insert b B)"
    by (rule cache_ok_take [OF ok b(1) y(1-4) _ y(6,7)])
      (use y(5) bno in simp, use y(5) gd in \<open>unfold only_in_def, blast\<close>)
  have vw: "view (upd_buf b (\<lambda>_. y) s) = view s"
    by (rule ext, rule view_take [OF ok ok' b y(3,4)]) (use y gd in simp_all)
  have dd: "dirty_blocks (upd_buf b (\<lambda>_. y) s) = dirty_blocks s"
    by (rule dirty_take [OF b(1) len y(4)]) (use y gd in simp_all)
  have "b_dirty y \<longleftrightarrow> bno \<in> dirty_blocks s" using gd y(9) unfolding dirty_blocks_def only_in_def by blast
  then show thesis using that [OF br b y(5,8) _ ok' vw dd] by simp
qed

section \<open>What the operations leave alone\<close>

definition fs_frame :: "'a kbio_scheme \<Rightarrow> 'a kbio_scheme \<Rightarrow> bool" where
  "fs_frame s t \<longleftrightarrow> (\<exists>bs ps md dw. t = s\<lparr>bcache := bs, ptable := ps, memdisk := md, dwrites := dw\<rparr>)
     \<and> cur_pid t = cur_pid s \<and> length (ptable t) = length (ptable s)"

text \<open>A kernel path in a process, with no spin lock held.\<close>

definition fs_env :: "'a kbase_scheme \<Rightarrow> bool" where
  "fs_env s \<longleftrightarrow> held s = [] \<and> (\<exists>p. curproc s = Some p \<and> p < length (ptable s))"

lemma fs_frame_refl [simp]: "fs_frame s s"
  unfolding fs_frame_def by (intro conjI exI [of _ "bcache s"] exI [of _ "ptable s"] exI [of _ "memdisk s"]
    exI [of _ "dwrites s"]) simp_all

lemma fs_frame_trans: "fs_frame s t \<Longrightarrow> fs_frame t u \<Longrightarrow> fs_frame s u"
  unfolding fs_frame_def by fastforce

lemma fs_frame_sel:
  assumes "fs_frame s t"
  shows "held t = held s" "curproc t = curproc s" "disksize t = disksize s" "cur_pid t = cur_pid s"
    "length (ptable t) = length (ptable s)"
  using assms by (auto simp: fs_frame_def)

lemma fs_env_frame: "fs_frame s t \<Longrightarrow> fs_env s \<Longrightarrow> fs_env t"
  using fs_frame_sel [of s t] by (simp add: fs_env_def)

lemma fs_frame_upd_buf [simp]: "fs_frame s (upd_buf b f s)"
  unfolding fs_frame_def upd_buf_def
  by (intro conjI exI [of _ "(bcache s)[b := f (bcache s ! b)]"] exI [of _ "ptable s"] exI [of _ "memdisk s"]
    exI [of _ "dwrites s"]) (simp_all add: cur_pid_def)

section \<open>Changing a held buffer\<close>

text \<open>A buffer in \<open>B\<close> gets new content but keeps its block, its lock and its links.\<close>

lemma cache_ok_edit:
  assumes ok: "cache_ok s B" and b: "b \<in> B"
    and x: "b_lock x = b_lock (the_buf s b)" "b_refcnt x = b_refcnt (the_buf s b)" "b_valid x"
      "b_dev x = b_dev (the_buf s b)" "b_blockno x = b_blockno (the_buf s b)"
      "b_next x = b_next (the_buf s b)" "b_prev x = b_prev (the_buf s b)"
  shows "cache_ok (upd_buf b (\<lambda>_. x) s) B"
proof -
  have n: "b < NBUF" using cache_okD(2) [OF ok] b by auto
  have bo: "buf_ok s B b" using cache_okD(3) [OF ok n] .
  have "cache_ok (upd_buf b (\<lambda>_. x) s) (insert b B)"
  proof (rule cache_ok_take [OF ok n])
    show "c = b" if "caches s c (b_blockno x)" for c
      using that cache_okD(4) [OF ok, of c "b_blockno x" b] bo b n x(5) by (simp add: caches_def buf_ok_def)
  qed (use bo b x in \<open>auto simp: buf_ok_def\<close>)
  moreover have "insert b B = B" using b by blast
  ultimately show ?thesis by simp
qed

lemma view_edit:
  assumes ok: "cache_ok s B" and ok': "cache_ok (upd_buf b (\<lambda>_. x) s) B" and b: "b \<in> B" "caches s b bno"
    and x: "b_valid x" "b_dev x = 1" "b_blockno x = bno"
  shows "view (upd_buf b (\<lambda>_. x) s) = (view s)(bno := b_data x)"
proof
  fix k
  let ?t = "upd_buf b (\<lambda>_. x) s"
  have n: "b < NBUF" using b by (simp add: caches_def)
  have len: "b < length (bcache s)" using n cache_ok_length [OF ok] by simp
  note cu = caches_upd [OF len]
  show "view ?t k = ((view s)(bno := b_data x)) k"
  proof (cases "k = bno")
    case True
    have "caches ?t b bno" using cu n x by simp
    then show ?thesis using True view_cached [OF ok'] x(1) len by simp
  next
    case False
    have same: "caches ?t c k \<longleftrightarrow> caches s c k" for c
      using cu False x(3) b(2) by (auto simp: caches_def)
    have nb: "c \<noteq> b" if "caches s c k" for c using that b(2) False by (auto simp: caches_def)
    have "view ?t k = view s k"
    proof (rule view_eqI [OF ok'])
      show "b_data (the_buf ?t c) = view s k" if "caches ?t c k" "b_valid (the_buf ?t c)" for c
      proof -
        have c: "caches s c k" using that(1) same by simp
        have "the_buf ?t c = the_buf s c" using nb [OF c] by simp
        then show ?thesis using view_cached [OF ok c] that(2) by simp
      qed
      show "memdisk ?t k = view s k" if inv: "\<And>c. caches ?t c k \<Longrightarrow> \<not> b_valid (the_buf ?t c)"
      proof -
        have "\<not> b_valid (the_buf s c)" if c: "caches s c k" for c
        proof -
          have "the_buf ?t c = the_buf s c" using nb [OF c] by simp
          then show ?thesis using inv [of c] same [of c] c by simp
        qed
        then show ?thesis using view_uncached [of s k] by simp
      qed
    qed
    with False show ?thesis by simp
  qed
qed

lemma dirty_edit:
  assumes "b < length (bcache s)" and "caches s b bno" and "b_dev x = 1" and "b_blockno x = bno"
    and "\<And>c. caches s c bno \<Longrightarrow> c = b"
  shows "dirty_blocks (upd_buf b (\<lambda>_. x) s)
    = (if b_dirty x then insert bno (dirty_blocks s) else dirty_blocks s - {bno})"
proof -
  let ?t = "upd_buf b (\<lambda>_. x) s"
  have n: "b < NBUF" using assms(2) by (simp add: caches_def)
  have at_b: "caches ?t b k \<longleftrightarrow> k = bno" for k using caches_upd [OF assms(1)] n assms(3,4) by auto
  have off: "caches ?t c k \<longleftrightarrow> caches s c k \<and> k \<noteq> bno" if "c \<noteq> b" for c k
    using caches_upd [OF assms(1)] that assms(5) by auto
  have s_b: "caches s b k \<longleftrightarrow> k = bno" for k using assms(2) by (auto simp: caches_def)
  have d: "b_dirty (the_buf ?t c) \<longleftrightarrow> (if c = b then b_dirty x else b_dirty (the_buf s c))" for c
    using assms(1) by simp
  show ?thesis
  proof (rule set_eqI)
    fix k
    have "k \<in> dirty_blocks ?t \<longleftrightarrow> (caches ?t b k \<and> b_dirty x) \<or> (\<exists>c. c \<noteq> b \<and> caches ?t c k \<and> b_dirty (the_buf s c))"
      unfolding dirty_blocks_def mem_Collect_eq d by metis
    also have "\<dots> \<longleftrightarrow> (k = bno \<and> b_dirty x) \<or> (k \<noteq> bno \<and> (\<exists>c. c \<noteq> b \<and> caches s c k \<and> b_dirty (the_buf s c)))"
      using off unfolding at_b by metis
    also have "\<dots> \<longleftrightarrow> (k = bno \<and> b_dirty x) \<or> (k \<noteq> bno \<and> k \<in> dirty_blocks s)"
      unfolding dirty_blocks_def mem_Collect_eq using s_b by metis
    also have "\<dots> \<longleftrightarrow> k \<in> (if b_dirty x then insert bno (dirty_blocks s) else dirty_blocks s - {bno})"
      by (cases "b_dirty x") auto
    finally show "k \<in> dirty_blocks ?t \<longleftrightarrow> k \<in> (if b_dirty x then insert bno (dirty_blocks s) else dirty_blocks s - {bno})" .
  qed
qed

section \<open>The operations as steps\<close>

lemma bread_step:
  assumes "cache_ok s B" and "held s = []" "curproc s = Some p" and "bno < disksize s"
    and "\<And>b. b \<in> B \<Longrightarrow> \<not> caches s b bno" and "(\<exists>b. caches s b bno) \<or> card (dirty_blocks s) + card B < NBUF"
  obtains b t where "bread 1 bno s = Ok b t" "fs_frame s t" "b < NBUF" "b \<notin> B" "caches t b bno"
    "b_data (the_buf t b) = view s bno" "b_dirty (the_buf t b) \<longleftrightarrow> bno \<in> dirty_blocks s"
    "cache_ok t (insert b B)" "view t = view s" "dirty_blocks t = dirty_blocks s" "memdisk t = memdisk s"
    "dwrites t = dwrites s" "\<And>c. c \<noteq> b \<Longrightarrow> the_buf t c = the_buf s c"
proof -
  obtain b x where r: "bread 1 bno s = Ok b (upd_buf b (\<lambda>_. x) s)" "b < NBUF" "b \<notin> B"
    "b_blockno x = bno" "b_data x = view s bno" "b_dirty x \<longleftrightarrow> bno \<in> dirty_blocks s"
    "cache_ok (upd_buf b (\<lambda>_. x) s) (insert b B)" "view (upd_buf b (\<lambda>_. x) s) = view s"
    "dirty_blocks (upd_buf b (\<lambda>_. x) s) = dirty_blocks s"
    by (rule bread_spec [OF assms])
  have len: "b < length (bcache s)" using r(2) cache_ok_length [OF assms(1)] by simp
  have tb: "the_buf (upd_buf b (\<lambda>_. x) s) b = x" using len by simp
  have "b_dev x = 1" using cache_okD(3) [OF r(7,2)] tb by (simp add: buf_ok_def)
  then have "caches (upd_buf b (\<lambda>_. x) s) b bno" using tb r(2,4) by (simp add: caches_def)
  then show thesis using that [OF r(1) fs_frame_upd_buf r(2,3) _ _ _ r(7-9)] r(5,6) tb by simp
qed

text \<open>Writing to the data of a held buffer.\<close>

lemma set_data_step:
  assumes ok: "cache_ok s B" and b: "b \<in> B" "caches s b bno"
  shows "fs_frame s (set_data b d s)" "cache_ok (set_data b d s) B" "view (set_data b d s) = (view s)(bno := d)"
    "dirty_blocks (set_data b d s) = dirty_blocks s" "memdisk (set_data b d s) = memdisk s"
    "dwrites (set_data b d s) = dwrites s" "c \<noteq> b \<Longrightarrow> the_buf (set_data b d s) c = the_buf s c"
    "the_buf (set_data b d s) b = the_buf s b\<lparr>b_data := d\<rparr>"
proof -
  have n: "b < NBUF" "b_dev (the_buf s b) = 1" "b_blockno (the_buf s b) = bno" using b(2) by (auto simp: caches_def)
  have len: "b < length (bcache s)" using n cache_ok_length [OF ok] by simp
  have v: "b_valid (the_buf s b)" using cache_okD(3) [OF ok n(1)] b(1) by (simp add: buf_ok_def)
  let ?x = "the_buf s b\<lparr>b_data := d\<rparr>"
  have sd: "set_data b d s = upd_buf b (\<lambda>_. ?x) s" by (simp add: set_data_def upd_buf_def)
  show "fs_frame s (set_data b d s)" by (simp add: sd)
  have ok': "cache_ok (upd_buf b (\<lambda>_. ?x) s) B" by (rule cache_ok_edit [OF ok b(1)]) (simp_all add: v)
  then show "cache_ok (set_data b d s) B" by (simp add: sd)
  show "view (set_data b d s) = (view s)(bno := d)"
    using view_edit [OF ok ok' b] v n by (simp add: sd)
  have "dirty_blocks (upd_buf b (\<lambda>_. ?x) s) = dirty_blocks s"
    by (rule dirty_take [OF n(1) len]) (use n b(2) in simp_all)
  then show "dirty_blocks (set_data b d s) = dirty_blocks s" by (simp add: sd)
  show "memdisk (set_data b d s) = memdisk s" "dwrites (set_data b d s) = dwrites s" by (simp_all add: sd)
  show "the_buf (set_data b d s) c = the_buf s c" if "c \<noteq> b" using that by (simp add: sd)
  show "the_buf (set_data b d s) b = the_buf s b\<lparr>b_data := d\<rparr>" using len by (simp add: sd)
qed

lemma memdisk_cong:
  assumes "cache_ok s B" and "b \<in> B" and "caches s b bno"
  shows "cache_ok (s\<lparr>memdisk := (memdisk s)(bno := d), dwrites := w\<rparr>) B"
    and "view (s\<lparr>memdisk := (memdisk s)(bno := d), dwrites := w\<rparr>) = view s"
proof -
  let ?t = "s\<lparr>memdisk := (memdisk s)(bno := d), dwrites := w\<rparr>"
  have cs: "caches ?t = caches s" by (auto simp: caches_def fun_eq_iff)
  have nb: "b_blockno (the_buf s c) \<noteq> bno" if "c < NBUF" "c \<notin> B" "b_dev (the_buf s c) = 1" for c
    using that assms(2) cache_okD(4) [OF assms(1,3), of c] by (auto simp: caches_def)
  have "buf_ok ?t B c" if "c < NBUF" for c
    using cache_okD(3) [OF assms(1) that] nb [OF that] by (auto simp: buf_ok_def cur_pid_def)
  then show ok: "cache_ok ?t B" using assms(1) unfolding cache_ok_def cs by simp
  have v: "b_valid (the_buf s b)" using assms cache_okD(3) [OF assms(1), of b] by (simp add: caches_def buf_ok_def)
  show "view ?t = view s"
  proof
    fix k
    have "List.find (\<lambda>b. caches s b k \<and> b_valid (the_buf s b)) [0 ..< NBUF] \<noteq> None" if "k = bno"
      using assms(3) v that by (auto simp: find_None_iff caches_def)
    then show "view ?t k = view s k" by (auto simp: view_def cs split: option.split)
  qed
qed

lemma bwrite_step:
  assumes ok: "cache_ok s B" and env: "held s = []" "curproc s = Some p" and b: "b \<in> B" "caches s b bno"
  obtains t where "bwrite b s = Ok () t" "fs_frame s t" "cache_ok t B" "view t = view s"
    "dirty_blocks t = dirty_blocks s - {bno}" "memdisk t = (memdisk s)(bno := b_data (the_buf s b))"
    "dwrites t = (bno, b_data (the_buf s b)) # dwrites s" "\<And>c. c \<noteq> b \<Longrightarrow> the_buf t c = the_buf s c"
    "the_buf t b = the_buf s b\<lparr>b_dirty := False\<rparr>"
proof -
  have n: "b < NBUF" "b_dev (the_buf s b) = 1" "b_blockno (the_buf s b) = bno" using b(2) by (auto simp: caches_def)
  have len: "b < length (bcache s)" using n cache_ok_length [OF ok] by simp
  have bo: "b_valid (the_buf s b)" "b_lock (the_buf s b) = \<lparr>sl_locked = True, sl_pid = cur_pid s\<rparr>" "bno < disksize s"
    using cache_okD(3) [OF ok n(1)] b(1) n by (auto simp: buf_ok_def)
  let ?x = "the_buf s b\<lparr>b_dirty := False\<rparr>"
  let ?d = "b_data (the_buf s b)"
  let ?m = "s\<lparr>memdisk := (memdisk s)(bno := ?d), dwrites := (bno, ?d) # dwrites s\<rparr>"
  let ?t = "upd_buf b (\<lambda>_. ?x) ?m"
  let ?s1 = "upd_buf b (b_dirty_update (\<lambda>_. True)) s"
  have h: "holdingsleep (ChBufLock b) (buf_lock b) s = Ok True s" using holding_buf_lock [OF env] bo by simp
  have h1: "holdingsleep (ChBufLock b) (buf_lock b) ?s1 = Ok True ?s1"
    using holding_buf_lock [of ?s1 p b] env bo len by (simp add: cur_pid_def)
  have xe: "the_buf s b\<lparr>b_dirty := False, b_valid := True\<rparr> = ?x" using bo(1) by (cases "the_buf s b") simp
  have s1: "the_buf ?s1 b = the_buf s b\<lparr>b_dirty := True\<rparr>" using len by simp
  have "iderw b ?s1 = Ok () (upd_buf b (\<lambda>x. x\<lparr>b_dirty := False, b_valid := True\<rparr>)
      (?s1\<lparr>memdisk := (memdisk ?s1)(bno := ?d), dwrites := (bno, ?d) # dwrites ?s1\<rparr>))"
    unfolding iderw_def h1 kbind.simps s1 using n bo(1,3) by simp
  also have "upd_buf b (\<lambda>x. x\<lparr>b_dirty := False, b_valid := True\<rparr>)
      (?s1\<lparr>memdisk := (memdisk ?s1)(bno := ?d), dwrites := (bno, ?d) # dwrites ?s1\<rparr>) = ?t"
    unfolding upd_buf_def using xe len by simp
  finally have w: "bwrite b s = Ok () ?t" by (simp add: bwrite_def h)
  have okm: "cache_ok ?m B" "view ?m = view s" using memdisk_cong [OF ok b] by blast+
  have cm: "caches ?m b bno" using b(2) by (simp add: caches_def)
  have ok': "cache_ok ?t B" by (rule cache_ok_edit [OF okm(1) b(1)]) (simp_all add: bo)
  have vt: "view ?t = view s"
    using view_edit [OF okm(1) ok' b(1) cm] bo n okm(2) view_cached [OF ok b(2) bo(1)] by (simp add: fun_upd_idem)
  have "dirty_blocks ?t = (if b_dirty ?x then insert bno (dirty_blocks ?m) else dirty_blocks ?m - {bno})"
  proof (rule dirty_edit [OF _ cm])
    show "c = b" if "caches ?m c bno" for c by (rule cache_okD(4) [OF okm(1) that cm])
  qed (use len n in simp_all)
  then have dt: "dirty_blocks ?t = dirty_blocks s - {bno}" by (simp add: dirty_blocks_def caches_def)
  have fr: "fs_frame s ?t"
    unfolding fs_frame_def upd_buf_def
    by (intro conjI exI [of _ "(bcache s)[b := ?x]"] exI [of _ "ptable s"] exI [of _ "(memdisk s)(bno := ?d)"]
      exI [of _ "(bno, ?d) # dwrites s"]) (simp_all add: cur_pid_def)
  show thesis using that [OF w fr ok' vt dt] len by simp
qed

text \<open>Marking a held buffer dirty, as \<open>log_write\<close> does.\<close>

lemma mark_dirty_step:
  assumes ok: "cache_ok s B" and b: "b \<in> B" "caches s b bno"
  shows "fs_frame s (upd_buf b (b_dirty_update (\<lambda>_. True)) s)"
    "cache_ok (upd_buf b (b_dirty_update (\<lambda>_. True)) s) B"
    "view (upd_buf b (b_dirty_update (\<lambda>_. True)) s) = view s"
    "dirty_blocks (upd_buf b (b_dirty_update (\<lambda>_. True)) s) = insert bno (dirty_blocks s)"
proof -
  have n: "b < NBUF" "b_dev (the_buf s b) = 1" "b_blockno (the_buf s b) = bno" using b(2) by (auto simp: caches_def)
  have len: "b < length (bcache s)" using n cache_ok_length [OF ok] by simp
  have v: "b_valid (the_buf s b)" using cache_okD(3) [OF ok n(1)] b(1) by (simp add: buf_ok_def)
  let ?x = "the_buf s b\<lparr>b_dirty := True\<rparr>"
  have e: "upd_buf b (b_dirty_update (\<lambda>_. True)) s = upd_buf b (\<lambda>_. ?x) s" by (simp add: upd_buf_def)
  show "fs_frame s (upd_buf b (b_dirty_update (\<lambda>_. True)) s)" by simp
  have ok': "cache_ok (upd_buf b (\<lambda>_. ?x) s) B" by (rule cache_ok_edit [OF ok b(1)]) (simp_all add: v)
  then show "cache_ok (upd_buf b (b_dirty_update (\<lambda>_. True)) s) B" by (simp add: e)
  show "view (upd_buf b (b_dirty_update (\<lambda>_. True)) s) = view s"
    using view_edit [OF ok ok' b] v n view_cached [OF ok b(2) v] by (simp add: e fun_upd_idem)
  have "dirty_blocks (upd_buf b (\<lambda>_. ?x) s) = (if b_dirty ?x then insert bno (dirty_blocks s) else dirty_blocks s - {bno})"
  proof (rule dirty_edit [OF len b(2)])
    show "c = b" if "caches s c bno" for c by (rule cache_okD(4) [OF ok that b(2)])
  qed (use n in simp_all)
  then show "dirty_blocks (upd_buf b (b_dirty_update (\<lambda>_. True)) s) = insert bno (dirty_blocks s)" by (simp add: e)
qed

text \<open>Releasing a buffer: its content stays readable, so it must be pinned or on the disk.\<close>

definition freed :: "buf \<Rightarrow> buf" where
  "freed x = x\<lparr>b_lock := \<lparr>sl_locked = False, sl_pid = 0\<rparr>, b_refcnt := 0\<rparr>"

lemma brelse_eq:
  assumes "held s = []" "curproc s = Some p" and "b < length (bcache s)" and "b_refcnt (the_buf s b) = 1"
    and "b_lock (the_buf s b) = \<lparr>sl_locked = True, sl_pid = cur_pid s\<rparr>"
  shows "brelse b s = Ok () (wakeup1 (ChBufLock b)
     (s\<lparr>bcache := push_front b (unlink b ((bcache s)[b := freed (the_buf s b)]))\<rparr>))"
proof -
  have h: "holdingsleep (ChBufLock b) (buf_lock b) s = Ok True s" using holding_buf_lock [OF assms(1,2)] assms(5) by simp
  let ?u = "wakeup1 (ChBufLock b) (set_buf_lock b \<lparr>sl_locked = False, sl_pid = 0\<rparr> s)"
  have wk: "bcache (wakeup1 c t) = bcache t" for c and t :: "'a kbio_scheme" by (simp add: wakeup1_def)
  have u: "upd_buf b (\<lambda>x. x\<lparr>b_refcnt := usub (b_refcnt x) 1\<rparr>) ?u
      = wakeup1 (ChBufLock b) (s\<lparr>bcache := (bcache s)[b := freed (the_buf s b)]\<rparr>)"
    using assms(3,4) by (simp add: upd_buf_def wakeup1_def freed_def usub_def)
  let ?W = "wakeup1 (ChBufLock b) (s\<lparr>bcache := (bcache s)[b := freed (the_buf s b)]\<rparr>)"
  have Wb: "bcache ?W = (bcache s)[b := freed (the_buf s b)]" "held ?W = []" "held ?u = []"
    using assms(1) by (simp_all add: wk)
  have r0: "b_refcnt (the_buf ?W b) = 0" using Wb(1) assms(3) by (simp add: freed_def)
  have a: "acquire BcacheLock ?u = Ok () (?u\<lparr>held := [BcacheLock]\<rparr>)" using Wb(3) by (simp add: acquire_Ok)
  let ?V = "?W\<lparr>bcache := push_front b (unlink b ((bcache s)[b := freed (the_buf s b)]))\<rparr>"
  let ?X = "push_front b (unlink b ((bcache s)[b := freed (the_buf s b)]))"
  have rl: "release BcacheLock (?W\<lparr>held := [BcacheLock], bcache := ?X\<rparr>) = Ok () ?V"
    using Wb(2) by (simp add: release_Ok held_nil)
  have "brelse b s = release BcacheLock (?W\<lparr>held := [BcacheLock], bcache := ?X\<rparr>)"
    unfolding brelse_def h kbind.simps release_buf_lock [OF assms(1)] a upd_buf_held u Let_def
    using r0 Wb(1) by simp
  also note rl
  also have "?V = wakeup1 (ChBufLock b) (s\<lparr>bcache := push_front b (unlink b ((bcache s)[b := freed (the_buf s b)]))\<rparr>)"
    by (simp add: wakeup1_def)
  finally show ?thesis .
qed

lemma brelse_step:
  assumes ok: "cache_ok s B" and env: "held s = []" "curproc s = Some p" "p < length (ptable s)"
    and b: "b \<in> B" "caches s b bno" and clean: "b_dirty (the_buf s b) \<or> b_data (the_buf s b) = memdisk s bno"
  obtains t where "brelse b s = Ok () t" "fs_frame s t" "cache_ok t (B - {b})" "view t = view s"
    "dirty_blocks t = dirty_blocks s" "memdisk t = memdisk s" "dwrites t = dwrites s"
    "\<And>c. c \<noteq> b \<Longrightarrow> strip (the_buf t c) = strip (the_buf s c)" "length (ptable t) = length (ptable s)"
proof -
  have n: "b < NBUF" "b_dev (the_buf s b) = 1" "b_blockno (the_buf s b) = bno" using b(2) by (auto simp: caches_def)
  have len: "b < length (bcache s)" using n cache_ok_length [OF ok] by simp
  have bo: "b_valid (the_buf s b)" "b_lock (the_buf s b) = \<lparr>sl_locked = True, sl_pid = cur_pid s\<rparr>"
    "b_refcnt (the_buf s b) = 1" "bno < disksize s"
    using cache_okD(3) [OF ok n(1)] b(1) n by (auto simp: buf_ok_def)
  define bs where "bs = push_front b (unlink b ((bcache s)[b := freed (the_buf s b)]))"
  let ?t = "wakeup1 (ChBufLock b) (s\<lparr>bcache := bs\<rparr>)"
  have r: "brelse b s = Ok () ?t" using brelse_eq [OF env(1,2) len bo(3,2)] by (simp add: bs_def)
  have tb: "bcache ?t = bs" "memdisk ?t = memdisk s" "dwrites ?t = dwrites s" "disksize ?t = disksize s"
    by (simp_all add: wakeup1_def)
  have cp: "cur_pid ?t = cur_pid s" using env by (simp add: cur_pid_def)
  have st: "strip (the_buf ?t c) = strip (if c = b then freed (the_buf s b) else the_buf s c)" for c
    using len tb by (simp add: bs_def)
  note sb = strip_eqD [OF st]
  have cs: "caches ?t = caches s" using sb n by (auto simp: caches_def fun_eq_iff freed_def)
  obtain xs where "ring (bcache s) xs" using cache_okD(1) [OF ok] by blast
  then have rg: "ring (bcache ?t) (b # remove1 b xs)"
    using ring_move [OF ring_upd_buf [of "bcache s" xs "freed (the_buf s b)" b] n(1)] tb by (simp add: bs_def freed_def)
  have bk: "buf_ok ?t (B - {b}) c" if "c < NBUF" for c
  proof (cases "c = b")
    case True then show ?thesis using sb n bo tb by (simp add: buf_ok_def freed_def) (use clean in blast)
  next
    case False then show ?thesis using cache_okD(3) [OF ok that] sb tb cp by (simp add: buf_ok_def)
  qed
  have ok': "cache_ok ?t (B - {b})"
    unfolding cache_ok_def cs using rg bk cache_okD(2,4) [OF ok] by blast
  have same: "b_valid (the_buf ?t c) = b_valid (the_buf s c)" "b_dirty (the_buf ?t c) = b_dirty (the_buf s c)"
    "b_data (the_buf ?t c) = b_data (the_buf s c)" for c by (simp_all only: sb) (simp_all add: freed_def)
  have v: "view ?t k = view s k" for k unfolding view_def cs same tb(2) ..
  have d: "dirty_blocks ?t = dirty_blocks s" unfolding dirty_blocks_def cs same ..
  have fr: "fs_frame s ?t"
    unfolding fs_frame_def using cp
    by (intro conjI exI [of _ bs] exI [of _ "map (wake_proc (ChBufLock b)) (ptable s)"] exI [of _ "memdisk s"]
      exI [of _ "dwrites s"]) (simp_all add: wakeup1_def)
  show thesis using that [OF r fr ok' _ d tb(2,3)] v st by (auto simp: fun_eq_iff)
qed

section \<open>A fresh cache\<close>

definition zero_buf :: buf where
  "zero_buf = \<lparr>b_valid = False, b_dirty = False, b_dev = 0, b_blockno = 0, b_lock = initsleeplock, b_refcnt = 0,
     b_prev = 0, b_next = 0, b_data = zero_bytes\<rparr>"

definition fresh_buf :: "buf \<Rightarrow> bool" where
  "fresh_buf x \<longleftrightarrow> \<not> b_valid x \<and> \<not> b_dirty x \<and> b_dev x = 0 \<and> b_refcnt x = 0 \<and> \<not> sl_locked (b_lock x)"

lemma fresh_strip: "fresh_buf (strip x) = fresh_buf x"
  by (simp add: fresh_buf_def)

lemma fresh_init_buf:
  assumes "\<And>j. j < length bs \<Longrightarrow> fresh_buf (bs ! j)" and "j < length bs"
  shows "fresh_buf (init_buf b bs ! j)"
proof -
  have "fresh_buf (link_upd b (b_lock_update (\<lambda>_. initsleeplock)) bs ! j)"
    using assms by (auto simp: nth_link_upd fresh_buf_def initsleeplock_def)
  then show ?thesis using fresh_strip strip_push_front unfolding init_buf_def by metis
qed

lemma fresh_fold_init:
  assumes "\<And>j. j < length bs \<Longrightarrow> fresh_buf (bs ! j)" and "j < length bs"
  shows "length (fold init_buf ks bs) = length bs \<and> fresh_buf (fold init_buf ks bs ! j)"
  using assms
proof (induction ks arbitrary: bs)
  case (Cons k ks)
  show ?case using Cons.IH [of "init_buf k bs"] Cons.prems fresh_init_buf by simp
qed simp

lemma binit_fresh:
  assumes "length (bcache s) = NBUF + 1" and "\<And>j. j < NBUF + 1 \<Longrightarrow> fresh_buf (bcache s ! j)" and "b < NBUF"
  shows "fresh_buf (the_buf (binit s) b)"
proof -
  let ?bs = "link_upd HEAD (b_next_update (\<lambda>_. HEAD)) (link_upd HEAD (b_prev_update (\<lambda>_. HEAD)) (bcache s))"
  have "fresh_buf (?bs ! j)" if "j < length ?bs" for j
    using assms that fresh_strip strip_link_upd by (metis link_upd_length)
  then show ?thesis using fresh_fold_init [of ?bs b] assms by (simp add: binit_def Let_def)
qed

lemma binit_cache_ok:
  assumes "length (bcache s) = NBUF + 1" and "\<And>j. j < NBUF + 1 \<Longrightarrow> fresh_buf (bcache s ! j)"
  shows "cache_ok (binit s) {}"
proof -
  have fr: "fresh_buf (the_buf (binit s) b)" if "b < NBUF" for b
    using binit_fresh [OF assms(1) _ that] assms(2) by blast
  have "buf_ok (binit s) {} b" if "b < NBUF" for b using fr [OF that] by (simp add: buf_ok_def fresh_buf_def)
  moreover have "\<not> caches (binit s) b bno" for b bno using fr [of b] by (auto simp: caches_def fresh_buf_def)
  ultimately show ?thesis unfolding cache_ok_def using binit_ring [OF assms(1)] by blast
qed

text \<open>A machine whose disk block \<open>n\<close> is filled with bytes \<open>n\<close>, after \<open>binit\<close>.\<close>

definition bio_zero :: kbio where
  "bio_zero = kbase.extend (boot_kbase\<lparr>ptable := [zero_proc], curproc := Some 0\<rparr>)
     \<lparr>mem = zero_bytes, freelist = 0, use_lock = False, kend = 0, kdata = 0,
      bcache = replicate (NBUF + 1) zero_buf, memdisk = (\<lambda>n i. of_nat n), disksize = 1000, dwrites = []\<rparr>"

definition bio_boot :: kbio where
  "bio_boot = binit bio_zero"

lemma bio_zero_fresh: "j < NBUF + 1 \<Longrightarrow> fresh_buf (bcache bio_zero ! j)" "length (bcache bio_zero) = NBUF + 1"
  by (simp_all add: bio_zero_def kbase.defs del: replicate.simps)
    (simp add: zero_buf_def fresh_buf_def initsleeplock_def)

lemma bio_boot_fresh: "b < NBUF \<Longrightarrow> fresh_buf (the_buf bio_boot b)"
  unfolding bio_boot_def by (rule binit_fresh) (use bio_zero_fresh in auto)

lemma bio_boot_ring: "ring (bcache bio_boot) (rev [0 ..< NBUF])"
  unfolding bio_boot_def by (rule binit_ring) (rule bio_zero_fresh)

lemma bio_boot_ok: "cache_ok bio_boot {}" "held bio_boot = []" "curproc bio_boot = Some 0" "disksize bio_boot = 1000"
  "dirty_blocks bio_boot = {}" "memdisk bio_boot = (\<lambda>n i. of_nat n)"
proof -
  show "cache_ok bio_boot {}" unfolding bio_boot_def by (rule binit_cache_ok) (use bio_zero_fresh in auto)
  show "held bio_boot = []" "curproc bio_boot = Some 0" "disksize bio_boot = 1000" "memdisk bio_boot = (\<lambda>n i. of_nat n)"
    by (simp_all add: bio_boot_def bio_zero_def binit_def Let_def kbase.defs boot_kbase_def)
  show "dirty_blocks bio_boot = {}" using bio_boot_fresh by (auto simp: dirty_blocks_def caches_def fresh_buf_def)
qed

lemma find_append: "List.find P xs = None \<Longrightarrow> List.find P (xs @ ys) = List.find P ys"
  by (induction xs) (auto split: if_splits)

text \<open>The same machine with block 7 read into buffer 0, which is held.\<close>

definition bio_one :: kbio where
  "bio_one = upd_buf 0 (\<lambda>x. x\<lparr>b_valid := True, b_dev := 1, b_blockno := 7, b_refcnt := 1,
     b_lock := \<lparr>sl_locked = True, sl_pid = cur_pid bio_boot\<rparr>\<rparr>) bio_boot"

lemma bio_one_buf:
  "the_buf bio_one 0 = the_buf bio_boot 0\<lparr>b_valid := True, b_dev := 1, b_blockno := 7, b_refcnt := 1,
     b_lock := \<lparr>sl_locked = True, sl_pid = cur_pid bio_boot\<rparr>\<rparr>"
  "b \<noteq> 0 \<Longrightarrow> the_buf bio_one b = the_buf bio_boot b"
  using cache_ok_length [OF bio_boot_ok(1)] by (simp_all add: bio_one_def)

lemma bio_one_ok: "cache_ok bio_one {0}" "held bio_one = []" "curproc bio_one = Some 0"
  "ring (bcache bio_one) (rev [2 ..< NBUF] @ 1 # [0])"
proof -
  have n: "(0::nat) < NBUF" by (simp add: NBUF_def MAXOPBLOCKS_def)
  have "\<not> caches bio_boot b bno" for b bno using bio_boot_fresh [of b] by (auto simp: caches_def fresh_buf_def)
  then have "cache_ok (upd_buf 0 (\<lambda>_. the_buf bio_one 0) bio_boot) (insert 0 {})"
    by (intro cache_ok_take [OF bio_boot_ok(1) n]) (simp_all add: bio_one_buf bio_boot_ok)
  then show "cache_ok bio_one {0}" by (simp add: bio_one_buf(1)) (simp add: bio_one_def upd_buf_def)
  show "held bio_one = []" "curproc bio_one = Some 0" using bio_boot_ok by (simp_all add: bio_one_def)
  have r: "rev [0 ..< NBUF] = rev [2 ..< NBUF] @ 1 # [0]"
    by (simp add: NBUF_def MAXOPBLOCKS_def upt_conv_Cons)
  show "ring (bcache bio_one) (rev [2 ..< NBUF] @ 1 # [0])"
    using ring_upd_buf [OF bio_boot_ring] unfolding r [symmetric] by (simp add: bio_one_def)
qed

section \<open>Properties\<close>

text \<open>
  C9: When the block is cached or a buffer is to spare, \<open>bread\<close> of a block that the process does not
  already hold returns: the
  buffer it delivers was free, holds the current content of the block (the cached one, else the
  disk's) and is now held by the process; the cache stays consistent, and what every block reads as
  and the disk are unchanged.
\<close>

theorem bread_correct:
  assumes "cache_ok s B" and "held s = []" and "curproc s = Some p" and "bno < disksize s"
    and "\<forall>b \<in> B. \<not> caches s b bno" and "(\<exists>b. caches s b bno) \<or> card (dirty_blocks s) + card B < NBUF"
  shows "\<exists>b t. bread 1 bno s = Ok b t \<and> b \<notin> B \<and> b_blockno (the_buf t b) = bno
    \<and> b_data (the_buf t b) = view s bno \<and> cache_ok t (insert b B) \<and> view t = view s \<and> memdisk t = memdisk s"
proof -
  obtain b t where "bread 1 bno s = Ok b t" "b \<notin> B" "caches t b bno" "b_data (the_buf t b) = view s bno"
    "cache_ok t (insert b B)" "view t = view s" "memdisk t = memdisk s"
    by (rule bread_step [OF assms(1-4)]) (use assms(5,6) in blast)+
  then show ?thesis by (auto simp: caches_def)
qed

theorem bread_correct_witness:
  "\<exists>b t. bread 1 7 bio_boot = Ok b t \<and> b_blockno (the_buf t b) = 7 \<and> b_data (the_buf t b) 0 = 7"
proof -
  have "\<exists>b t. bread 1 7 bio_boot = Ok b t \<and> b \<notin> {} \<and> b_blockno (the_buf t b) = 7
    \<and> b_data (the_buf t b) = view bio_boot 7 \<and> cache_ok t (insert b {}) \<and> view t = view bio_boot
    \<and> memdisk t = memdisk bio_boot"
    by (rule bread_correct [OF bio_boot_ok(1-3)]) (simp_all add: bio_boot_ok NBUF_def MAXOPBLOCKS_def)
  moreover have "view bio_boot 7 0 = 7"
    using view_clean [OF bio_boot_ok(1), of 7] bio_boot_ok by simp
  ultimately show ?thesis by (metis)
qed

text \<open>
  C10: A block that is not cached takes over the unused clean buffer that was released longest ago:
  the last one of the ring, behind which every buffer is in use or dirty. \<open>brelse\<close> of the last
  reference moves a buffer to the front of the ring and keeps the order of the others.
\<close>

theorem lru_recycling:
  assumes "cache_ok s B" and "held s = []" and "curproc s = Some p" and "ring (bcache s) (us @ f # vs)"
    and "\<forall>b. \<not> caches s b bno" and "b_refcnt (the_buf s f) = 0" and "\<not> b_dirty (the_buf s f)"
    and "\<forall>v \<in> set vs. b_refcnt (the_buf s v) \<noteq> 0 \<or> b_dirty (the_buf s v)"
  shows "(\<exists>t. bget 1 bno s = Ok f t \<and> ring (bcache t) (us @ f # vs))
    \<and> (\<forall>b \<in> B. \<exists>t. brelse b s = Ok () t \<and> ring (bcache t) (b # remove1 b (us @ f # vs)))"
proof -
  let ?P = "\<lambda>b. b_refcnt (the_buf s b) = 0 \<and> \<not> b_dirty (the_buf s b)"
  have "List.find ?P (rev vs) = None" using assms(8) by (auto simp: find_None_iff)
  then have fd: "List.find ?P (rev (us @ f # vs)) = Some f"
    using assms(6,7) by (simp add: find_append)
  have "ring ((bcache s)[f := got s (the_buf s f\<lparr>b_dev := 1, b_blockno := bno, b_valid := False, b_dirty := False\<rparr>)]) (us @ f # vs)"
    by (rule ring_upd_buf [OF assms(4)]) (simp_all add: got_def)
  then have g: "\<exists>t. bget 1 bno s = Ok f t \<and> ring (bcache t) (us @ f # vs)"
    using bget_recycled [OF assms(1-3) _ assms(4) fd] assms(5) by simp
  have "\<exists>t. brelse b s = Ok () t \<and> ring (bcache t) (b # remove1 b (us @ f # vs))" if b: "b \<in> B" for b
  proof -
    have n: "b < NBUF" "b < length (bcache s)" using cache_okD(2) [OF assms(1)] b cache_ok_length [OF assms(1)] by auto
    have bo: "b_lock (the_buf s b) = \<lparr>sl_locked = True, sl_pid = cur_pid s\<rparr>" "b_refcnt (the_buf s b) = 1"
      using cache_okD(3) [OF assms(1) n(1)] b by (simp_all add: buf_ok_def)
    have "ring (push_front b (unlink b ((bcache s)[b := freed (the_buf s b)]))) (b # remove1 b (us @ f # vs))"
      by (rule ring_move [OF ring_upd_buf [OF assms(4)] n(1)]) (simp_all add: freed_def)
    then show ?thesis using brelse_eq [OF assms(2,3) n(2) bo(2,1)] by (simp add: wakeup1_def)
  qed
  with g show ?thesis by blast
qed

theorem lru_recycling_witness:
  "(\<exists>t. bget 1 8 bio_one = Ok 1 t \<and> ring (bcache t) (rev [2 ..< NBUF] @ 1 # [0]))
    \<and> (\<exists>t. brelse 0 bio_one = Ok () t \<and> ring (bcache t) (0 # remove1 0 (rev [2 ..< NBUF] @ 1 # [0])))"
proof -
  have "\<not> caches bio_one b 8" for b
    using bio_boot_fresh [of b] bio_one_buf(1) bio_one_buf(2) [of b]
    by (cases "b = 0") (auto simp: caches_def fresh_buf_def)
  moreover have "fresh_buf (the_buf bio_one 1)"
    using bio_boot_fresh [of 1] bio_one_buf(2) [of 1] by (simp add: NBUF_def MAXOPBLOCKS_def)
  ultimately have "(\<exists>t. bget 1 8 bio_one = Ok 1 t \<and> ring (bcache t) (rev [2 ..< NBUF] @ 1 # [0]))
    \<and> (\<forall>b \<in> {0}. \<exists>t. brelse b bio_one = Ok () t \<and> ring (bcache t) (b # remove1 b (rev [2 ..< NBUF] @ 1 # [0])))"
    by (intro lru_recycling [OF bio_one_ok]) (simp_all add: fresh_buf_def bio_one_buf(1))
  then show ?thesis by simp
qed

end
