(* ===== verification/Log.thy ===== *)
theory Log
  imports Bio
begin

text \<open>
  The redo log (\<open>log.c\<close>): system calls bracket their block writes with \<open>begin_op\<close> and
  \<open>end_op\<close>, \<open>log_write\<close> records the blocks, the last \<open>end_op\<close> commits them, and \<open>initlog\<close>
  recovers after a crash. \<open>readsb\<close> of \<open>fs.c\<close> is here because \<open>initlog\<close> calls it.
\<close>

section \<open>Data\<close>

record superblock =
  sb_size :: nat
  sb_nblocks :: nat
  sb_ninodes :: nat
  sb_nlog :: nat
  sb_logstart :: nat
  sb_inodestart :: nat
  sb_bmapstart :: nat

record klog = kbio +
  log_start :: nat
  log_size :: int
  outstanding :: int
  committing :: bool
  log_dev :: nat
  lh_n :: int
  lh_block :: "nat list"

definition decode_sb :: "bytes \<Rightarrow> superblock" where
  "decode_sb d = \<lparr>sb_size = unat (get_uint d 0), sb_nblocks = unat (get_uint d 1),
     sb_ninodes = unat (get_uint d 2), sb_nlog = unat (get_uint d 3), sb_logstart = unat (get_uint d 4),
     sb_inodestart = unat (get_uint d 5), sb_bmapstart = unat (get_uint d 6)\<rparr>"

definition readsb :: "nat \<Rightarrow> 'a kbio_scheme \<Rightarrow> (superblock, 'a kbio_scheme) kres" where
  "readsb dev s =
     kbind (bread dev 1 s) (\<lambda>bp s.
       let sb = decode_sb (b_data (the_buf s bp))
       in kbind (brelse bp s) (\<lambda>_ s. Ok sb s))"

section \<open>Moving blocks\<close>

text \<open>
  \<open>install_trans\<close> copies the log blocks to their home locations, \<open>write_log\<close> the cached blocks
  into the log; both loop over \<open>tail\<close>, here with the number of rounds left.
\<close>

fun install_loop :: "nat \<Rightarrow> nat \<Rightarrow> 'a klog_scheme \<Rightarrow> (unit, 'a klog_scheme) kres" where
  "install_loop tail 0 s = Ok () s"
| "install_loop tail (Suc k) s =
     kbind (bread (log_dev s) (log_start s + tail + 1) s) (\<lambda>lbuf s.
     kbind (bread (log_dev s) (lh_block s ! tail) s) (\<lambda>dbuf s.
       let s = set_data dbuf (b_data (the_buf s lbuf)) s
       in kbind (bwrite dbuf s) (\<lambda>_ s.
          kbind (brelse lbuf s) (\<lambda>_ s.
          kbind (brelse dbuf s) (\<lambda>_ s. install_loop (tail + 1) k s)))))"

definition install_trans :: "'a klog_scheme \<Rightarrow> (unit, 'a klog_scheme) kres" where
  "install_trans s = install_loop 0 (nat (lh_n s)) s"

fun write_log_loop :: "nat \<Rightarrow> nat \<Rightarrow> 'a klog_scheme \<Rightarrow> (unit, 'a klog_scheme) kres" where
  "write_log_loop tail 0 s = Ok () s"
| "write_log_loop tail (Suc k) s =
     kbind (bread (log_dev s) (log_start s + tail + 1) s) (\<lambda>to s.
     kbind (bread (log_dev s) (lh_block s ! tail) s) (\<lambda>fr s.
       let s = set_data to (b_data (the_buf s fr)) s
       in kbind (bwrite to s) (\<lambda>_ s.
          kbind (brelse fr s) (\<lambda>_ s.
          kbind (brelse to s) (\<lambda>_ s. write_log_loop (tail + 1) k s)))))"

definition write_log :: "'a klog_scheme \<Rightarrow> (unit, 'a klog_scheme) kres" where
  "write_log s = write_log_loop 0 (nat (lh_n s)) s"

section \<open>Header block\<close>

text \<open>
  The header is \<open>n\<close> and the block numbers, word by word. A header on disk with more than
  \<open>LOGSIZE\<close> entries makes \<open>read_head\<close> write past the end of \<open>log.lh.block\<close>.
\<close>

definition decode_n :: "bytes \<Rightarrow> int" where
  "decode_n d = sint (get_uint d 0)"

definition read_head :: "'a klog_scheme \<Rightarrow> (unit, 'a klog_scheme) kres" where
  "read_head s =
     kbind (bread (log_dev s) (log_start s) s) (\<lambda>b s.
       let d = b_data (the_buf s b); n = decode_n d
       in if n > int LOGSIZE then Fault (Undefined ''read_head: more blocks than LOGSIZE'')
          else
            brelse b (s\<lparr>lh_n := n, lh_block :=
                map (\<lambda>i. unat (get_uint d (i + 1))) [0 ..< nat n] @ drop (nat n) (lh_block s)\<rparr>))"

fun put_blocks :: "nat \<Rightarrow> nat list \<Rightarrow> bytes \<Rightarrow> bytes" where
  "put_blocks i [] d = d"
| "put_blocks i (b # bs) d = put_blocks (i + 1) bs (put_uint d (i + 1) (of_nat b))"

definition encode_head :: "int \<Rightarrow> nat list \<Rightarrow> bytes \<Rightarrow> bytes" where
  "encode_head n bs d = put_blocks 0 (take (nat n) bs) (put_uint d 0 (of_int n))"

definition write_head :: "'a klog_scheme \<Rightarrow> (unit, 'a klog_scheme) kres" where
  "write_head s =
     kbind (bread (log_dev s) (log_start s) s) (\<lambda>b s.
     kbind (bwrite b (set_data b (encode_head (lh_n s) (lh_block s) (b_data (the_buf s b))) s)) (\<lambda>_ s.
     brelse b s))"

section \<open>Recovery and commit\<close>

definition recover_from_log :: "'a klog_scheme \<Rightarrow> (unit, 'a klog_scheme) kres" where
  "recover_from_log s =
     kbind (read_head s) (\<lambda>_ s.
     kbind (install_trans s) (\<lambda>_ s.
     write_head (s\<lparr>lh_n := 0\<rparr>)))"

definition initlog :: "nat \<Rightarrow> 'a klog_scheme \<Rightarrow> (unit, 'a klog_scheme) kres" where
  "initlog dev s =
     (if 4 * (LOGSIZE + 1) \<ge> BSIZE then panic ''initlog: too big logheader''
      else kbind (readsb dev s) (\<lambda>sb s.
        recover_from_log (s\<lparr>log_start := sb_logstart sb, log_size := int (sb_nlog sb), log_dev := dev\<rparr>)))"

definition commit :: "'a klog_scheme \<Rightarrow> (unit, 'a klog_scheme) kres" where
  "commit s =
     (if lh_n s > 0 then
        kbind (write_log s) (\<lambda>_ s.
        kbind (write_head s) (\<lambda>_ s.
        kbind (install_trans s) (\<lambda>_ s.
        write_head (s\<lparr>lh_n := 0\<rparr>))))
      else Ok () s)"

section \<open>System call brackets\<close>

text \<open>\<open>begin_op\<close>, from the test of its loop on, and when it is woken.\<close>

definition begin_op_test :: "'a klog_scheme \<Rightarrow> (unit, 'a klog_scheme) kres" where
  "begin_op_test s =
     (if committing s then sleep ChLog LogLock s
      else if lh_n s + (outstanding s + 1) * int MAXOPBLOCKS > int LOGSIZE then sleep ChLog LogLock s
      else release LogLock (s\<lparr>outstanding := outstanding s + 1\<rparr>))"

definition begin_op :: "'a klog_scheme \<Rightarrow> (unit, 'a klog_scheme) kres" where
  "begin_op s = kbind (acquire LogLock s) (\<lambda>_ s. begin_op_test s)"

definition begin_op_resume :: "'a klog_scheme \<Rightarrow> (unit, 'a klog_scheme) kres" where
  "begin_op_resume s = kbind (sleep_resume LogLock s) (\<lambda>_ s. begin_op_test s)"

definition end_op :: "'a klog_scheme \<Rightarrow> (unit, 'a klog_scheme) kres" where
  "end_op s =
     kbind (acquire LogLock s) (\<lambda>_ s.
       let s = s\<lparr>outstanding := outstanding s - 1\<rparr>
       in if committing s then panic ''log.committing''
          else if outstanding s = 0 then
            kbind (release LogLock (s\<lparr>committing := True\<rparr>)) (\<lambda>_ s.
            kbind (commit s) (\<lambda>_ s.
            kbind (acquire LogLock s) (\<lambda>_ s.
            kbind (wakeup ChLog (s\<lparr>committing := False\<rparr>)) (\<lambda>_ s.
            release LogLock s))))
          else kbind (wakeup ChLog s) (\<lambda>_ s. release LogLock s))"

definition log_write :: "nat \<Rightarrow> 'a klog_scheme \<Rightarrow> (unit, 'a klog_scheme) kres" where
  "log_write b s =
     (if lh_n s \<ge> int LOGSIZE \<or> lh_n s \<ge> log_size s - 1 then panic ''too big a transaction''
      else if outstanding s < 1 then panic ''log_write outside of trans''
      else kbind (acquire LogLock s) (\<lambda>_ s.
        let blk = b_blockno (the_buf s b);
            i = (case first_index (\<lambda>x. x = blk) (take (nat (lh_n s)) (lh_block s)) of
                   Some i \<Rightarrow> i | None \<Rightarrow> nat (lh_n s));
            s = s\<lparr>lh_block := (lh_block s)[i := blk]\<rparr>;
            s = (if int i = lh_n s then s\<lparr>lh_n := lh_n s + 1\<rparr> else s)
        in release LogLock (upd_buf b (b_dirty_update (\<lambda>_. True)) s)))"

section \<open>Log records\<close>

lemma put_blocks_get:
  "get_uint (put_blocks i bs d) j
    = (if i + 1 \<le> j \<and> j < i + 1 + length bs then of_nat (bs ! (j - i - 1)) else get_uint d j)"
proof (induction bs arbitrary: i d)
  case Nil then show ?case by auto
next
  case (Cons b bs)
  have IH: "get_uint (put_blocks (i + 1) bs (put_uint d (i + 1) (of_nat b))) j
    = (if i + 1 + 1 \<le> j \<and> j < i + 1 + 1 + length bs then of_nat (bs ! (j - (i + 1) - 1))
       else get_uint (put_uint d (i + 1) (of_nat b)) j)"
    by (rule Cons.IH)
  consider "j = i + 1" | "i + 1 < j" "j < i + 2 + length bs" | "j < i + 1 \<or> i + 2 + length bs \<le> j" by linarith
  then show ?case
  proof cases
    case 1 then show ?thesis using IH by simp
  next
    case 2
    then obtain m where "j = i + 2 + m" using le_Suc_ex [of "i + 2" j] by auto
    with 2 show ?thesis using IH by simp
  next
    case 3 then show ?thesis using IH by auto
  qed
qed

text \<open>Reading back a header that was written.\<close>

lemma encode_head_decode:
  assumes "0 \<le> n" and "n \<le> int LOGSIZE" and "nat n \<le> length bs" and "\<forall>b \<in> set bs. b < 2 ^ 32"
  shows "decode_n (encode_head n bs d) = n"
    and "i < nat n \<Longrightarrow> unat (get_uint (encode_head n bs d) (i + 1)) = bs ! i"
proof -
  have "sint (of_int n :: u32) = n"
    using assms(1,2) by (simp add: sint_sbintrunc' signed_take_bit_int_eq_self LOGSIZE_def MAXOPBLOCKS_def)
  then show "decode_n (encode_head n bs d) = n"
    using put_blocks_get [of 0 _ _ 0] by (simp add: decode_n_def encode_head_def)
  show "unat (get_uint (encode_head n bs d) (i + 1)) = bs ! i" if "i < nat n"
  proof -
    have "bs ! i < 2 ^ 32" using assms(3,4) that by simp
    then show ?thesis using put_blocks_get [of 0 _ _ "i + 1"] that assms(3)
      by (simp add: encode_head_def unat_of_nat)
  qed
qed

section \<open>Copying between blocks\<close>

definition apply_writes :: "(nat \<times> bytes) list \<Rightarrow> (nat \<Rightarrow> bytes) \<Rightarrow> nat \<Rightarrow> bytes" where
  "apply_writes ws d = fold (\<lambda>(b, x) d. d(b := x)) ws d"

text \<open>
  \<open>s\<close> became \<open>t\<close> by writing the blocks \<open>ws\<close> in that order: they are on the disk and clean, and
  nothing else that can be read has changed. No buffer is held before and after.
\<close>

definition wrote :: "'a kbio_scheme \<Rightarrow> (nat \<times> bytes) list \<Rightarrow> 'a kbio_scheme \<Rightarrow> bool" where
  "wrote s ws t \<longleftrightarrow> cache_ok t {} \<and> fs_frame s t \<and> memdisk t = apply_writes ws (memdisk s)
     \<and> dwrites t = rev ws @ dwrites s \<and> view t = apply_writes ws (view s)
     \<and> dirty_blocks t = dirty_blocks s - fst ` set ws"

lemma apply_writes_simps [simp]:
  "apply_writes [] d = d" "apply_writes ((b, x) # ws) d = apply_writes ws (d(b := x))"
  "apply_writes (ws @ vs) d = apply_writes vs (apply_writes ws d)"
  by (simp_all add: apply_writes_def)

lemma apply_writes_other: "b \<notin> fst ` set ws \<Longrightarrow> apply_writes ws d b = d b"
  by (induction ws arbitrary: d) auto

lemma apply_writes_distinct:
  "distinct (map fst ws) \<Longrightarrow> (b, x) \<in> set ws \<Longrightarrow> apply_writes ws d b = x"
proof (induction ws arbitrary: d)
  case (Cons w ws)
  show ?case
  proof (cases "w = (b, x)")
    case True
    then have "b \<notin> fst ` set ws" using Cons.prems(1) by auto
    then show ?thesis using True by (simp add: apply_writes_other)
  next
    case False
    then have "apply_writes ws d' b = x" for d' using Cons by simp
    then show ?thesis by (cases w) simp
  qed
qed simp

lemma wrote_refl: "cache_ok s {} \<Longrightarrow> wrote s [] s"
  by (simp add: wrote_def)

lemma wrote_trans: "wrote s ws t \<Longrightarrow> wrote t vs u \<Longrightarrow> wrote s (ws @ vs) u"
  unfolding wrote_def using fs_frame_trans by (auto simp: image_Un)

lemma wroteD:
  assumes "wrote s ws t"
  shows "cache_ok t {}" "fs_frame s t" "memdisk t = apply_writes ws (memdisk s)" "dwrites t = rev ws @ dwrites s"
    "view t = apply_writes ws (view s)" "dirty_blocks t = dirty_blocks s - fst ` set ws"
  using assms by (simp_all add: wrote_def)

lemma fs_frame_log:
  assumes "fs_frame s t"
  shows "log_start t = log_start s" "log_dev t = log_dev s" "lh_block t = lh_block s" "lh_n t = lh_n s"
    "log_size t = log_size s" "outstanding t = outstanding s" "committing t = committing s"
  using assms by (auto simp: fs_frame_def)

lemma caches_strip: "strip (the_buf t c) = strip (the_buf s c) \<Longrightarrow> caches t c k = caches s c k"
  using strip_eqD [of "the_buf t c" "the_buf s c"] by (simp add: caches_def)

text \<open>Overwrite a held block with new data, write it out, and release it and another held block.\<close>

lemma write_release:
  assumes ok: "cache_ok s {b, c}" and env: "fs_env s" and b: "caches s b x" and c: "caches s c y" and ne: "x \<noteq> y"
    and cl: "b_dirty (the_buf s c) \<or> b_data (the_buf s c) = memdisk s y"
  obtains t1 t2 t where "bwrite b (set_data b d s) = Ok () t1" "brelse c t1 = Ok () t2" "brelse b t2 = Ok () t"
    "wrote s [(x, d)] t"
proof -
  have bc: "b \<noteq> c" using b c ne by (auto simp: caches_def)
  have bB: "b \<in> {b, c}" "c \<in> {b, c}" by simp_all
  note sd = set_data_step [where d = d, OF ok bB(1) b]
  have e1: "fs_env (set_data b d s)" using fs_env_frame [OF sd(1) env] .
  then obtain p where p: "held (set_data b d s) = []" "curproc (set_data b d s) = Some p" by (auto simp: fs_env_def)
  have b1: "caches (set_data b d s) b x" "caches (set_data b d s) c y"
    using b c sd(7) [OF bc [symmetric]] sd(8) by (simp_all add: caches_def)
  obtain t1 where t1: "bwrite b (set_data b d s) = Ok () t1" "fs_frame (set_data b d s) t1" "cache_ok t1 {b, c}"
    "view t1 = view (set_data b d s)" "dirty_blocks t1 = dirty_blocks (set_data b d s) - {x}"
    "memdisk t1 = (memdisk (set_data b d s))(x := b_data (the_buf (set_data b d s) b))"
    "dwrites t1 = (x, b_data (the_buf (set_data b d s) b)) # dwrites (set_data b d s)"
    "\<And>k. k \<noteq> b \<Longrightarrow> the_buf t1 k = the_buf (set_data b d s) k"
    "the_buf t1 b = the_buf (set_data b d s) b\<lparr>b_dirty := False\<rparr>"
    by (rule bwrite_step [OF sd(2) p bB(1) b1(1)]) (rule that)
  have m1: "memdisk t1 = (memdisk s)(x := d)" "the_buf t1 c = the_buf s c" "b_data (the_buf t1 b) = d"
    using t1(6,9) t1(8) [OF bc [symmetric]] sd(5,8) sd(7) [OF bc [symmetric]] by simp_all
  have e2: "fs_env t1" using fs_env_frame [OF t1(2) e1] .
  then obtain q where q: "held t1 = []" "curproc t1 = Some q" "q < length (ptable t1)" by (auto simp: fs_env_def)
  have c1: "caches t1 c y" "caches t1 b x" using c m1(2) t1(9) b1(1) by (simp_all add: caches_def)
  have cl1: "b_dirty (the_buf t1 c) \<or> b_data (the_buf t1 c) = memdisk t1 y" using cl m1(1,2) ne by simp
  obtain t2 where t2: "brelse c t1 = Ok () t2" "fs_frame t1 t2" "cache_ok t2 ({b, c} - {c})" "view t2 = view t1"
    "dirty_blocks t2 = dirty_blocks t1" "memdisk t2 = memdisk t1" "dwrites t2 = dwrites t1"
    "\<And>k. k \<noteq> c \<Longrightarrow> strip (the_buf t2 k) = strip (the_buf t1 k)"
    by (rule brelse_step [OF t1(3) q bB(2) c1(1) cl1]) (rule that)
  have e3: "fs_env t2" using fs_env_frame [OF t2(2) e2] .
  then obtain r where r: "held t2 = []" "curproc t2 = Some r" "r < length (ptable t2)" by (auto simp: fs_env_def)
  have ok2: "cache_ok t2 {b}" using t2(3) bc by (simp add: insert_Diff_if)
  have c2: "caches t2 b x" "b_data (the_buf t2 b) = d"
    using caches_strip [OF t2(8) [OF bc]] c1(2) strip_eqD(7) [OF t2(8) [OF bc]] m1(3) by simp_all
  have cl2: "b_dirty (the_buf t2 b) \<or> b_data (the_buf t2 b) = memdisk t2 x" using c2(2) t2(6) m1(1) by simp
  obtain t where t: "brelse b t2 = Ok () t" "fs_frame t2 t" "cache_ok t ({b} - {b})" "view t = view t2"
    "dirty_blocks t = dirty_blocks t2" "memdisk t = memdisk t2" "dwrites t = dwrites t2"
    by (rule brelse_step [OF ok2 r _ c2(1) cl2]) simp_all
  have fr: "fs_frame s t" using sd(1) t1(2) t2(2) t(2) fs_frame_trans by blast
  have "wrote s [(x, d)] t" unfolding wrote_def using fr t(3-7) t2(4-7) t1(4,5,7) m1(1) sd(3,4,6,8) by simp
  with that t1(1) t2(1) t(1) show thesis by blast
qed

text \<open>Read two different blocks.\<close>

lemma read_two:
  assumes ok: "cache_ok s {}" and env: "fs_env s" and xy: "x < disksize s" "y < disksize s" "x \<noteq> y"
    and room: "card (dirty_blocks s) < NBUF" "y \<in> dirty_blocks s \<or> card (dirty_blocks s) + 1 < NBUF"
  obtains b c t1 t where "bread 1 x s = Ok b t1" "bread 1 y t1 = Ok c t" "cache_ok t {c, b}" "fs_frame s t1" "fs_frame t1 t"
    "caches t b x" "caches t c y" "b_data (the_buf t b) = view s x" "b_data (the_buf t c) = view s y"
    "b_dirty (the_buf t b) \<longleftrightarrow> x \<in> dirty_blocks s" "b_dirty (the_buf t c) \<longleftrightarrow> y \<in> dirty_blocks s"
    "memdisk t = memdisk s" "dwrites t = dwrites s" "view t = view s" "dirty_blocks t = dirty_blocks s"
proof -
  obtain p where p: "held s = []" "curproc s = Some p" using env by (auto simp: fs_env_def)
  have r1: "(\<exists>b. caches s b x) \<or> card (dirty_blocks s) + card ({} :: nat set) < NBUF" using room(1) by simp
  obtain b t1 where b: "bread 1 x s = Ok b t1" "fs_frame s t1" "b < NBUF" "b \<notin> {}" "caches t1 b x"
    "b_data (the_buf t1 b) = view s x" "b_dirty (the_buf t1 b) \<longleftrightarrow> x \<in> dirty_blocks s" "cache_ok t1 {b}"
    "view t1 = view s" "dirty_blocks t1 = dirty_blocks s" "memdisk t1 = memdisk s" "dwrites t1 = dwrites s"
    by (rule bread_step [OF ok p xy(1) _ r1]) (blast, rule that)
  obtain q where q: "held t1 = []" "curproc t1 = Some q" using fs_env_frame [OF b(2) env] by (auto simp: fs_env_def)
  have r2: "(\<exists>b. caches t1 b y) \<or> card (dirty_blocks t1) + card {b} < NBUF"
    using room(2) b(10) by (auto simp: dirty_blocks_def)
  have d: "y < disksize t1" using fs_frame_sel(3) [OF b(2)] xy(2) by simp
  have nc: "\<And>k. k \<in> {b} \<Longrightarrow> \<not> caches t1 k y" using b(5) xy(3) by (auto simp: caches_def)
  obtain c t where c: "bread 1 y t1 = Ok c t" "fs_frame t1 t" "c < NBUF" "c \<notin> {b}" "caches t c y"
    "b_data (the_buf t c) = view t1 y" "b_dirty (the_buf t c) \<longleftrightarrow> y \<in> dirty_blocks t1" "cache_ok t {c, b}"
    "view t = view t1" "dirty_blocks t = dirty_blocks t1" "memdisk t = memdisk t1" "dwrites t = dwrites t1"
    "\<And>k. k \<noteq> c \<Longrightarrow> the_buf t k = the_buf t1 k"
    by (rule bread_step [OF b(8) q d nc r2]) (assumption, rule that)
  have "the_buf t b = the_buf t1 b" by (rule c(13)) (use c(4) in blast)
  then have "caches t b x" "b_data (the_buf t b) = view s x" "b_dirty (the_buf t b) \<longleftrightarrow> x \<in> dirty_blocks s"
    using b(5-7) by (simp_all add: caches_def)
  then show thesis using that [OF b(1) c(1,8) b(2) c(2)] b(9-12) c(5-7,9-12) by simp
qed

section \<open>Writing the log\<close>

text \<open>One round of \<open>write_log\<close>: a pinned block goes to its place in the log.\<close>

lemma write_log_step:
  assumes ok: "cache_ok s {}" and env: "fs_env s" and dev: "log_dev s = 1"
    and x: "log_start s + tail + 1 < disksize s" and y: "lh_block s ! tail < disksize s"
    and ne: "log_start s + tail + 1 \<noteq> lh_block s ! tail"
    and dirty: "lh_block s ! tail \<in> dirty_blocks s" "card (dirty_blocks s) < NBUF"
  obtains t where "write_log_loop tail (Suc k) s = write_log_loop (tail + 1) k t"
    "wrote s [(log_start s + tail + 1, view s (lh_block s ! tail))] t"
proof -
  let ?x = "log_start s + tail + 1" let ?y = "lh_block s ! tail"
  obtain b c t1 t where r: "bread 1 ?x s = Ok b t1" "bread 1 ?y t1 = Ok c t" "cache_ok t {c, b}" "fs_frame s t1" "fs_frame t1 t"
    "caches t b ?x" "caches t c ?y" "b_data (the_buf t c) = view s ?y" "b_dirty (the_buf t c) \<longleftrightarrow> ?y \<in> dirty_blocks s"
    "memdisk t = memdisk s" "dwrites t = dwrites s" "view t = view s" "dirty_blocks t = dirty_blocks s"
    using read_two [OF ok env x y ne dirty(2)] dirty(1) by metis
  have e: "fs_env t" "fs_frame s t" using fs_env_frame fs_frame_trans r(4,5) env by blast+
  have ok': "cache_ok t {b, c}" using r(3) by (simp add: insert_commute)
  have cl: "b_dirty (the_buf t c) \<or> b_data (the_buf t c) = memdisk t ?y" using r(9) dirty(1) by simp
  obtain u1 u2 u where u: "bwrite b (set_data b (b_data (the_buf t c)) t) = Ok () u1" "brelse c u1 = Ok () u2"
    "brelse b u2 = Ok () u" "wrote t [(?x, b_data (the_buf t c))] u"
    by (rule write_release [OF ok' e(1) r(6,7) ne cl])
  have "write_log_loop tail (Suc k) s = write_log_loop (tail + 1) k u"
    using r(1,2) u(1-3) dev fs_frame_log [OF r(4)] by (simp add: Let_def)
  moreover have "wrote s [(?x, view s ?y)] u"
    using u(4) r(8,10-13) fs_frame_trans [OF e(2)] by (simp add: wrote_def)
  ultimately show thesis by (rule that)
qed

text \<open>One round of \<open>install_trans\<close>: a logged block goes to its home location.\<close>

lemma install_step:
  assumes ok: "cache_ok s {}" and env: "fs_env s" and dev: "log_dev s = 1"
    and x: "log_start s + tail + 1 < disksize s" and y: "lh_block s ! tail < disksize s"
    and ne: "log_start s + tail + 1 \<noteq> lh_block s ! tail" and clean: "log_start s + tail + 1 \<notin> dirty_blocks s"
    and room: "card (dirty_blocks s) < NBUF" "lh_block s ! tail \<in> dirty_blocks s \<or> card (dirty_blocks s) + 1 < NBUF"
  obtains t where "install_loop tail (Suc k) s = install_loop (tail + 1) k t"
    "wrote s [(lh_block s ! tail, view s (log_start s + tail + 1))] t"
proof -
  let ?x = "log_start s + tail + 1" let ?y = "lh_block s ! tail"
  obtain b c t1 t where r: "bread 1 ?x s = Ok b t1" "bread 1 ?y t1 = Ok c t" "cache_ok t {c, b}" "fs_frame s t1" "fs_frame t1 t"
    "caches t b ?x" "caches t c ?y" "b_data (the_buf t b) = view s ?x" "memdisk t = memdisk s"
    "dwrites t = dwrites s" "view t = view s" "dirty_blocks t = dirty_blocks s"
    using read_two [OF ok env x y ne room] by metis
  have e: "fs_env t" "fs_frame s t" using fs_env_frame fs_frame_trans r(4,5) env by blast+
  have "view s ?x = memdisk s ?x" by (rule view_clean [OF ok clean]) simp
  then have cl: "b_dirty (the_buf t b) \<or> b_data (the_buf t b) = memdisk t ?x" using r(8,9) by simp
  obtain u1 u2 u where u: "bwrite c (set_data c (b_data (the_buf t b)) t) = Ok () u1" "brelse b u1 = Ok () u2"
    "brelse c u2 = Ok () u" "wrote t [(?y, b_data (the_buf t b))] u"
    by (rule write_release [OF r(3) e(1) r(7,6) ne [symmetric] cl])
  have "install_loop tail (Suc k) s = install_loop (tail + 1) k u"
    using r(1,2) u(1-3) dev fs_frame_log [OF r(4)] by (simp add: Let_def)
  moreover have "wrote s [(?y, view s ?x)] u"
    using u(4) r(8-12) fs_frame_trans [OF e(2)] by (simp add: wrote_def)
  ultimately show thesis by (rule that)
qed

section \<open>Whole passes over the log\<close>

text \<open>
  The log of \<open>s\<close> names \<open>n\<close> different blocks, all on the disk and none of them the header or one of the
  \<open>n\<close> log blocks behind it.
\<close>

definition log_ok :: "'a klog_scheme \<Rightarrow> nat \<Rightarrow> bool" where
  "log_ok s n \<longleftrightarrow> cache_ok s {} \<and> fs_env s \<and> log_dev s = 1 \<and> log_start s + n < disksize s
     \<and> n \<le> length (lh_block s) \<and> distinct (take n (lh_block s))
     \<and> (\<forall>b \<in> set (take n (lh_block s)). b < disksize s \<and> b \<notin> {log_start s .. log_start s + n})"

lemma log_okD:
  assumes "log_ok s n"
  shows "cache_ok s {}" "fs_env s" "log_dev s = 1" "log_start s + n < disksize s" "n \<le> length (lh_block s)"
    "i < n \<Longrightarrow> lh_block s ! i < disksize s" "i < n \<Longrightarrow> j \<le> n \<Longrightarrow> log_start s + j \<noteq> lh_block s ! i"
    "i < n \<Longrightarrow> j < n \<Longrightarrow> i \<noteq> j \<Longrightarrow> lh_block s ! i \<noteq> lh_block s ! j"
    "i < n \<Longrightarrow> lh_block s ! i \<notin> {log_start s .. log_start s + n}"
proof -
  show "cache_ok s {}" "fs_env s" "log_dev s = 1" "log_start s + n < disksize s" "n \<le> length (lh_block s)"
    using assms by (simp_all add: log_ok_def)
  have m: "lh_block s ! i \<in> set (take n (lh_block s))" if "i < n" for i
    using that assms by (auto simp: log_ok_def in_set_conv_nth intro!: exI [of _ i])
  show "lh_block s ! i < disksize s" if "i < n" using m [OF that] assms by (simp add: log_ok_def)
  show "lh_block s ! i \<notin> {log_start s .. log_start s + n}" if "i < n" using m [OF that] assms by (auto simp: log_ok_def)
  show "log_start s + j \<noteq> lh_block s ! i" if "i < n" "j \<le> n"
    using m [OF that(1)] assms that(2) by (fastforce simp: log_ok_def)
  show "lh_block s ! i \<noteq> lh_block s ! j" if "i < n" "j < n" "i \<noteq> j"
    using assms that nth_eq_iff_index_eq [of "take n (lh_block s)" i j] by (simp add: log_ok_def)
qed

lemma log_ok_wrote: "log_ok s n \<Longrightarrow> wrote s ws t \<Longrightarrow> log_ok t n"
  using fs_frame_log [of s t] fs_frame_sel [of s t] fs_env_frame [of s t] by (simp add: log_ok_def wrote_def)

definition log_writes :: "'a klog_scheme \<Rightarrow> nat \<Rightarrow> nat \<Rightarrow> (nat \<times> bytes) list" where
  "log_writes s i k = map (\<lambda>i. (log_start s + i + 1, view s (lh_block s ! i))) [i ..< i + k]"

definition home_writes :: "'a klog_scheme \<Rightarrow> nat \<Rightarrow> nat \<Rightarrow> (nat \<times> bytes) list" where
  "home_writes s i k = map (\<lambda>i. (lh_block s ! i, view s (log_start s + i + 1))) [i ..< i + k]"

lemma log_writes_Suc: "log_writes s i (Suc k) = (log_start s + i + 1, view s (lh_block s ! i)) # log_writes s (i + 1) k"
  using upt_conv_Cons [of i "i + Suc k"] by (simp add: log_writes_def del: upt_Suc)

lemma home_writes_Suc: "home_writes s i (Suc k) = (lh_block s ! i, view s (log_start s + i + 1)) # home_writes s (i + 1) k"
  using upt_conv_Cons [of i "i + Suc k"] by (simp add: home_writes_def del: upt_Suc)

lemma card_dirty_wrote: "wrote s ws t \<Longrightarrow> card (dirty_blocks s) < m \<Longrightarrow> card (dirty_blocks t) < m"
  by (metis card_mono Diff_subset finite_dirty le_less_trans wroteD(6))

lemma write_log_loop_wrote:
  assumes "log_ok s (i + k)" and "\<And>j. i \<le> j \<Longrightarrow> j < i + k \<Longrightarrow> lh_block s ! j \<in> dirty_blocks s"
    and "card (dirty_blocks s) < NBUF"
  shows "\<exists>t. write_log_loop i k s = Ok () t \<and> wrote s (log_writes s i k) t"
  using assms
proof (induction k arbitrary: i s)
  case 0 then show ?case using wrote_refl log_okD(1) by (auto simp: log_writes_def)
next
  case (Suc k)
  note d = log_okD [OF Suc.prems(1)]
  let ?x = "log_start s + i + 1" let ?y = "lh_block s ! i"
  have xy: "?x < disksize s" "?y < disksize s" "?x \<noteq> ?y"
    using d(4) d(6) [of i] d(7) [of i "i + 1"] by (simp_all add: add.assoc)
  obtain t where t: "write_log_loop i (Suc k) s = write_log_loop (i + 1) k t" "wrote s [(?x, view s ?y)] t"
    by (rule write_log_step [OF d(1-3) xy Suc.prems(2) [of i] Suc.prems(3)]) auto
  have fr: "log_start t = log_start s" "lh_block t = lh_block s" using fs_frame_log [OF wroteD(2) [OF t(2)]] by simp_all
  have neq: "lh_block s ! j \<noteq> ?x" if "j < i + Suc k" for j using d(7) [of j "i + 1"] that by (simp add: add.assoc)
  have "\<exists>u. write_log_loop (i + 1) k t = Ok () u \<and> wrote t (log_writes t (i + 1) k) u"
  proof (rule Suc.IH)
    show "log_ok t (i + 1 + k)" using log_ok_wrote [OF Suc.prems(1) t(2)] by simp
    show "lh_block t ! j \<in> dirty_blocks t" if "i + 1 \<le> j" "j < i + 1 + k" for j
      using Suc.prems(2) [of j] neq [of j] that wroteD(6) [OF t(2)] fr by simp
    show "card (dirty_blocks t) < NBUF" by (rule card_dirty_wrote [OF t(2) Suc.prems(3)])
  qed
  then obtain u where u: "write_log_loop (i + 1) k t = Ok () u" "wrote t (log_writes t (i + 1) k) u" by blast
  have "log_writes t (i + 1) k = log_writes s (i + 1) k"
    unfolding log_writes_def using neq fr wroteD(5) [OF t(2)] by (auto intro!: map_cong)
  then show ?case using t u wrote_trans [OF t(2) u(2)] by (simp add: log_writes_Suc)
qed

lemma install_loop_wrote:
  assumes "log_ok s (i + k)" and "\<And>j. j \<le> i + k \<Longrightarrow> log_start s + j \<notin> dirty_blocks s"
    and "(\<forall>j. i \<le> j \<and> j < i + k \<longrightarrow> lh_block s ! j \<in> dirty_blocks s) \<or> card (dirty_blocks s) + 1 < NBUF"
    and "card (dirty_blocks s) < NBUF"
  shows "\<exists>t. install_loop i k s = Ok () t \<and> wrote s (home_writes s i k) t"
  using assms
proof (induction k arbitrary: i s)
  case 0 then show ?case using wrote_refl log_okD(1) by (auto simp: home_writes_def)
next
  case (Suc k)
  note d = log_okD [OF Suc.prems(1)]
  let ?x = "log_start s + i + 1" let ?y = "lh_block s ! i"
  have xy: "?x < disksize s" "?y < disksize s" "?x \<noteq> ?y"
    using d(4) d(6) [of i] d(7) [of i "i + 1"] by (simp_all add: add.assoc)
  have cl: "?x \<notin> dirty_blocks s" using Suc.prems(2) [of "i + 1"] by (simp add: add.assoc)
  have room: "?y \<in> dirty_blocks s \<or> card (dirty_blocks s) + 1 < NBUF" using Suc.prems(3) by auto
  obtain t where t: "install_loop i (Suc k) s = install_loop (i + 1) k t" "wrote s [(?y, view s ?x)] t"
    by (rule install_step [OF d(1-3) xy cl Suc.prems(4) room]) auto
  have fr: "log_start t = log_start s" "lh_block t = lh_block s" using fs_frame_log [OF wroteD(2) [OF t(2)]] by simp_all
  have neq: "log_start s + j + 1 \<noteq> ?y" if "j < i + Suc k" for j using d(7) [of i "j + 1"] that by (simp add: add.assoc)
  have dt: "dirty_blocks t = dirty_blocks s - {?y}" using wroteD(6) [OF t(2)] by simp
  have "\<exists>u. install_loop (i + 1) k t = Ok () u \<and> wrote t (home_writes t (i + 1) k) u"
  proof (rule Suc.IH)
    show "log_ok t (i + 1 + k)" using log_ok_wrote [OF Suc.prems(1) t(2)] by simp
    show "log_start t + j \<notin> dirty_blocks t" if "j \<le> i + 1 + k" for j using Suc.prems(2) [of j] that dt fr by simp
    have ny: "lh_block s ! j \<noteq> ?y" if "i + 1 \<le> j" "j < i + 1 + k" for j using d(8) [of j i] that by simp
    show "(\<forall>j. i + 1 \<le> j \<and> j < i + 1 + k \<longrightarrow> lh_block t ! j \<in> dirty_blocks t) \<or> card (dirty_blocks t) + 1 < NBUF"
      using Suc.prems(3)
    proof
      assume "card (dirty_blocks s) + 1 < NBUF"
      then have "card (dirty_blocks s) < NBUF - 1" by linarith
      from card_dirty_wrote [OF t(2) this] show ?thesis by linarith
    qed (use ny dt fr in simp)
    show "card (dirty_blocks t) < NBUF" by (rule card_dirty_wrote [OF t(2) Suc.prems(4)])
  qed
  then obtain u where u: "install_loop (i + 1) k t = Ok () u" "wrote t (home_writes t (i + 1) k) u" by blast
  have "home_writes t (i + 1) k = home_writes s (i + 1) k"
    unfolding home_writes_def using neq fr wroteD(5) [OF t(2)] by (auto intro!: map_cong)
  then show ?case using t u wrote_trans [OF t(2) u(2)] by (simp add: home_writes_Suc)
qed

section \<open>Committing\<close>

lemma log_upd [simp]:
  "cache_ok (s\<lparr>lh_n := n\<rparr>) B = cache_ok s B" "view (s\<lparr>lh_n := n\<rparr>) = view s" "dirty_blocks (s\<lparr>lh_n := n\<rparr>) = dirty_blocks s"
  "fs_env (s\<lparr>lh_n := n\<rparr>) = fs_env s"
  "cache_ok (s\<lparr>lh_block := bs\<rparr>) B = cache_ok s B" "view (s\<lparr>lh_block := bs\<rparr>) = view s"
  "dirty_blocks (s\<lparr>lh_block := bs\<rparr>) = dirty_blocks s" "fs_env (s\<lparr>lh_block := bs\<rparr>) = fs_env s"
  by (simp_all add: cache_ok_def buf_ok_def caches_def view_def dirty_blocks_def fs_env_def cur_pid_def fun_eq_iff
    split: option.split)

text \<open>Read one block and use it under its lock.\<close>

lemma read_one:
  assumes ok: "cache_ok s {}" and env: "fs_env s" and x: "x < disksize s" and room: "card (dirty_blocks s) < NBUF"
  obtains b t where "bread 1 x s = Ok b t" "fs_frame s t" "caches t b x" "b_data (the_buf t b) = view s x"
    "b_dirty (the_buf t b) \<longleftrightarrow> x \<in> dirty_blocks s" "cache_ok t {b}"
    "view t = view s" "dirty_blocks t = dirty_blocks s" "memdisk t = memdisk s" "dwrites t = dwrites s"
proof -
  obtain p where p: "held s = []" "curproc s = Some p" using env by (auto simp: fs_env_def)
  have r: "(\<exists>b. caches s b x) \<or> card (dirty_blocks s) + card ({} :: nat set) < NBUF" using room by simp
  show thesis by (rule bread_step [OF ok p x _ r]) (blast, rule that)
qed

lemma release_one:
  assumes ok: "cache_ok s {b}" and env: "fs_env s" and b: "caches s b x"
    and cl: "b_dirty (the_buf s b) \<or> b_data (the_buf s b) = memdisk s x"
  obtains t where "brelse b s = Ok () t" "fs_frame s t" "cache_ok t {}" "view t = view s"
    "dirty_blocks t = dirty_blocks s" "memdisk t = memdisk s" "dwrites t = dwrites s"
proof -
  obtain q where q: "held s = []" "curproc s = Some q" "q < length (ptable s)" using env by (auto simp: fs_env_def)
  show thesis by (rule brelse_step [OF ok q _ b cl]) (use that in simp_all)
qed

lemma write_head_wrote:
  assumes ok: "cache_ok s {}" and env: "fs_env s" and dev: "log_dev s = 1" "log_start s < disksize s"
    and room: "card (dirty_blocks s) < NBUF"
  shows "\<exists>t. write_head s = Ok () t
    \<and> wrote s [(log_start s, encode_head (lh_n s) (lh_block s) (view s (log_start s)))] t"
proof -
  let ?x = "log_start s" let ?d = "encode_head (lh_n s) (lh_block s) (view s ?x)"
  obtain b t where b: "bread 1 ?x s = Ok b t" "fs_frame s t" "caches t b ?x" "b_data (the_buf t b) = view s ?x"
    "cache_ok t {b}" "view t = view s" "dirty_blocks t = dirty_blocks s" "memdisk t = memdisk s" "dwrites t = dwrites s"
    by (rule read_one [OF ok env dev(2) room])
  have bB: "b \<in> {b}" by simp
  note sd = set_data_step [where d = ?d, OF b(5) bB b(3)]
  let ?t = "set_data b ?d t"
  have e1: "fs_env ?t" using fs_env_frame [OF sd(1) fs_env_frame [OF b(2) env]] .
  then obtain p where p: "held ?t = []" "curproc ?t = Some p" by (auto simp: fs_env_def)
  have b1: "caches ?t b ?x" using b(3) sd(8) by (simp add: caches_def)
  obtain u where u: "bwrite b ?t = Ok () u" "fs_frame ?t u" "cache_ok u {b}" "view u = view ?t"
    "dirty_blocks u = dirty_blocks ?t - {?x}" "memdisk u = (memdisk ?t)(?x := b_data (the_buf ?t b))"
    "dwrites u = (?x, b_data (the_buf ?t b)) # dwrites ?t" "the_buf u b = the_buf ?t b\<lparr>b_dirty := False\<rparr>"
    by (rule bwrite_step [OF sd(2) p bB b1]) (rule that)
  have c: "caches u b ?x" "b_dirty (the_buf u b) \<or> b_data (the_buf u b) = memdisk u ?x"
    using b1 u(6,8) by (simp_all add: caches_def)
  obtain v where v: "brelse b u = Ok () v" "fs_frame u v" "cache_ok v {}" "view v = view u"
    "dirty_blocks v = dirty_blocks u" "memdisk v = memdisk u" "dwrites v = dwrites u"
    by (rule release_one [OF u(3) fs_env_frame [OF u(2) e1] c])
  have "write_head s = Ok () v"
    using b(1,4) u(1) v(1) dev(1) fs_frame_log [OF b(2)] by (simp add: write_head_def)
  moreover have "fs_frame s v" using b(2) sd(1) u(2) v(2) fs_frame_trans by blast
  ultimately show ?thesis unfolding wrote_def using v(3-7) u(4-7) b(6-9) sd(3-6,8) by simp
qed

definition head :: "'a klog_scheme \<Rightarrow> nat \<Rightarrow> bytes" where
  "head s n = encode_head (int n) (lh_block s) (view s (log_start s))"

definition install_writes :: "'a klog_scheme \<Rightarrow> nat \<Rightarrow> (nat \<times> bytes) list" where
  "install_writes s n = map (\<lambda>i. (lh_block s ! i, view s (lh_block s ! i))) [0 ..< n]"

text \<open>The disk writes of \<open>commit\<close>, in order.\<close>

definition commit_writes :: "'a klog_scheme \<Rightarrow> nat \<Rightarrow> (nat \<times> bytes) list" where
  "commit_writes s n = log_writes s 0 n @ [(log_start s, head s n)]
     @ install_writes s n
     @ [(log_start s, encode_head 0 (lh_block s) (head s n))]"

lemma log_writes_keys: "fst ` set (log_writes s 0 n) = {log_start s + 1 .. log_start s + n}"
proof -
  have "x \<in> (\<lambda>i. log_start s + i + 1) ` {0 ..< n}" if "x \<in> {log_start s + 1 .. log_start s + n}" for x
    by (rule image_eqI [of _ _ "x - log_start s - 1"]) (use that in auto)
  then show ?thesis by (auto simp: log_writes_def image_image)
qed

lemma log_writes_get:
  assumes "i < n" shows "apply_writes (log_writes s 0 n) d (log_start s + i + 1) = view s (lh_block s ! i)"
  by (rule apply_writes_distinct)
    (use assms in \<open>auto simp: log_writes_def comp_def distinct_map inj_on_def\<close>)

text \<open>What \<open>commit\<close> is called with: \<open>n\<close> blocks in the log, which are the dirty ones.\<close>

definition pending :: "'a klog_scheme \<Rightarrow> nat \<Rightarrow> bool" where
  "pending s n \<longleftrightarrow> log_ok s n \<and> lh_n s = int n \<and> dirty_blocks s = set (take n (lh_block s)) \<and> n < NBUF"

lemma pendingD:
  assumes "pending s n"
  shows "log_ok s n" "lh_n s = int n" "card (dirty_blocks s) < NBUF"
    "j < n \<Longrightarrow> lh_block s ! j \<in> dirty_blocks s" "j \<le> n \<Longrightarrow> log_start s + j \<notin> dirty_blocks s"
    "dirty_blocks s = (!) (lh_block s) ` {0 ..< n}"
proof -
  show ok: "log_ok s n" and "lh_n s = int n" using assms by (simp_all add: pending_def)
  have dirty: "dirty_blocks s = set (take n (lh_block s))" "n < NBUF" using assms by (simp_all add: pending_def)
  show im: "dirty_blocks s = (!) (lh_block s) ` {0 ..< n}" using nth_image [OF log_okD(5) [OF ok]] dirty(1) by simp
  then show "j < n \<Longrightarrow> lh_block s ! j \<in> dirty_blocks s" by simp
  have "card (dirty_blocks s) \<le> card {0 ..< n}" unfolding im by (rule card_image_le) simp
  then show "card (dirty_blocks s) < NBUF" using dirty(2) by simp
  show "j \<le> n \<Longrightarrow> log_start s + j \<notin> dirty_blocks s" using log_okD(7) [OF ok, of _ j] im by fastforce
qed

lemma commit_first_half:
  assumes p: "pending s n"
  obtains t u where "write_log s = Ok () t" "write_head t = Ok () u"
    "wrote s (log_writes s 0 n @ [(log_start s, head s n)]) u" "dirty_blocks u = dirty_blocks s"
    "home_writes u 0 n = install_writes s n"
proof -
  note pd = pendingD [OF p] and d = log_okD [OF pendingD(1) [OF p]]
  obtain t where t: "write_log s = Ok () t" "wrote s (log_writes s 0 n) t"
    using write_log_loop_wrote [of s 0 n] pd(1-4) by (auto simp: write_log_def)
  note ft = fs_frame_log [OF wroteD(2) [OF t(2)]] fs_frame_sel [OF wroteD(2) [OF t(2)]]
  note dt = log_okD [OF log_ok_wrote [OF pd(1) t(2)]]
  have ls: "log_start s \<notin> fst ` set (log_writes s 0 n)" by (auto simp: log_writes_keys)
  have vls: "view t (log_start s) = view s (log_start s)" using wroteD(5) [OF t(2)] ls by (simp add: apply_writes_other)
  have cardt: "card (dirty_blocks t) < NBUF" by (rule card_dirty_wrote [OF t(2) pd(3)])
  obtain u where u: "write_head t = Ok () u" "wrote t [(log_start s, head s n)] u"
    using write_head_wrote [OF dt(1-3) _ cardt] dt(4) ft pd(2) vls by (auto simp: head_def)
  have su: "wrote s (log_writes s 0 n @ [(log_start s, head s n)]) u" by (rule wrote_trans [OF t(2) u(2)])
  note fu = fs_frame_log [OF wroteD(2) [OF su]] fs_frame_sel [OF wroteD(2) [OF su]]
  have "x \<notin> dirty_blocks s" if "x \<in> {log_start s .. log_start s + n}" for x
    using pd(5) [of "x - log_start s"] that by (simp add: le_diff_conv add.commute)
  then have "dirty_blocks u = dirty_blocks s"
    using wroteD(6) [OF su] by (auto simp: image_Un log_writes_keys)
  moreover have "home_writes u 0 n = install_writes s n"
    unfolding home_writes_def install_writes_def using fu log_writes_get wroteD(5) [OF su] by (auto intro!: map_cong)
  ultimately show thesis using that [OF t(1) u(1) su] by blast
qed

lemma commit_wrote:
  assumes p: "pending s n" and n: "0 < n"
  obtains t where "commit s = Ok () t" "cache_ok t {}" "dwrites t = rev (commit_writes s n) @ dwrites s"
    "memdisk t = apply_writes (commit_writes s n) (memdisk s)" "dirty_blocks t = {}" "lh_n t = 0"
proof -
  note pd = pendingD [OF p]
  obtain t u where t: "write_log s = Ok () t" and u: "write_head t = Ok () u"
    and su: "wrote s (log_writes s 0 n @ [(log_start s, head s n)]) u" and du: "dirty_blocks u = dirty_blocks s"
    and hw: "home_writes u 0 n = install_writes s n"
    by (rule commit_first_half [OF p])
  note fu = fs_frame_log [OF wroteD(2) [OF su]] fs_frame_sel [OF wroteD(2) [OF su]]
  obtain v where v: "install_trans u = Ok () v" "wrote u (home_writes u 0 n) v"
    using install_loop_wrote [of u 0 n] log_ok_wrote [OF pd(1) su] pd(2-5) du fu by (auto simp: install_trans_def)
  have sv: "wrote s ((log_writes s 0 n @ [(log_start s, head s n)]) @ home_writes u 0 n) v"
    by (rule wrote_trans [OF su v(2)])
  note fv = fs_frame_log [OF wroteD(2) [OF sv]] fs_frame_sel [OF wroteD(2) [OF sv]]
  note dv = log_okD [OF log_ok_wrote [OF pd(1) sv]]
  have home: "fst ` set (home_writes u 0 n) = dirty_blocks s" unfolding hw pd(6) by (simp add: install_writes_def image_image)
  have ddv: "dirty_blocks v = {}" using wroteD(6) [OF v(2)] home du by simp
  have vls: "view v (log_start s) = head s n"
    using wroteD(5) [OF v(2)] wroteD(5) [OF su] apply_writes_other [of "log_start s" "home_writes u 0 n"] home pd(5) [of 0]
    by simp
  obtain w where w: "write_head (v\<lparr>lh_n := 0\<rparr>) = Ok () w"
    "wrote (v\<lparr>lh_n := 0\<rparr>) [(log_start s, encode_head 0 (lh_block s) (head s n))] w"
    using write_head_wrote [of "v\<lparr>lh_n := 0\<rparr>"] dv(1-5) ddv fv vls by (auto simp: NBUF_def MAXOPBLOCKS_def)
  have c: "commit s = Ok () w" using pd(2) n t u v(1) w(1) by (simp add: commit_def)
  have e: "commit_writes s n = ((log_writes s 0 n @ [(log_start s, head s n)]) @ home_writes u 0 n)
    @ [(log_start s, encode_head 0 (lh_block s) (head s n))]" by (simp add: commit_writes_def hw)
  show thesis
    by (rule that [OF c])
      (use wroteD [OF w(2)] wroteD(3,4) [OF sv] ddv fs_frame_log(4) [OF wroteD(2) [OF w(2)]] e in simp_all)
qed

section \<open>Recovery\<close>

text \<open>
  What recovery has to do with a disk \<open>D\<close> whose log starts at \<open>ls\<close>: copy every logged block to the
  place the header names, then empty the header.
\<close>

definition disk_n :: "nat \<Rightarrow> (nat \<Rightarrow> bytes) \<Rightarrow> nat" where
  "disk_n ls D = nat (decode_n (D ls))"

definition disk_block :: "nat \<Rightarrow> (nat \<Rightarrow> bytes) \<Rightarrow> nat \<Rightarrow> nat" where
  "disk_block ls D i = unat (get_uint (D ls) (i + 1))"

definition redo_writes :: "nat \<Rightarrow> (nat \<Rightarrow> bytes) \<Rightarrow> (nat \<times> bytes) list" where
  "redo_writes ls D = map (\<lambda>i. (disk_block ls D i, D (ls + i + 1))) [0 ..< disk_n ls D]"

definition recover_writes :: "nat \<Rightarrow> (nat \<Rightarrow> bytes) \<Rightarrow> (nat \<times> bytes) list" where
  "recover_writes ls D = redo_writes ls D @ [(ls, put_uint (D ls) 0 0)]"

definition log_disk :: "nat \<Rightarrow> nat \<Rightarrow> (nat \<Rightarrow> bytes) \<Rightarrow> bool" where
  "log_disk ls sz D \<longleftrightarrow> decode_n (D ls) \<le> int LOGSIZE \<and> ls + disk_n ls D < sz
     \<and> distinct (map (disk_block ls D) [0 ..< disk_n ls D])
     \<and> (\<forall>i < disk_n ls D. disk_block ls D i < sz \<and> disk_block ls D i \<notin> {ls .. ls + disk_n ls D})"

text \<open>The kernel just booted from the disk \<open>D\<close>.\<close>

definition rebooted :: "'a klog_scheme \<Rightarrow> nat \<Rightarrow> (nat \<Rightarrow> bytes) \<Rightarrow> bool" where
  "rebooted r sz D \<longleftrightarrow> cache_ok r {} \<and> fs_env r \<and> dirty_blocks r = {} \<and> memdisk r = D \<and> disksize r = sz
     \<and> length (lh_block r) = LOGSIZE"

lemma rebootedD:
  assumes "rebooted r sz D"
  shows "cache_ok r {}" "fs_env r" "dirty_blocks r = {}" "memdisk r = D" "disksize r = sz" "length (lh_block r) = LOGSIZE"
    "view r = D" "card (dirty_blocks r) < NBUF"
proof -
  show r: "cache_ok r {}" "fs_env r" "dirty_blocks r = {}" "memdisk r = D" "disksize r = sz" "length (lh_block r) = LOGSIZE"
    using assms by (simp_all add: rebooted_def)
  show "view r = D" using view_clean [OF r(1)] r(3,4) by auto
  show "card (dirty_blocks r) < NBUF" using r(3) by (simp add: NBUF_def MAXOPBLOCKS_def)
qed

lemma rebooted_quiet:
  assumes "rebooted r sz D" and "cache_ok t {}" "fs_frame r t" "dirty_blocks t = dirty_blocks r" "memdisk t = memdisk r"
  shows "rebooted t sz D"
  using assms fs_env_frame [OF assms(3)] fs_frame_log(3) [OF assms(3)] fs_frame_sel(3) [OF assms(3)]
  by (simp add: rebooted_def)

lemma caches_log_upd [simp]: "caches (s\<lparr>lh_n := n\<rparr>) = caches s" "caches (s\<lparr>lh_block := bs\<rparr>) = caches s"
  by (simp_all add: caches_def fun_eq_iff)

lemma read_head_read:
  assumes r: "rebooted r sz D" and ls: "log_dev r = 1" "log_start r < sz" and n: "decode_n (D (log_start r)) \<le> int LOGSIZE"
  obtains t where "read_head r = Ok () t" "rebooted t sz D" "log_dev t = 1" "log_start t = log_start r"
    "lh_n t = decode_n (D (log_start r))" "\<And>i. i < disk_n (log_start r) D \<Longrightarrow> lh_block t ! i = disk_block (log_start r) D i"
    "dwrites t = dwrites r"
proof -
  note rd = rebootedD [OF r]
  have x: "log_start r < disksize r" using ls(2) rd(5) by simp
  obtain b s where b: "bread 1 (log_start r) r = Ok b s" "fs_frame r s" "caches s b (log_start r)"
    "b_data (the_buf s b) = view r (log_start r)" "cache_ok s {b}" "view s = view r" "dirty_blocks s = dirty_blocks r"
    "memdisk s = memdisk r" "dwrites s = dwrites r"
    by (rule read_one [OF rd(1,2) x rd(8)])
  define N where "N = decode_n (D (log_start r))"
  define bs where "bs = map (disk_block (log_start r) D) [0 ..< nat N] @ drop (nat N) (lh_block s)"
  let ?s = "s\<lparr>lh_n := N, lh_block := bs\<rparr>"
  note fl = fs_frame_log [OF b(2)] fs_frame_sel [OF b(2)]
  have len: "length bs = LOGSIZE" using n fl rd(6) by (auto simp: bs_def N_def)
  have c: "caches ?s b (log_start r)" "b_dirty (the_buf ?s b) \<or> b_data (the_buf ?s b) = memdisk ?s (log_start r)"
    using b(3,4,8) rd(4,7) by simp_all
  have e: "cache_ok ?s {b}" "fs_env ?s" using b(5) fs_env_frame [OF b(2) rd(2)] by simp_all
  obtain t where t: "brelse b ?s = Ok () t" "fs_frame ?s t" "cache_ok t {}" "view t = view ?s"
    "dirty_blocks t = dirty_blocks ?s" "memdisk t = memdisk ?s" "dwrites t = dwrites ?s"
    by (rule release_one [OF e c])
  have h: "read_head r = Ok () t"
    using b(1,4) t(1) n ls(1) rd(7) by (simp add: read_head_def Let_def bs_def N_def disk_block_def [abs_def])
  note ft = fs_frame_log [OF t(2)] fs_frame_sel [OF t(2)]
  have "rebooted t sz D" unfolding rebooted_def
    using t(3,5,6) fs_env_frame [OF t(2) e(2)] ft fl rd(3-5) b(7,8) len by simp
  moreover have "lh_block t ! i = disk_block (log_start r) D i" if "i < disk_n (log_start r) D" for i
    using that ft by (simp add: bs_def N_def disk_n_def nth_append)
  ultimately show thesis using that [OF h] ft fl ls(1) t(7) b(9) by (simp add: N_def)
qed

lemma encode_head_0 [simp]: "encode_head 0 bs d = put_uint d 0 0"
  by (simp add: encode_head_def)

text \<open>\<open>recover_from_log\<close> does exactly that.\<close>

lemma recover_wrote:
  assumes r: "rebooted r sz D" and dev: "log_dev r = 1" and d: "log_disk (log_start r) sz D"
  obtains t where "recover_from_log r = Ok () t" "cache_ok t {}" "dirty_blocks t = {}"
    "memdisk t = apply_writes (recover_writes (log_start r) D) D"
    "dwrites t = rev (recover_writes (log_start r) D) @ dwrites r"
proof -
  let ?ls = "log_start r" let ?n = "disk_n ?ls D"
  have n: "?ls < sz" "decode_n (D ?ls) \<le> int LOGSIZE" "?n \<le> LOGSIZE" using d by (auto simp: log_disk_def disk_n_def)
  obtain s where s: "read_head r = Ok () s" "rebooted s sz D" "log_dev s = 1" "log_start s = ?ls"
    "lh_n s = decode_n (D ?ls)" "\<And>i. i < ?n \<Longrightarrow> lh_block s ! i = disk_block ?ls D i" "dwrites s = dwrites r"
    by (rule read_head_read [OF r dev n(1,2)]) (rule that)
  note sd = rebootedD [OF s(2)]
  have tk: "take ?n (lh_block s) = map (disk_block ?ls D) [0 ..< ?n]"
    by (rule nth_equalityI) (use sd(6) n(3) s(6) in simp_all)
  have ok: "log_ok s ?n" unfolding log_ok_def tk using sd s(3,4) d n(3) by (auto simp: log_disk_def)
  have hw: "home_writes s 0 ?n = redo_writes ?ls D"
    unfolding home_writes_def redo_writes_def using s(4,6) sd(7) by (auto intro!: map_cong)
  have room: "(0::nat) < NBUF" "Suc 0 < NBUF" by (simp_all add: NBUF_def MAXOPBLOCKS_def)
  obtain t where t: "install_trans s = Ok () t" "wrote s (redo_writes ?ls D) t"
    using install_loop_wrote [of s 0 ?n] ok sd(3) s(5) room by (auto simp: install_trans_def disk_n_def [symmetric] hw)
  have ne: "?ls \<notin> fst ` set (redo_writes ?ls D)" using d by (force simp: redo_writes_def log_disk_def)
  note ft = fs_frame_log [OF wroteD(2) [OF t(2)]] fs_frame_sel [OF wroteD(2) [OF t(2)]]
  note dt = log_okD [OF log_ok_wrote [OF ok t(2)]]
  have "dirty_blocks t = {}" "view t ?ls = D ?ls"
    using wroteD(5,6) [OF t(2)] sd(3,7) ne by (simp_all add: apply_writes_other)
  then obtain u where u: "write_head (t\<lparr>lh_n := 0\<rparr>) = Ok () u" "wrote (t\<lparr>lh_n := 0\<rparr>) [(?ls, put_uint (D ?ls) 0 0)] u"
    using write_head_wrote [of "t\<lparr>lh_n := 0\<rparr>"] dt(1-5) ft s(3,4) room by auto
  have c: "recover_from_log r = Ok () u" using s(1) t(1) u(1) by (simp add: recover_from_log_def)
  show thesis
    by (rule that [OF c]) (use wroteD [OF u(2)] wroteD [OF t(2)] sd s(7) in \<open>simp_all add: recover_writes_def\<close>)
qed

lemma log_fields_upd [simp]:
  "cache_ok (s\<lparr>log_start := a, log_size := b, log_dev := c\<rparr>) B = cache_ok s B"
  "dirty_blocks (s\<lparr>log_start := a, log_size := b, log_dev := c\<rparr>) = dirty_blocks s"
  "fs_env (s\<lparr>log_start := a, log_size := b, log_dev := c\<rparr>) = fs_env s"
  by (simp_all add: cache_ok_def buf_ok_def caches_def dirty_blocks_def fs_env_def cur_pid_def)

lemma initlog_wrote:
  assumes r: "rebooted r sz D" and ls: "sb_logstart (decode_sb (D 1)) = ls" "1 < sz" and d: "log_disk ls sz D"
  obtains t where "initlog 1 r = Ok () t" "cache_ok t {}" "dirty_blocks t = {}"
    "memdisk t = apply_writes (recover_writes ls D) D" "dwrites t = rev (recover_writes ls D) @ dwrites r"
proof -
  note rd = rebootedD [OF r]
  have x: "1 < disksize r" using ls(2) rd(5) by simp
  obtain b s where b: "bread 1 1 r = Ok b s" "fs_frame r s" "caches s b 1"
    "b_data (the_buf s b) = view r 1" "cache_ok s {b}" "view s = view r" "dirty_blocks s = dirty_blocks r"
    "memdisk s = memdisk r" "dwrites s = dwrites r"
    by (rule read_one [OF rd(1,2) x rd(8)])
  have c: "b_dirty (the_buf s b) \<or> b_data (the_buf s b) = memdisk s 1" using b(4,8) rd(4,7) by simp
  obtain t where t: "brelse b s = Ok () t" "fs_frame s t" "cache_ok t {}" "dirty_blocks t = dirty_blocks s"
    "memdisk t = memdisk s" "dwrites t = dwrites s"
    by (rule release_one [OF b(5) fs_env_frame [OF b(2) rd(2)] b(3) c])
  have sb: "readsb 1 r = Ok (decode_sb (D 1)) t" using b(1,4) t(1) rd(7) by (simp add: readsb_def)
  let ?t = "t\<lparr>log_start := ls, log_size := int (sb_nlog (decode_sb (D 1))), log_dev := 1\<rparr>"
  have "rebooted t sz D"
    by (rule rebooted_quiet [OF r t(3)]) (use fs_frame_trans [OF b(2) t(2)] t(4,5) b(7,8) in simp_all)
  then have r': "rebooted ?t sz D" by (simp add: rebooted_def)
  have i: "initlog 1 r = recover_from_log ?t"
    using sb ls(1) by (simp add: initlog_def LOGSIZE_def MAXOPBLOCKS_def BSIZE_def)
  have e: "log_dev ?t = 1" "log_disk (log_start ?t) sz D" using d by simp_all
  obtain u where "recover_from_log ?t = Ok () u" "cache_ok u {}" "dirty_blocks u = {}"
    "memdisk u = apply_writes (recover_writes (log_start ?t) D) D"
    "dwrites u = rev (recover_writes (log_start ?t) D) @ dwrites ?t"
    by (rule recover_wrote [OF r' e])
  then show thesis using that [of u] i t(6) b(9) by simp
qed

section \<open>Crashes\<close>

text \<open>The disk after the header of the transaction and \<open>j\<close> of its home blocks are written.\<close>

lemma committed_disk:
  assumes p: "pending s n" and n: "n \<le> LOGSIZE" and sz: "disksize s \<le> 2 ^ 32"
    and D: "D = apply_writes (take j (install_writes s n))
      (apply_writes [(log_start s, head s n)] (apply_writes (log_writes s 0 n) (memdisk s)))"
  shows "log_disk (log_start s) (disksize s) D" "D (log_start s) = head s n"
    "redo_writes (log_start s) D = install_writes s n"
    "b \<notin> {log_start s .. log_start s + n} \<Longrightarrow> b \<notin> dirty_blocks s \<Longrightarrow> D b = view s b"
proof -
  let ?ls = "log_start s" let ?H = "install_writes s n"
  note pd = pendingD [OF p] and d = log_okD [OF pendingD(1) [OF p]]
  have keys: "fst ` set (take j ?H) \<subseteq> dirty_blocks s"
    using image_mono [OF set_take_subset [of j ?H], of fst] unfolding pd(6) by (simp add: install_writes_def image_image)
  have D': "D b = (if b = ?ls then head s n else apply_writes (log_writes s 0 n) (memdisk s) b)"
    if "b \<notin> dirty_blocks s" for b
  proof -
    have "b \<notin> fst ` set (take j ?H)" using keys that by blast
    then show ?thesis by (simp add: D apply_writes_other)
  qed
  show Dls: "D ?ls = head s n" using D' [of ?ls] pd(5) [of 0] by simp
  have log: "D (?ls + i + 1) = view s (lh_block s ! i)" if "i < n" for i
    using D' [of "?ls + i + 1"] pd(5) [of "i + 1"] log_writes_get [OF that] that by (simp add: add.assoc)
  have len: "0 \<le> int n" "int n \<le> int LOGSIZE" "nat (int n) \<le> length (take n (lh_block s))" using n d(5) by simp_all
  have "\<forall>b \<in> set (take n (lh_block s)). b < 2 ^ 32"
    using pd(1) sz unfolding log_ok_def by fastforce
  note eh = encode_head_decode [OF len this]
  have he: "head s n = encode_head (int n) (take n (lh_block s)) (view s ?ls)" by (simp add: head_def encode_head_def)
  have dn: "decode_n (D ?ls) = int n" "disk_n ?ls D = n" using eh(1) Dls he by (simp_all add: disk_n_def)
  have db: "disk_block ?ls D i = lh_block s ! i" if "i < n" for i using eh(2) [of i] Dls he that by (simp add: disk_block_def)
  have mp: "map (disk_block ?ls D) [0 ..< n] = take n (lh_block s)" by (rule nth_equalityI) (use db d(5) in simp_all)
  have dist: "distinct (take n (lh_block s))" using pd(1) by (simp add: log_ok_def)
  show "log_disk ?ls (disksize s) D"
    unfolding log_disk_def dn mp using n d(4,6,9) db dist by simp
  show "redo_writes ?ls D = ?H" unfolding redo_writes_def install_writes_def dn using log db by (auto intro!: map_cong)
  show "D b = view s b" if "b \<notin> {?ls .. ?ls + n}" "b \<notin> dirty_blocks s"
    using D' [OF that(2)] apply_writes_other [of b "log_writes s 0 n"] view_clean [OF d(1) that(2)] that(1)
    by (auto simp: log_writes_keys)
qed

text \<open>A disk whose header is empty needs no recovery.\<close>

lemma empty_disk:
  assumes "decode_n (D ls) = 0" and "ls < sz"
  shows "log_disk ls sz D" "redo_writes ls D = []"
  using assms by (simp_all add: log_disk_def redo_writes_def disk_n_def)

lemma decode_n_0 [simp]: "decode_n (put_uint d 0 0) = 0"
  by (simp add: decode_n_def)

lemma install_writes_get:
  assumes p: "pending s n" and b: "b \<in> dirty_blocks s"
  shows "apply_writes (install_writes s n) d b = view s b"
proof -
  note pd = pendingD [OF p] and d = log_okD [OF pendingD(1) [OF p]]
  obtain i where "i < n" "b = lh_block s ! i" using b unfolding pd(6) by auto
  then have "(b, view s b) \<in> set (install_writes s n)" by (auto simp: install_writes_def)
  moreover have "distinct (map fst (install_writes s n))"
    unfolding install_writes_def map_map comp_def fst_conv distinct_map inj_on_def using d(8) by fastforce
  ultimately show ?thesis by (rule apply_writes_distinct [rotated])
qed

lemma initlog_home:
  assumes "rebooted r sz D" and "sb_logstart (decode_sb (D 1)) = ls" and "1 < sz" and "log_disk ls sz D"
  obtains t where "initlog 1 r = Ok () t" "cache_ok t {}" "dirty_blocks t = {}" "decode_n (memdisk t ls) = 0"
    "\<And>b. b \<noteq> ls \<Longrightarrow> memdisk t b = apply_writes (redo_writes ls D) D b"
proof -
  obtain t where "initlog 1 r = Ok () t" "cache_ok t {}" "dirty_blocks t = {}"
    "memdisk t = apply_writes (recover_writes ls D) D"
    by (rule initlog_wrote [OF assms])
  then show thesis by (intro that [of t]) (simp_all add: recover_writes_def)
qed

text \<open>The state of the file system a crash can leave: the log and the superblock are in place.\<close>

definition crash_setup :: "'a klog_scheme \<Rightarrow> nat \<Rightarrow> bool" where
  "crash_setup s n \<longleftrightarrow> pending s n \<and> 0 < n \<and> n \<le> LOGSIZE \<and> disksize s \<le> 2 ^ 32
     \<and> 1 < log_start s \<and> 1 \<notin> dirty_blocks s \<and> sb_logstart (decode_sb (memdisk s 1)) = log_start s
     \<and> decode_n (memdisk s (log_start s)) = 0"

lemma crash_before:
  assumes c: "crash_setup s n" and k: "k \<le> n"
    and r: "rebooted r (disksize s) (apply_writes (take k (commit_writes s n)) (memdisk s))"
  shows "\<exists>t. initlog 1 r = Ok () t \<and> decode_n (memdisk t (log_start s)) = 0
    \<and> (\<forall>b. b \<notin> {log_start s .. log_start s + n} \<longrightarrow> memdisk t b = memdisk s b)"
proof -
  let ?ls = "log_start s" let ?D = "apply_writes (take k (log_writes s 0 n)) (memdisk s)"
  have p: "pending s n" and c': "1 < ?ls" "sb_logstart (decode_sb (memdisk s 1)) = ?ls" "decode_n (memdisk s ?ls) = 0"
    using c by (simp_all add: crash_setup_def)
  have e: "take k (commit_writes s n) = take k (log_writes s 0 n)" using k by (simp add: commit_writes_def log_writes_def)
  have "fst ` set (take k (log_writes s 0 n)) \<subseteq> {?ls + 1 .. ?ls + n}"
    using image_mono [OF set_take_subset, of fst k "log_writes s 0 n"] by (simp add: log_writes_keys)
  then have D: "?D b = memdisk s b" if "b \<notin> {?ls + 1 .. ?ls + n}" for b using apply_writes_other that by blast
  have ls: "?D ?ls = memdisk s ?ls" "?D 1 = memdisk s 1" using D [of ?ls] D [of 1] c'(1) by simp_all
  have sz: "?ls < disksize s" "1 < disksize s" using log_okD(4) [OF pendingD(1) [OF p]] c'(1) by simp_all
  note emp = empty_disk [of ?D ?ls "disksize s", unfolded ls(1), OF c'(3) sz(1)]
  obtain t where t: "initlog 1 r = Ok () t" "decode_n (memdisk t ?ls) = 0"
    "\<And>b. b \<noteq> ?ls \<Longrightarrow> memdisk t b = apply_writes (redo_writes ?ls ?D) ?D b"
    by (rule initlog_home [OF r [unfolded e] _ sz(2) emp(1)]) (use ls c' in auto)
  have "memdisk t b = memdisk s b" if "b \<notin> {?ls .. ?ls + n}" for b
    using t(3) [of b] D [of b] that by (auto simp: emp(2))
  with t(1,2) show ?thesis by blast
qed

text \<open>What recovery makes of the disk once the header is written: the new content of every block.\<close>

lemma commit_home:
  assumes p: "pending s n" and b: "b \<notin> {log_start s .. log_start s + n}"
  shows "apply_writes (install_writes s n) (apply_writes ((log_start s, h) # take j (install_writes s n))
    (apply_writes (log_writes s 0 n) (memdisk s))) b = view s b"
proof (cases "b \<in> dirty_blocks s")
  case True then show ?thesis by (rule install_writes_get [OF p])
next
  case False
  have "fst ` set (take j (install_writes s n)) \<subseteq> fst ` set (install_writes s n)" by (rule image_mono [OF set_take_subset])
  moreover have "fst ` set (install_writes s n) = dirty_blocks s"
    unfolding pendingD(6) [OF p] by (simp add: install_writes_def image_image)
  ultimately have "b \<notin> fst ` set (install_writes s n)" "b \<notin> fst ` set (take j (install_writes s n))" using False by blast+
  moreover have "b \<notin> fst ` set (log_writes s 0 n)" "b \<noteq> log_start s" using b by (auto simp: log_writes_keys)
  ultimately show ?thesis
    using view_clean [OF log_okD(1) [OF pendingD(1) [OF p]] False] by (simp add: apply_writes_other)
qed

lemma crash_disk:
  assumes c: "crash_setup s n" and k: "n < k" and D: "D = apply_writes (take k (commit_writes s n)) (memdisk s)"
  shows "log_disk (log_start s) (disksize s) D \<and> D 1 = memdisk s 1
    \<and> (\<forall>b. b \<notin> {log_start s .. log_start s + n} \<longrightarrow> apply_writes (redo_writes (log_start s) D) D b = view s b)"
proof -
  let ?ls = "log_start s" let ?H = "install_writes s n"
  define M where "M j = apply_writes (take j ?H)
    (apply_writes [(?ls, head s n)] (apply_writes (log_writes s 0 n) (memdisk s)))" for j
  have p: "pending s n" and c': "1 < ?ls" "n \<le> LOGSIZE" "disksize s \<le> 2 ^ 32" "1 \<notin> dirty_blocks s"
    using c by (simp_all add: crash_setup_def)
  note md = committed_disk [OF p c'(2,3) M_def]
  obtain j where j: "k = n + 1 + j" using le_Suc_ex [of "n + 1" k] k by auto
  have len: "length (log_writes s 0 n) = n" "length ?H = n" by (simp_all add: log_writes_def install_writes_def)
  have "view s 1 = memdisk s 1" by (rule view_clean [OF log_okD(1) [OF pendingD(1) [OF p]] c'(4)]) simp
  then have M1: "M i 1 = memdisk s 1" for i using md(4) [of 1 i] c'(1,4) by simp
  have home: "apply_writes ?H (M i) b = view s b" if "b \<notin> {?ls .. ?ls + n}" for i b
    using commit_home [OF p that] by (simp add: M_def)
  show ?thesis
  proof (cases "j \<le> n")
    case True
    then have "D = M j" unfolding D M_def j commit_writes_def using len by simp
    then show ?thesis using md M1 home by simp
  next
    case False
    then have D': "D = (M n)(?ls := put_uint (head s n) 0 0)"
      unfolding D M_def j commit_writes_def using len by (simp add: take_Cons')
    have sz: "?ls < disksize s" using log_okD(4) [OF pendingD(1) [OF p]] by simp
    have "apply_writes ?H (M 0) = M n" by (simp add: M_def len)
    then show ?thesis using empty_disk [of D ?ls "disksize s"] sz M1 [of n] c'(1) home [of _ 0] by (simp add: D')
  qed
qed

lemma crash_after:
  assumes c: "crash_setup s n" and k: "n < k"
    and r: "rebooted r (disksize s) (apply_writes (take k (commit_writes s n)) (memdisk s))"
  shows "\<exists>t. initlog 1 r = Ok () t \<and> decode_n (memdisk t (log_start s)) = 0
    \<and> (\<forall>b. b \<notin> {log_start s .. log_start s + n} \<longrightarrow> memdisk t b = view s b)"
proof -
  let ?ls = "log_start s" let ?D = "apply_writes (take k (commit_writes s n)) (memdisk s)"
  have c': "pending s n" "1 < ?ls" "sb_logstart (decode_sb (memdisk s 1)) = ?ls" using c by (simp_all add: crash_setup_def)
  have sz: "1 < disksize s" using log_okD(4) [OF pendingD(1) [OF c'(1)]] c'(2) by simp
  have d: "log_disk ?ls (disksize s) ?D" "?D 1 = memdisk s 1"
    "\<And>b. b \<notin> {?ls .. ?ls + n} \<Longrightarrow> apply_writes (redo_writes ?ls ?D) ?D b = view s b"
    using crash_disk [OF c k refl] by blast+
  obtain t where t: "initlog 1 r = Ok () t" "decode_n (memdisk t ?ls) = 0"
    "\<And>b. b \<noteq> ?ls \<Longrightarrow> memdisk t b = apply_writes (redo_writes ?ls ?D) ?D b"
    by (rule initlog_home [OF r _ sz d(1)]) (use d(2) c' in auto)
  then have "memdisk t b = view s b" if "b \<notin> {?ls .. ?ls + n}" for b using d(3) [OF that] t(3) [of b] that by auto
  with t(1,2) show ?thesis by blast
qed

lemma apply_writes_map_of: "apply_writes ws d b = (case map_of (rev ws) b of Some x \<Rightarrow> x | None \<Rightarrow> d b)"
  by (induction ws rule: rev_induct) auto

lemma apply_writes_absorb:
  assumes v: "fst ` set vs \<subseteq> fst ` set ws"
  shows "apply_writes ws (apply_writes vs d) = apply_writes ws d"
proof
  fix b
  have "apply_writes vs d b = d b" if "map_of (rev ws) b = None"
    using that v by (intro apply_writes_other) (auto simp: map_of_eq_None_iff)
  then show "apply_writes ws (apply_writes vs d) b = apply_writes ws d b"
    by (simp add: apply_writes_map_of split: option.split)
qed

text \<open>Recovery may be interrupted and repeated.\<close>

lemma recover_again:
  assumes d: "log_disk ls sz D" and D': "D' = apply_writes (take k (recover_writes ls D)) D"
  shows "log_disk ls sz D' \<and> (\<forall>b. b \<noteq> ls \<longrightarrow> apply_writes (redo_writes ls D') D' b = apply_writes (redo_writes ls D) D b)"
proof (cases "k \<le> disk_n ls D")
  case True
  let ?R = "redo_writes ls D"
  have len: "length ?R = disk_n ls D" by (simp add: redo_writes_def)
  have D'': "D' = apply_writes (take k ?R) D" using True by (simp add: D' recover_writes_def len)
  have sub: "fst ` set (take k ?R) \<subseteq> fst ` set ?R" by (rule image_mono [OF set_take_subset])
  have "fst ` set ?R \<inter> {ls .. ls + disk_n ls D} = {}" using d by (auto simp: redo_writes_def log_disk_def)
  then have log: "D' b = D b" if "b \<in> {ls .. ls + disk_n ls D}" for b
    unfolding D'' using sub that by (intro apply_writes_other) blast
  have e: "D' ls = D ls" "disk_n ls D' = disk_n ls D" "disk_block ls D' = disk_block ls D"
    using log [of ls] by (simp_all add: disk_n_def disk_block_def [abs_def])
  have "redo_writes ls D' = ?R" unfolding redo_writes_def e using log by (intro map_cong) auto
  then show ?thesis using d e apply_writes_absorb [OF sub] by (simp add: log_disk_def D'')
next
  case False
  then have "D' = (apply_writes (redo_writes ls D) D)(ls := put_uint (D ls) 0 0)"
    by (simp add: D' recover_writes_def redo_writes_def take_Cons')
  then show ?thesis using empty_disk [of D' ls sz] d by (simp add: log_disk_def)
qed

section \<open>A disk with a log\<close>

text \<open>A kernel booting from the disk \<open>D\<close> of 1000 blocks.\<close>

definition log_zero :: "(nat \<Rightarrow> bytes) \<Rightarrow> klog" where
  "log_zero D = kbase.extend (boot_kbase\<lparr>ptable := [zero_proc], curproc := Some 0\<rparr>)
     \<lparr>mem = zero_bytes, freelist = 0, use_lock = False, kend = 0, kdata = 0,
      bcache = replicate (NBUF + 1) zero_buf, memdisk = D, disksize = 1000, dwrites = [],
      log_start = 2, log_size = 30, outstanding = 0, committing = False, log_dev = 1, lh_n = 0,
      lh_block = replicate LOGSIZE 0\<rparr>"

definition log_boot :: "(nat \<Rightarrow> bytes) \<Rightarrow> klog" where
  "log_boot D = binit (log_zero D)"

lemma log_zero_fresh: "j < NBUF + 1 \<Longrightarrow> fresh_buf (bcache (log_zero D) ! j)" "length (bcache (log_zero D)) = NBUF + 1"
  by (simp_all add: log_zero_def kbase.defs del: replicate.simps)
    (simp add: zero_buf_def fresh_buf_def initsleeplock_def)

lemma log_boot_fresh: "b < NBUF \<Longrightarrow> fresh_buf (the_buf (log_boot D) b)"
  unfolding log_boot_def by (rule binit_fresh) (use log_zero_fresh in auto)

lemma log_boot_fields: "held (log_boot D) = []" "curproc (log_boot D) = Some 0" "length (ptable (log_boot D)) = 1"
  "disksize (log_boot D) = 1000" "memdisk (log_boot D) = D" "length (lh_block (log_boot D)) = LOGSIZE"
  "log_start (log_boot D) = 2" "log_dev (log_boot D) = 1"
  by (simp_all add: log_boot_def log_zero_def binit_def Let_def kbase.defs boot_kbase_def)

lemma log_boot_rebooted: "rebooted (log_boot D) 1000 D"
proof -
  have "cache_ok (log_boot D) {}" unfolding log_boot_def by (rule binit_cache_ok) (use log_zero_fresh in auto)
  moreover have "dirty_blocks (log_boot D) = {}"
    using log_boot_fresh by (auto simp: dirty_blocks_def caches_def fresh_buf_def)
  ultimately show ?thesis using log_boot_fields by (simp add: rebooted_def fs_env_def)
qed

text \<open>The same kernel with block 100 changed, but only in the cache, by a transaction.\<close>

definition log_disk0 :: "nat \<Rightarrow> bytes" where
  "log_disk0 = (\<lambda>n. zero_bytes)(1 := put_uint zero_bytes 4 2)"

definition log_one :: klog where
  "log_one = upd_buf 0 (\<lambda>x. x\<lparr>b_valid := True, b_dirty := True, b_dev := 1, b_blockno := 100, b_data := (\<lambda>_. 7)\<rparr>)
     (log_boot log_disk0\<lparr>lh_n := 1, lh_block := (replicate LOGSIZE 0)[0 := 100]\<rparr>)"

lemma log_one_buf:
  "the_buf log_one 0 = the_buf (log_boot log_disk0) 0\<lparr>b_valid := True, b_dirty := True, b_dev := 1, b_blockno := 100,
     b_data := (\<lambda>_. 7)\<rparr>"
  "b \<noteq> 0 \<Longrightarrow> the_buf log_one b = the_buf (log_boot log_disk0) b"
proof -
  have "0 < length (bcache (log_boot log_disk0))"
    using cache_ok_length [OF rebootedD(1) [OF log_boot_rebooted]] by simp
  then show "the_buf log_one 0 = the_buf (log_boot log_disk0) 0\<lparr>b_valid := True, b_dirty := True, b_dev := 1,
     b_blockno := 100, b_data := (\<lambda>_. 7)\<rparr>"
    by (simp add: log_one_def)
qed (simp add: log_one_def)

lemma log_one_caches: "caches log_one b bno \<longleftrightarrow> b = 0 \<and> bno = 100"
  using log_boot_fresh [of b log_disk0] log_one_buf
  by (cases "b = 0") (auto simp: caches_def fresh_buf_def NBUF_def MAXOPBLOCKS_def)

lemma log_one_fields: "held log_one = []" "curproc log_one = Some 0" "length (ptable log_one) = 1"
  "disksize log_one = 1000" "memdisk log_one = log_disk0" "lh_block log_one = (replicate LOGSIZE 0)[0 := 100]"
  "log_start log_one = 2" "log_dev log_one = 1" "lh_n log_one = 1" "dwrites log_one = []"
  by (simp_all add: log_one_def upd_buf_def log_boot_fields)
    (simp add: log_boot_def log_zero_def binit_def Let_def kbase.defs)

lemma log_one_ok: "cache_ok log_one {}"
proof -
  obtain xs where "ring (bcache (log_boot log_disk0)) xs"
    using cache_okD(1) [OF rebootedD(1) [OF log_boot_rebooted]] by blast
  then have "ring (bcache log_one) xs"
    unfolding log_one_def upd_buf_def by (simp add: ring_upd_buf)
  moreover have "buf_ok log_one {} b" if "b < NBUF" for b
    using log_boot_fresh [OF that, of log_disk0] log_one_buf log_one_fields
    by (cases "b = 0") (auto simp: buf_ok_def fresh_buf_def)
  ultimately show ?thesis unfolding cache_ok_def log_one_caches by auto
qed

lemma log_one_dirty: "dirty_blocks log_one = {100}" "view log_one 100 = (\<lambda>_. 7)"
  using view_cached [OF log_one_ok, of 0 100] by (auto simp: dirty_blocks_def log_one_caches log_one_buf)

lemma log_one_setup: "crash_setup log_one 1"
  unfolding crash_setup_def pending_def log_ok_def fs_env_def
  using log_one_ok take_Suc_conv_app_nth [of 0 "(replicate LOGSIZE 0)[0 := 100 :: nat]"]
  by (simp add: log_one_fields log_one_dirty log_disk0_def decode_sb_def decode_n_def NBUF_def LOGSIZE_def MAXOPBLOCKS_def)

text \<open>A disk whose log holds one block.\<close>

definition log_disk1 :: "nat \<Rightarrow> bytes" where
  "log_disk1 = log_disk0(2 := put_uint (put_uint zero_bytes 0 1) 1 100, 3 := (\<lambda>_. 9))"

lemma log_disk1_log: "disk_n 2 log_disk1 = 1" "disk_block 2 log_disk1 0 = 100" "decode_n (log_disk1 2) = 1"
  "log_disk1 3 = (\<lambda>_. 9)" "sb_logstart (decode_sb (log_disk1 1)) = 2"
  by (simp_all add: log_disk1_def log_disk0_def disk_n_def disk_block_def decode_n_def decode_sb_def)

lemma log_disk1_ok: "log_disk 2 1000 log_disk1"
  by (simp add: log_disk_def log_disk1_log LOGSIZE_def MAXOPBLOCKS_def)

section \<open>Properties\<close>

text \<open>
  C1: A commit is atomic over crashes. The writes of \<open>commit\<close> are known, and whatever prefix of them
  reached the disk, the kernel that boots from that disk recovers: the log is empty again and every
  block outside the log has its old content if the header block had not been written, and the
  content the transaction gave it if it had. Without a crash every block has the new content.
\<close>

theorem crash_atomic:
  assumes "crash_setup s n"
  shows "(\<exists>t. commit s = Ok () t \<and> dwrites t = rev (commit_writes s n) @ dwrites s
      \<and> (\<forall>b. b \<notin> {log_start s .. log_start s + n} \<longrightarrow> memdisk t b = view s b))
    \<and> (\<forall>k r. rebooted r (disksize s) (apply_writes (take k (commit_writes s n)) (memdisk s)) \<longrightarrow>
        (\<exists>t. initlog 1 r = Ok () t \<and> decode_n (memdisk t (log_start s)) = 0
          \<and> (\<forall>b. b \<notin> {log_start s .. log_start s + n} \<longrightarrow>
                memdisk t b = (if k \<le> n then memdisk s b else view s b))))"
proof -
  have p: "pending s n" "0 < n" using assms by (simp_all add: crash_setup_def)
  obtain t where t: "commit s = Ok () t" "dwrites t = rev (commit_writes s n) @ dwrites s"
    "memdisk t = apply_writes (commit_writes s n) (memdisk s)"
    by (rule commit_wrote [OF p])
  have "memdisk t b = view s b" if "b \<notin> {log_start s .. log_start s + n}" for b
    using commit_home [OF p(1) that, of "head s n" 0] that by (auto simp: t(3) commit_writes_def)
  then have "\<exists>t. commit s = Ok () t \<and> dwrites t = rev (commit_writes s n) @ dwrites s
      \<and> (\<forall>b. b \<notin> {log_start s .. log_start s + n} \<longrightarrow> memdisk t b = view s b)"
    using t by blast
  moreover have "\<exists>t. initlog 1 r = Ok () t \<and> decode_n (memdisk t (log_start s)) = 0
      \<and> (\<forall>b. b \<notin> {log_start s .. log_start s + n} \<longrightarrow> memdisk t b = (if k \<le> n then memdisk s b else view s b))"
    if "rebooted r (disksize s) (apply_writes (take k (commit_writes s n)) (memdisk s))" for k r
    using crash_before [OF assms _ that] crash_after [OF assms _ that] by (cases "k \<le> n") simp_all
  ultimately show ?thesis by blast
qed

theorem crash_atomic_witness:
  "\<exists>t u. commit log_one = Ok () t
    \<and> initlog 1 (log_boot (apply_writes (take 1 (commit_writes log_one 1)) log_disk0)) = Ok () u \<and> memdisk u 100 0 = 0
    \<and> (\<exists>v. initlog 1 (log_boot (apply_writes (take 2 (commit_writes log_one 1)) log_disk0)) = Ok () v \<and> memdisk v 100 0 = 7)"
proof -
  note c = crash_atomic [OF log_one_setup, unfolded log_one_fields]
  have r: "\<exists>t. initlog 1 (log_boot (apply_writes (take k (commit_writes log_one 1)) log_disk0)) = Ok () t
    \<and> memdisk t 100 = (if k \<le> 1 then log_disk0 100 else view log_one 100)" for k
    using c log_boot_rebooted [of "apply_writes (take k (commit_writes log_one 1)) log_disk0"] by fastforce
  show ?thesis using c r [of 1] r [of 2] log_one_dirty(2) by (auto simp: log_disk0_def zero_bytes_def)
qed

text \<open>
  C11: Recovery may itself be cut off by a crash: whatever prefix of its writes reached the disk, the
  recovery of the next boot leaves every block but the header as an uninterrupted one does.
\<close>

theorem recovery_restartable:
  assumes "rebooted r sz D" and "sb_logstart (decode_sb (D 1)) = ls" and "1 < ls" and "log_disk ls sz D"
    and "\<forall>i < disk_n ls D. disk_block ls D i \<noteq> 1"
  shows "\<exists>t. initlog 1 r = Ok () t \<and> dwrites t = rev (recover_writes ls D) @ dwrites r
    \<and> (\<forall>k r'. rebooted r' sz (apply_writes (take k (recover_writes ls D)) D) \<longrightarrow>
        (\<exists>u. initlog 1 r' = Ok () u \<and> (\<forall>b. b \<noteq> ls \<longrightarrow> memdisk u b = memdisk t b)))"
proof -
  have sz: "1 < sz" using assms(3,4) by (simp add: log_disk_def)
  obtain t where t: "initlog 1 r = Ok () t" "memdisk t = apply_writes (recover_writes ls D) D"
    "dwrites t = rev (recover_writes ls D) @ dwrites r"
    by (rule initlog_wrote [OF assms(1,2) sz assms(4)])
  have "\<exists>u. initlog 1 r' = Ok () u \<and> (\<forall>b. b \<noteq> ls \<longrightarrow> memdisk u b = memdisk t b)"
    if r': "rebooted r' sz (apply_writes (take k (recover_writes ls D)) D)" for k r'
  proof -
    let ?D = "apply_writes (take k (recover_writes ls D)) D"
    have ra: "log_disk ls sz ?D" "\<And>b. b \<noteq> ls \<Longrightarrow> apply_writes (redo_writes ls ?D) ?D b = apply_writes (redo_writes ls D) D b"
      using recover_again [OF assms(4) refl] by blast+
    have "1 \<notin> fst ` set (recover_writes ls D)" using assms(3,5) by (auto simp: recover_writes_def redo_writes_def)
    then have "1 \<notin> fst ` set (take k (recover_writes ls D))" using set_take_subset by fast
    then have sb: "sb_logstart (decode_sb (?D 1)) = ls" using assms(2) by (simp add: apply_writes_other)
    obtain u where "initlog 1 r' = Ok () u" "\<And>b. b \<noteq> ls \<Longrightarrow> memdisk u b = apply_writes (redo_writes ls ?D) ?D b"
      by (rule initlog_home [OF r' sb sz ra(1)]) (rule that)
    then show ?thesis using ra(2) t(2) by (auto simp: recover_writes_def)
  qed
  then show ?thesis using t by blast
qed

theorem recovery_restartable_witness:
  "\<exists>t u. initlog 1 (log_boot log_disk1) = Ok () t \<and> initlog 1 (log_boot (log_disk1(100 := (\<lambda>_. 9)))) = Ok () u
    \<and> memdisk u 100 = memdisk t 100"
proof -
  have w: "apply_writes (take 1 (recover_writes 2 log_disk1)) log_disk1 = log_disk1(100 := (\<lambda>_. 9))"
    by (simp add: recover_writes_def redo_writes_def log_disk1_log)
      (simp only: numeral_3_eq_3 [symmetric] log_disk1_log)
  have h: "1 < (2::nat)" "\<forall>i < disk_n 2 log_disk1. disk_block 2 log_disk1 i \<noteq> 1" by (simp_all add: log_disk1_log)
  obtain t where t: "initlog 1 (log_boot log_disk1) = Ok () t" and
    "\<forall>k r'. rebooted r' 1000 (apply_writes (take k (recover_writes 2 log_disk1)) log_disk1) \<longrightarrow>
        (\<exists>u. initlog 1 (r' :: klog) = Ok () u \<and> (\<forall>b. b \<noteq> 2 \<longrightarrow> memdisk u b = memdisk t b))"
    using recovery_restartable [OF log_boot_rebooted log_disk1_log(5) h(1) log_disk1_ok h(2)] by blast
  moreover have "rebooted (log_boot (log_disk1(100 := (\<lambda>_. 9)))) 1000 (apply_writes (take 1 (recover_writes 2 log_disk1)) log_disk1)"
    unfolding w by (rule log_boot_rebooted)
  ultimately have "\<exists>u. initlog 1 (log_boot (log_disk1(100 := (\<lambda>_. 9)))) = Ok () u \<and> (\<forall>b. b \<noteq> 2 \<longrightarrow> memdisk u b = memdisk t b)"
    by blast
  with t show ?thesis by auto
qed

end
