(* ===== verification/Fs.thy ===== *)
theory Fs
  imports Log
begin

text \<open>
  The file system proper (\<open>fs.c\<close>, \<open>fs.h\<close>): block allocator, inodes and their cache, file
  content through direct, indirect, double and triple indirect blocks, directories and path
  names. An inode pointer is an index into \<open>icache\<close>. Data that the code copies to or from a
  caller's memory is a byte list; names and paths are byte lists without their NUL.
\<close>

section \<open>Layout\<close>

definition ROOTINO :: nat where [kconst]: "ROOTINO = 1"
definition NDIRECT :: nat where [kconst]: "NDIRECT = 10"
definition NINDIRECT :: nat where [kconst]: "NINDIRECT = BSIZE div 4"
definition MAXFILE :: nat where [kconst]:
  "MAXFILE = NDIRECT + NINDIRECT + NINDIRECT * NINDIRECT + NINDIRECT * NINDIRECT * NINDIRECT"
definition IPB :: nat where [kconst]: "IPB = BSIZE div 64"
definition BPB :: nat where [kconst]: "BPB = BSIZE * 8"
definition DIRSIZ :: nat where [kconst]: "DIRSIZ = 14"
definition T_DIR :: int where [kconst]: "T_DIR = 1"
definition T_FILE :: int where [kconst]: "T_FILE = 2"
definition T_DEV :: int where [kconst]: "T_DEV = 3"

definition IBLOCK :: "nat \<Rightarrow> superblock \<Rightarrow> nat" where
  "IBLOCK i sb = i div IPB + sb_inodestart sb"

definition BBLOCK :: "nat \<Rightarrow> superblock \<Rightarrow> nat" where
  "BBLOCK b sb = b div BPB + sb_bmapstart sb"

text \<open>A \<open>short\<close> at index \<open>i\<close> of an array of shorts.\<close>

definition get_short :: "bytes \<Rightarrow> nat \<Rightarrow> int" where
  "get_short d i = sint (ucast (d (2 * i)) OR push_bit 8 (ucast (d (2 * i + 1))) :: 16 word)"

definition put_short :: "bytes \<Rightarrow> nat \<Rightarrow> int \<Rightarrow> bytes" where
  "put_short d i v =
     d(2 * i := ucast (of_int v :: 16 word), 2 * i + 1 := ucast (drop_bit 8 (of_int v :: 16 word)))"

record dinode =
  d_type :: int
  d_major :: int
  d_minor :: int
  d_nlink :: int
  d_size :: nat
  d_addrs :: "nat list"

record inode =
  i_dev :: nat
  i_inum :: nat
  i_ref :: int
  i_lock :: sleeplock
  i_valid :: bool
  i_type :: int
  i_major :: int
  i_minor :: int
  i_nlink :: int
  i_size :: nat
  i_addrs :: "nat list"

record kfs = klog +
  sb :: superblock
  icache :: "inode list"

text \<open>Entry \<open>k\<close> of a block of on-disk inodes; each takes 64 bytes.\<close>

definition get_dinode :: "bytes \<Rightarrow> nat \<Rightarrow> dinode" where
  "get_dinode d k =
     \<lparr>d_type = get_short d (32 * k), d_major = get_short d (32 * k + 1),
      d_minor = get_short d (32 * k + 2), d_nlink = get_short d (32 * k + 3),
      d_size = unat (get_uint d (16 * k + 2)),
      d_addrs = map (\<lambda>j. unat (get_uint d (16 * k + 3 + j))) [0 ..< NDIRECT + 3]\<rparr>"

fun put_words :: "nat \<Rightarrow> nat list \<Rightarrow> bytes \<Rightarrow> bytes" where
  "put_words w [] d = d"
| "put_words w (x # xs) d = put_words (w + 1) xs (put_uint d w (of_nat x))"

definition put_dinode :: "bytes \<Rightarrow> nat \<Rightarrow> dinode \<Rightarrow> bytes" where
  "put_dinode d k di =
     (let d = put_short d (32 * k) (d_type di);
          d = put_short d (32 * k + 1) (d_major di);
          d = put_short d (32 * k + 2) (d_minor di);
          d = put_short d (32 * k + 3) (d_nlink di);
          d = put_uint d (16 * k + 2) (of_nat (d_size di))
      in put_words (16 * k + 3) (d_addrs di) d)"

definition upd_inode :: "nat \<Rightarrow> (inode \<Rightarrow> inode) \<Rightarrow> 'a kfs_scheme \<Rightarrow> 'a kfs_scheme" where
  "upd_inode ip f s = s\<lparr>icache := (icache s)[ip := f (icache s ! ip)]\<rparr>"

abbreviation the_inode :: "'a kfs_scheme \<Rightarrow> nat \<Rightarrow> inode" where
  "the_inode s ip \<equiv> icache s ! ip"

abbreviation data_of :: "'a kfs_scheme \<Rightarrow> nat \<Rightarrow> bytes" where
  "data_of s bp \<equiv> b_data (the_buf s bp)"

section \<open>Blocks\<close>

definition bzero :: "nat \<Rightarrow> nat \<Rightarrow> 'a kfs_scheme \<Rightarrow> (unit, 'a kfs_scheme) kres" where
  "bzero dev bno s =
     kbind (bread dev bno s) (\<lambda>bp s.
     kbind (log_write bp (set_data bp zero_bytes s)) (\<lambda>_ s. brelse bp s))"

definition bit_set :: "bytes \<Rightarrow> nat \<Rightarrow> bool" where
  "bit_set d bi \<longleftrightarrow> d (bi div 8) AND push_bit (bi mod 8) 1 \<noteq> 0"

definition mark_used :: "bytes \<Rightarrow> nat \<Rightarrow> bytes" where
  "mark_used d bi = d(bi div 8 := d (bi div 8) OR push_bit (bi mod 8) 1)"

definition mark_free :: "bytes \<Rightarrow> nat \<Rightarrow> bytes" where
  "mark_free d bi = d(bi div 8 := d (bi div 8) AND NOT (push_bit (bi mod 8) 1))"

text \<open>The inner loop of \<open>balloc\<close>: the first clear bit from \<open>bi\<close> on.\<close>

fun find_clear :: "bytes \<Rightarrow> nat \<Rightarrow> nat \<Rightarrow> nat option" where
  "find_clear d bi 0 = None"
| "find_clear d bi (Suc k) = (if \<not> bit_set d bi then Some bi else find_clear d (bi + 1) k)"

text \<open>The outer loop over the bitmap blocks; \<open>sz\<close> is \<open>sb.size\<close>, which is set once at boot.\<close>

function balloc_loop :: "nat \<Rightarrow> nat \<Rightarrow> nat \<Rightarrow> 'a kfs_scheme \<Rightarrow> (nat, 'a kfs_scheme) kres" where
  "balloc_loop dev sz b s =
     (if b < sz then
        kbind (bread dev (BBLOCK b (sb s)) s) (\<lambda>bp s.
          case find_clear (data_of s bp) 0 (min BPB (sz - b)) of
            Some bi \<Rightarrow>
              kbind (log_write bp (set_data bp (mark_used (data_of s bp) bi) s)) (\<lambda>_ s.
              kbind (brelse bp s) (\<lambda>_ s.
              kbind (bzero dev (b + bi) s) (\<lambda>_ s. Ok (b + bi) s)))
          | None \<Rightarrow> kbind (brelse bp s) (\<lambda>_ s. balloc_loop dev sz (b + BPB) s))
      else panic ''balloc: out of blocks'')"
  by pat_completeness auto
termination
  by (relation "measure (\<lambda>(dev, sz, b, s). sz - b)") (auto simp: BPB_def BSIZE_def)

declare balloc_loop.simps [simp del]

definition balloc :: "nat \<Rightarrow> 'a kfs_scheme \<Rightarrow> (nat, 'a kfs_scheme) kres" where
  "balloc dev s = balloc_loop dev (sb_size (sb s)) 0 s"

definition bfree :: "nat \<Rightarrow> nat \<Rightarrow> 'a kfs_scheme \<Rightarrow> (unit, 'a kfs_scheme) kres" where
  "bfree dev b s =
     kbind (bread dev (BBLOCK b (sb s)) s) (\<lambda>bp s.
       let bi = b mod BPB
       in if \<not> bit_set (data_of s bp) bi then panic ''freeing free block''
          else kbind (log_write bp (set_data bp (mark_free (data_of s bp) bi) s)) (\<lambda>_ s. brelse bp s))"

section \<open>Inode cache\<close>

definition iinit :: "nat \<Rightarrow> 'a kfs_scheme \<Rightarrow> (unit, 'a kfs_scheme) kres" where
  "iinit dev s =
     kbind (readsb dev (s\<lparr>icache := map (i_lock_update (\<lambda>_. initsleeplock)) (icache s)\<rparr>)) (\<lambda>b s.
       Ok () (s\<lparr>sb := b\<rparr>))"

text \<open>One pass over the cache: the entry for the inode, or else the first unreferenced one.\<close>

definition iget :: "nat \<Rightarrow> nat \<Rightarrow> 'a kfs_scheme \<Rightarrow> (nat, 'a kfs_scheme) kres" where
  "iget dev inum s =
     kbind (acquire IcacheLock s) (\<lambda>_ s.
       case first_index (\<lambda>x. i_ref x > 0 \<and> i_dev x = dev \<and> i_inum x = inum) (icache s) of
         Some ip \<Rightarrow>
           kbind (release IcacheLock (upd_inode ip (\<lambda>x. x\<lparr>i_ref := i_ref x + 1\<rparr>) s)) (\<lambda>_ s. Ok ip s)
       | None \<Rightarrow>
           case first_index (\<lambda>x. i_ref x = 0) (icache s) of
             None \<Rightarrow> panic ''iget: no inodes''
           | Some ip \<Rightarrow>
               kbind (release IcacheLock (upd_inode ip (\<lambda>x. x\<lparr>i_dev := dev, i_inum := inum, i_ref := 1,
                   i_valid := False\<rparr>) s)) (\<lambda>_ s. Ok ip s))"

text \<open>The loop of \<open>ialloc\<close>; \<open>n\<close> is \<open>sb.ninodes\<close>.\<close>

function ialloc_loop :: "nat \<Rightarrow> int \<Rightarrow> nat \<Rightarrow> nat \<Rightarrow> 'a kfs_scheme \<Rightarrow> (nat, 'a kfs_scheme) kres" where
  "ialloc_loop dev ty n inum s =
     (if inum < n then
        kbind (bread dev (IBLOCK inum (sb s)) s) (\<lambda>bp s.
          if d_type (get_dinode (data_of s bp) (inum mod IPB)) = 0 then
            let d = blit (data_of s bp) (64 * (inum mod IPB)) (replicate 64 0)
            in kbind (log_write bp (set_data bp (put_short d (32 * (inum mod IPB)) ty) s)) (\<lambda>_ s.
               kbind (brelse bp s) (\<lambda>_ s. iget dev inum s))
          else kbind (brelse bp s) (\<lambda>_ s. ialloc_loop dev ty n (inum + 1) s))
      else panic ''ialloc: no inodes'')"
  by pat_completeness auto
termination
  by (relation "measure (\<lambda>(dev, ty, n, inum, s). n - inum)") auto

declare ialloc_loop.simps [simp del]

definition ialloc :: "nat \<Rightarrow> int \<Rightarrow> 'a kfs_scheme \<Rightarrow> (nat, 'a kfs_scheme) kres" where
  "ialloc dev ty s = ialloc_loop dev ty (sb_ninodes (sb s)) 1 s"

definition iupdate :: "nat \<Rightarrow> 'a kfs_scheme \<Rightarrow> (unit, 'a kfs_scheme) kres" where
  "iupdate ip s =
     kbind (bread (i_dev (the_inode s ip)) (IBLOCK (i_inum (the_inode s ip)) (sb s)) s) (\<lambda>bp s.
       let x = the_inode s ip;
           di = \<lparr>d_type = i_type x, d_major = i_major x, d_minor = i_minor x, d_nlink = i_nlink x,
                 d_size = i_size x, d_addrs = i_addrs x\<rparr>
       in kbind (log_write bp (set_data bp (put_dinode (data_of s bp) (i_inum x mod IPB) di) s)) (\<lambda>_ s.
          brelse bp s))"

definition idup :: "nat \<Rightarrow> 'a kfs_scheme \<Rightarrow> (nat, 'a kfs_scheme) kres" where
  "idup ip s =
     kbind (acquire IcacheLock s) (\<lambda>_ s.
     kbind (release IcacheLock (upd_inode ip (\<lambda>x. x\<lparr>i_ref := i_ref x + 1\<rparr>) s)) (\<lambda>_ s. Ok ip s))"

abbreviation inode_lock :: "nat \<Rightarrow> 'a kfs_scheme \<Rightarrow> sleeplock" where
  "inode_lock ip s \<equiv> i_lock (the_inode s ip)"

abbreviation set_inode_lock :: "nat \<Rightarrow> sleeplock \<Rightarrow> 'a kfs_scheme \<Rightarrow> 'a kfs_scheme" where
  "set_inode_lock ip l s \<equiv> upd_inode ip (i_lock_update (\<lambda>_. l)) s"

definition ilock :: "nat \<Rightarrow> 'a kfs_scheme \<Rightarrow> (unit, 'a kfs_scheme) kres" where
  "ilock ip s =
     (if i_ref (the_inode s ip) < 1 then panic ''ilock''
      else kbind (acquiresleep (ChInodeLock ip) (inode_lock ip) (set_inode_lock ip) s) (\<lambda>_ s.
        if i_valid (the_inode s ip) then Ok () s
        else kbind (bread (i_dev (the_inode s ip)) (IBLOCK (i_inum (the_inode s ip)) (sb s)) s) (\<lambda>bp s.
          let di = get_dinode (data_of s bp) (i_inum (the_inode s ip) mod IPB);
              s = upd_inode ip (\<lambda>x. x\<lparr>i_type := d_type di, i_major := d_major di, i_minor := d_minor di,
                    i_nlink := d_nlink di, i_size := d_size di, i_addrs := d_addrs di\<rparr>) s
          in kbind (brelse bp s) (\<lambda>_ s.
               let s = upd_inode ip (i_valid_update (\<lambda>_. True)) s
               in if i_type (the_inode s ip) = 0 then panic ''ilock: no type'' else Ok () s))))"

definition iunlock :: "nat \<Rightarrow> 'a kfs_scheme \<Rightarrow> (unit, 'a kfs_scheme) kres" where
  "iunlock ip s =
     kbind (holdingsleep (ChInodeLock ip) (inode_lock ip) s) (\<lambda>h s.
       if \<not> h \<or> i_ref (the_inode s ip) < 1 then panic ''iunlock''
       else releasesleep (ChInodeLock ip) (set_inode_lock ip) s)"

section \<open>Inode content\<close>

text \<open>
  An entry of a direct slot of the inode, and an entry of an indirect block: read it and
  allocate a block for it when it is zero. An index past the end of the block reads and writes
  outside the buffer.
\<close>

definition map_slot :: "nat \<Rightarrow> nat \<Rightarrow> 'a kfs_scheme \<Rightarrow> (nat, 'a kfs_scheme) kres" where
  "map_slot ip k s =
     (let addr = i_addrs (the_inode s ip) ! k
      in if addr \<noteq> 0 then Ok addr s
         else kbind (balloc (i_dev (the_inode s ip)) s) (\<lambda>addr s.
           Ok addr (upd_inode ip (\<lambda>x. x\<lparr>i_addrs := (i_addrs x)[k := addr]\<rparr>) s)))"

definition map_entry :: "nat \<Rightarrow> nat \<Rightarrow> nat \<Rightarrow> 'a kfs_scheme \<Rightarrow> (nat, 'a kfs_scheme) kres" where
  "map_entry ip blk k s =
     kbind (bread (i_dev (the_inode s ip)) blk s) (\<lambda>bp s.
       if k \<ge> NINDIRECT then Fault (Undefined ''bmap: index past the end of the block'')
       else
         let addr = unat (get_uint (data_of s bp) k)
         in if addr \<noteq> 0 then kbind (brelse bp s) (\<lambda>_ s. Ok addr s)
            else kbind (balloc (i_dev (the_inode s ip)) s) (\<lambda>addr s.
                 kbind (log_write bp (set_data bp (put_uint (data_of s bp) k (of_nat addr)) s)) (\<lambda>_ s.
                 kbind (brelse bp s) (\<lambda>_ s. Ok addr s))))"

definition bmap :: "nat \<Rightarrow> nat \<Rightarrow> 'a kfs_scheme \<Rightarrow> (nat, 'a kfs_scheme) kres" where
  "bmap ip bn s =
     (if bn < NDIRECT then map_slot ip bn s
      else
        let bn = bn - NDIRECT
        in if bn < NINDIRECT then
             kbind (map_slot ip NDIRECT s) (\<lambda>addr s. map_entry ip addr bn s)
           else
             let bn = bn - NINDIRECT
             in if bn < NINDIRECT * NINDIRECT then
                  kbind (map_slot ip (NDIRECT + 1) s) (\<lambda>addr s.
                  kbind (map_entry ip addr (bn div NINDIRECT) s) (\<lambda>addr s.
                  map_entry ip addr (bn mod NINDIRECT) s))
                else
                  let bn = bn - NINDIRECT * NINDIRECT
                  in if bn < NINDIRECT * NINDIRECT * NINDIRECT then
                       kbind (map_slot ip (NDIRECT + 2) s) (\<lambda>addr s.
                       kbind (map_entry ip addr (bn div (NINDIRECT * NINDIRECT)) s) (\<lambda>addr s.
                         let bn = bn AND (NINDIRECT * NINDIRECT)
                         in kbind (map_entry ip addr (bn div NINDIRECT) s) (\<lambda>addr s.
                            map_entry ip addr (bn mod NINDIRECT) s)))
                     else panic ''bmap: out of range'')"

text \<open>\<open>itrunc\<close>: the blocks listed in the indirect block held in \<open>bp\<close>, from entry \<open>j\<close> on.\<close>

fun free_entries :: "nat \<Rightarrow> nat \<Rightarrow> nat \<Rightarrow> nat \<Rightarrow> 'a kfs_scheme \<Rightarrow> (unit, 'a kfs_scheme) kres" where
  "free_entries dev bp j 0 s = Ok () s"
| "free_entries dev bp j (Suc k) s =
     (let a = unat (get_uint (data_of s bp) j)
      in kbind (if a \<noteq> 0 then bfree dev a s else Ok () s) (\<lambda>_ s. free_entries dev bp (j + 1) k s))"

fun free_direct :: "nat \<Rightarrow> nat \<Rightarrow> nat \<Rightarrow> 'a kfs_scheme \<Rightarrow> (unit, 'a kfs_scheme) kres" where
  "free_direct ip i 0 s = Ok () s"
| "free_direct ip i (Suc k) s =
     (let x = the_inode s ip
      in kbind (if i_addrs x ! i \<noteq> 0
                then kbind (bfree (i_dev x) (i_addrs x ! i) s) (\<lambda>_ s.
                       Ok () (upd_inode ip (\<lambda>x. x\<lparr>i_addrs := (i_addrs x)[i := 0]\<rparr>) s))
                else Ok () s)
           (\<lambda>_ s. free_direct ip (i + 1) k s))"

text \<open>
  The loop over a block of block numbers at \<open>tp\<close>, whose buffer is released while the block
  below is emptied by \<open>free_below\<close> and read again afterwards.
\<close>

fun free_level ::
    "(nat \<Rightarrow> nat \<Rightarrow> 'a kfs_scheme \<Rightarrow> (unit, 'a kfs_scheme) kres) \<Rightarrow> nat \<Rightarrow> nat \<Rightarrow> nat \<Rightarrow> nat \<Rightarrow> nat
      \<Rightarrow> 'a kfs_scheme \<Rightarrow> (nat, 'a kfs_scheme) kres" where
  "free_level below dev tp bp i 0 s = Ok bp s"
| "free_level below dev tp bp i (Suc k) s =
     (let a = unat (get_uint (data_of s bp) i)
      in if a \<noteq> 0 then
           kbind (brelse bp s) (\<lambda>_ s.
           kbind (below dev a s) (\<lambda>_ s.
           kbind (bfree dev a s) (\<lambda>_ s.
           kbind (bread dev tp s) (\<lambda>bp s. free_level below dev tp bp (i + 1) k s))))
         else free_level below dev tp bp (i + 1) k s)"

definition free_single :: "nat \<Rightarrow> nat \<Rightarrow> 'a kfs_scheme \<Rightarrow> (unit, 'a kfs_scheme) kres" where
  "free_single dev blk s =
     kbind (bread dev blk s) (\<lambda>bp s.
     kbind (free_entries dev bp 0 NINDIRECT s) (\<lambda>_ s. brelse bp s))"

definition free_double :: "nat \<Rightarrow> nat \<Rightarrow> 'a kfs_scheme \<Rightarrow> (unit, 'a kfs_scheme) kres" where
  "free_double dev blk s =
     kbind (bread dev blk s) (\<lambda>bp s.
     kbind (free_level free_single dev blk bp 0 NINDIRECT s) (\<lambda>bp s. brelse bp s))"

definition free_triple :: "nat \<Rightarrow> nat \<Rightarrow> 'a kfs_scheme \<Rightarrow> (unit, 'a kfs_scheme) kres" where
  "free_triple dev blk s =
     kbind (bread dev blk s) (\<lambda>bp s.
     kbind (free_level free_double dev blk bp 0 NINDIRECT s) (\<lambda>bp s. brelse bp s))"

text \<open>Empty slot \<open>k\<close> of the inode with one of these, then free the block itself.\<close>

definition free_slot ::
    "(nat \<Rightarrow> nat \<Rightarrow> 'a kfs_scheme \<Rightarrow> (unit, 'a kfs_scheme) kres) \<Rightarrow> nat \<Rightarrow> nat
      \<Rightarrow> 'a kfs_scheme \<Rightarrow> (unit, 'a kfs_scheme) kres" where
  "free_slot below ip k s =
     (let x = the_inode s ip
      in if i_addrs x ! k \<noteq> 0 then
           kbind (below (i_dev x) (i_addrs x ! k) s) (\<lambda>_ s.
           kbind (bfree (i_dev x) (i_addrs (the_inode s ip) ! k) s) (\<lambda>_ s.
             Ok () (upd_inode ip (\<lambda>x. x\<lparr>i_addrs := (i_addrs x)[k := 0]\<rparr>) s)))
         else Ok () s)"

definition itrunc :: "nat \<Rightarrow> 'a kfs_scheme \<Rightarrow> (unit, 'a kfs_scheme) kres" where
  "itrunc ip s =
     kbind (free_direct ip 0 NDIRECT s) (\<lambda>_ s.
     kbind (free_slot free_single ip NDIRECT s) (\<lambda>_ s.
     kbind (free_slot free_double ip (NDIRECT + 1) s) (\<lambda>_ s.
     kbind (free_slot free_triple ip (NDIRECT + 2) s) (\<lambda>_ s.
     iupdate ip (upd_inode ip (i_size_update (\<lambda>_. 0)) s)))))"

text \<open>The inner part of \<open>iput\<close>: an inode without links is emptied with its last reference.\<close>

definition iput_drop :: "nat \<Rightarrow> 'a kfs_scheme \<Rightarrow> (unit, 'a kfs_scheme) kres" where
  "iput_drop ip s =
     (if i_valid (the_inode s ip) \<and> i_nlink (the_inode s ip) = 0 then
        kbind (acquire IcacheLock s) (\<lambda>_ s.
          let r = i_ref (the_inode s ip)
          in kbind (release IcacheLock s) (\<lambda>_ s.
               if r = 1 then
                 kbind (itrunc ip s) (\<lambda>_ s.
                 kbind (iupdate ip (upd_inode ip (i_type_update (\<lambda>_. 0)) s)) (\<lambda>_ s.
                   Ok () (upd_inode ip (i_valid_update (\<lambda>_. False)) s)))
               else Ok () s))
      else Ok () s)"

definition iput :: "nat \<Rightarrow> 'a kfs_scheme \<Rightarrow> (unit, 'a kfs_scheme) kres" where
  "iput ip s =
     kbind (acquiresleep (ChInodeLock ip) (inode_lock ip) (set_inode_lock ip) s) (\<lambda>_ s.
     kbind (iput_drop ip s) (\<lambda>_ s.
     kbind (releasesleep (ChInodeLock ip) (set_inode_lock ip) s) (\<lambda>_ s.
     kbind (acquire IcacheLock s) (\<lambda>_ s.
     release IcacheLock (upd_inode ip (\<lambda>x. x\<lparr>i_ref := i_ref x - 1\<rparr>) s)))))"

definition iunlockput :: "nat \<Rightarrow> 'a kfs_scheme \<Rightarrow> (unit, 'a kfs_scheme) kres" where
  "iunlockput ip s = kbind (iunlock ip s) (\<lambda>_ s. iput ip s)"

section \<open>Reading and writing\<close>

text \<open>
  \<open>devsw\<close>: the device functions by major number. A read gets the inode and the count and
  delivers the bytes and the return value.
\<close>

record 's devsw =
  dev_read :: "int \<Rightarrow> (nat \<Rightarrow> nat \<Rightarrow> 's \<Rightarrow> (byte list \<times> int, 's) kres) option"
  dev_write :: "int \<Rightarrow> (nat \<Rightarrow> byte list \<Rightarrow> 's \<Rightarrow> (int, 's) kres) option"

record stat =
  st_type :: int
  st_dev :: nat
  st_ino :: nat
  st_nlink :: int
  st_size :: nat

definition stati :: "nat \<Rightarrow> 'a kfs_scheme \<Rightarrow> stat" where
  "stati ip s =
     (let x = the_inode s ip
      in \<lparr>st_type = i_type x, st_dev = i_dev x, st_ino = i_inum x, st_nlink = i_nlink x, st_size = i_size x\<rparr>)"

text \<open>The loop of \<open>readi\<close>, with the number of bytes left.\<close>

function readi_loop :: "nat \<Rightarrow> nat \<Rightarrow> nat \<Rightarrow> 'a kfs_scheme \<Rightarrow> (byte list, 'a kfs_scheme) kres" where
  "readi_loop ip off n s =
     (if n = 0 then Ok [] s
      else
        kbind (bmap ip (off div BSIZE) s) (\<lambda>addr s.
        kbind (bread (i_dev (the_inode s ip)) addr s) (\<lambda>bp s.
          let m = min n (BSIZE - off mod BSIZE);
              chunk = slice (data_of s bp) (off mod BSIZE) m
          in kbind (brelse bp s) (\<lambda>_ s.
             kbind (readi_loop ip (off + m) (n - m) s) (\<lambda>rest s. Ok (chunk @ rest) s)))))"
  by pat_completeness auto
termination
  by (relation "measure (\<lambda>(ip, off, n, s). n)") (auto simp: BSIZE_def)

declare readi_loop.simps [simp del]

definition readi ::
    "'a kfs_scheme devsw \<Rightarrow> nat \<Rightarrow> nat \<Rightarrow> nat \<Rightarrow> 'a kfs_scheme \<Rightarrow> (byte list \<times> int, 'a kfs_scheme) kres" where
  "readi dv ip off n s =
     (let x = the_inode s ip
      in if i_type x = T_DEV then
           if i_major x < 0 \<or> i_major x \<ge> int NDEV then Ok ([], -1) s
           else case dev_read dv (i_major x) of None \<Rightarrow> Ok ([], -1) s | Some f \<Rightarrow> f ip n s
         else if off > i_size x \<or> uadd off n < off then Ok ([], -1) s
         else
           let n = (if uadd off n > i_size x then i_size x - off else n)
           in kbind (readi_loop ip off n s) (\<lambda>bs s. Ok (bs, int n) s))"

function writei_loop :: "nat \<Rightarrow> nat \<Rightarrow> byte list \<Rightarrow> 'a kfs_scheme \<Rightarrow> (unit, 'a kfs_scheme) kres" where
  "writei_loop ip off src s =
     (if src = [] then Ok () s
      else
        kbind (bmap ip (off div BSIZE) s) (\<lambda>addr s.
        kbind (bread (i_dev (the_inode s ip)) addr s) (\<lambda>bp s.
          let m = min (length src) (BSIZE - off mod BSIZE)
          in kbind (log_write bp (set_data bp (blit (data_of s bp) (off mod BSIZE) (take m src)) s)) (\<lambda>_ s.
             kbind (brelse bp s) (\<lambda>_ s. writei_loop ip (off + m) (drop m src) s)))))"
  by pat_completeness auto
termination
  by (relation "measure (\<lambda>(ip, off, src, s). length src)") (auto simp: BSIZE_def)

declare writei_loop.simps [simp del]

definition writei ::
    "'a kfs_scheme devsw \<Rightarrow> nat \<Rightarrow> byte list \<Rightarrow> nat \<Rightarrow> 'a kfs_scheme \<Rightarrow> (int, 'a kfs_scheme) kres" where
  "writei dv ip src off s =
     (let x = the_inode s ip; n = length src
      in if i_type x = T_DEV then
           if i_major x < 0 \<or> i_major x \<ge> int NDEV then Ok (-1) s
           else case dev_write dv (i_major x) of None \<Rightarrow> Ok (-1) s | Some f \<Rightarrow> f ip src s
         else if off > i_size x \<or> uadd off n < off then Ok (-1) s
         else if uadd off n > MAXFILE * BSIZE then Ok (-1) s
         else
           kbind (writei_loop ip off src s) (\<lambda>_ s.
             if n > 0 \<and> off + n > i_size (the_inode s ip)
             then kbind (iupdate ip (upd_inode ip (i_size_update (\<lambda>_. off + n)) s)) (\<lambda>_ s. Ok (int n) s)
             else Ok (int n) s))"

section \<open>Directories\<close>

text \<open>\<open>strncmp\<close> on two names, a missing byte being the NUL.\<close>

fun name_diff :: "nat \<Rightarrow> byte list \<Rightarrow> byte list \<Rightarrow> int" where
  "name_diff 0 xs ys = 0"
| "name_diff (Suc n) [] ys = 0 - (case ys of [] \<Rightarrow> 0 | y # _ \<Rightarrow> uint y)"
| "name_diff (Suc n) (x # xs) [] = uint x"
| "name_diff (Suc n) (x # xs) (y # ys) =
     (if x \<noteq> 0 \<and> x = y then name_diff n xs ys else uint x - uint y)"

definition namecmp :: "byte list \<Rightarrow> byte list \<Rightarrow> int" where
  "namecmp s t = name_diff DIRSIZ s t"

definition de_inum :: "byte list \<Rightarrow> nat" where
  "de_inum de = unat (de ! 0) + 256 * unat (de ! 1)"

definition de_name :: "byte list \<Rightarrow> byte list" where
  "de_name de = drop 2 de"

definition dirent_of :: "nat \<Rightarrow> byte list \<Rightarrow> byte list" where
  "dirent_of inum name =
     (let w = take DIRSIZ (takeWhile (\<lambda>b. b \<noteq> 0) name)
      in [of_nat inum, of_nat (inum div 256)] @ w @ replicate (DIRSIZ - length w) 0)"

definition DIRENT :: nat where [kconst]: "DIRENT = 16"

text \<open>The loop of \<open>dirlookup\<close>, \<open>size\<close> being \<open>dp->size\<close>; it delivers the inode and the offset.\<close>

function dirlookup_loop ::
    "'a kfs_scheme devsw \<Rightarrow> nat \<Rightarrow> byte list \<Rightarrow> nat \<Rightarrow> nat \<Rightarrow> 'a kfs_scheme
      \<Rightarrow> ((nat \<times> nat) option, 'a kfs_scheme) kres" where
  "dirlookup_loop dv dp name sz off s =
     (if off < sz then
        kbind (readi dv dp off DIRENT s) (\<lambda>(de, r) s.
          if r \<noteq> int DIRENT then panic ''dirlookup read''
          else if de_inum de = 0 then dirlookup_loop dv dp name sz (off + DIRENT) s
          else if namecmp name (de_name de) = 0 then
            kbind (iget (i_dev (the_inode s dp)) (de_inum de) s) (\<lambda>ip s. Ok (Some (ip, off)) s)
          else dirlookup_loop dv dp name sz (off + DIRENT) s)
      else Ok None s)"
  by pat_completeness auto
termination
  by (relation "measure (\<lambda>(dv, dp, name, sz, off, s). sz - off)") (auto simp: DIRENT_def)

declare dirlookup_loop.simps [simp del]

definition dirlookup ::
    "'a kfs_scheme devsw \<Rightarrow> nat \<Rightarrow> byte list \<Rightarrow> 'a kfs_scheme \<Rightarrow> ((nat \<times> nat) option, 'a kfs_scheme) kres" where
  "dirlookup dv dp name s =
     (if i_type (the_inode s dp) \<noteq> T_DIR then panic ''dirlookup not DIR''
      else dirlookup_loop dv dp name (i_size (the_inode s dp)) 0 s)"

function find_empty ::
    "'a kfs_scheme devsw \<Rightarrow> nat \<Rightarrow> nat \<Rightarrow> nat \<Rightarrow> 'a kfs_scheme \<Rightarrow> (nat, 'a kfs_scheme) kres" where
  "find_empty dv dp sz off s =
     (if off < sz then
        kbind (readi dv dp off DIRENT s) (\<lambda>(de, r) s.
          if r \<noteq> int DIRENT then panic ''dirlink read''
          else if de_inum de = 0 then Ok off s else find_empty dv dp sz (off + DIRENT) s)
      else Ok off s)"
  by pat_completeness auto
termination
  by (relation "measure (\<lambda>(dv, dp, sz, off, s). sz - off)") (auto simp: DIRENT_def)

declare find_empty.simps [simp del]

definition dirlink ::
    "'a kfs_scheme devsw \<Rightarrow> nat \<Rightarrow> byte list \<Rightarrow> nat \<Rightarrow> 'a kfs_scheme \<Rightarrow> (int, 'a kfs_scheme) kres" where
  "dirlink dv dp name inum s =
     kbind (dirlookup dv dp name s) (\<lambda>r s.
       case r of
         Some (ip, _) \<Rightarrow> kbind (iput ip s) (\<lambda>_ s. Ok (-1) s)
       | None \<Rightarrow>
           kbind (find_empty dv dp (i_size (the_inode s dp)) 0 s) (\<lambda>off s.
           kbind (writei dv dp (dirent_of inum name) off s) (\<lambda>r s.
             if r \<noteq> int DIRENT then panic ''dirlink'' else Ok 0 s)))"

section \<open>Paths\<close>

definition SLASH :: byte where [kconst]: "SLASH = 47"

definition skipelem :: "byte list \<Rightarrow> (byte list \<times> byte list) option" where
  "skipelem path =
     (let path = dropWhile (\<lambda>c. c = SLASH) path
      in if path = [] then None
         else
           let s = takeWhile (\<lambda>c. c \<noteq> SLASH) path;
               name = (if length s \<ge> DIRSIZ then take DIRSIZ s else s)
           in Some (dropWhile (\<lambda>c. c = SLASH) (drop (length s) path), name))"

lemma dropWhile_length: "length (dropWhile P xs) \<le> length xs"
  by (induction xs) auto

lemma skipelem_shorter: "skipelem path = Some (rest, name) \<Longrightarrow> length rest < length path"
proof -
  assume sk: "skipelem path = Some (rest, name)"
  let ?p = "dropWhile (\<lambda>c. c = SLASH) path"
  have ne: "?p \<noteq> []" and rest: "rest = dropWhile (\<lambda>c. c = SLASH) (dropWhile (\<lambda>c. c \<noteq> SLASH) ?p)"
    using sk by (auto simp: skipelem_def Let_def dropWhile_eq_drop split: if_splits)
  obtain c cs where c: "?p = c # cs" "c \<noteq> SLASH" using ne hd_dropWhile [of "\<lambda>c. c = SLASH" path] by (cases ?p) auto
  have "length rest \<le> length (dropWhile (\<lambda>c. c \<noteq> SLASH) cs)" using rest c dropWhile_length by simp
  also have "\<dots> < length ?p" using c(1) dropWhile_length [of "\<lambda>c. c \<noteq> SLASH" cs] by simp
  also have "\<dots> \<le> length path" by (rule dropWhile_length)
  finally show ?thesis .
qed

text \<open>The loop of \<open>namex\<close>; \<open>par\<close> is the argument \<open>nameiparent\<close>, \<open>name\<close> the caller's buffer.\<close>

function namex_loop ::
    "'a kfs_scheme devsw \<Rightarrow> bool \<Rightarrow> byte list \<Rightarrow> byte list \<Rightarrow> nat \<Rightarrow> 'a kfs_scheme
      \<Rightarrow> ((nat \<times> byte list) option, 'a kfs_scheme) kres" where
  "namex_loop dv par path name ip s =
     (case skipelem path of
        None \<Rightarrow>
          if par then kbind (iput ip s) (\<lambda>_ s. Ok None s) else Ok (Some (ip, name)) s
      | Some (rest, name) \<Rightarrow>
          kbind (ilock ip s) (\<lambda>_ s.
            if i_type (the_inode s ip) \<noteq> T_DIR then kbind (iunlockput ip s) (\<lambda>_ s. Ok None s)
            else if par \<and> rest = [] then kbind (iunlock ip s) (\<lambda>_ s. Ok (Some (ip, name)) s)
            else kbind (dirlookup dv ip name s) (\<lambda>r s.
              case r of
                None \<Rightarrow> kbind (iunlockput ip s) (\<lambda>_ s. Ok None s)
              | Some (nxt, _) \<Rightarrow>
                  kbind (iunlockput ip s) (\<lambda>_ s. namex_loop dv par rest name nxt s))))"
  by pat_completeness auto
termination
  by (relation "measure (\<lambda>(dv, par, path, name, ip, s). length path)") (auto simp: skipelem_shorter)

declare namex_loop.simps [simp del]

definition namex ::
    "'a kfs_scheme devsw \<Rightarrow> byte list \<Rightarrow> bool \<Rightarrow> 'a kfs_scheme \<Rightarrow> ((nat \<times> byte list) option, 'a kfs_scheme) kres" where
  "namex dv path par s =
     kbind (if path \<noteq> [] \<and> hd path = SLASH then iget ROOTDEV ROOTINO s
            else case curproc s of
              None \<Rightarrow> Fault (Undefined ''namex without a process'')
            | Some p \<Rightarrow> (case p_cwd (the_proc s p) of
                None \<Rightarrow> Fault (Undefined ''idup of a null pointer'') | Some d \<Rightarrow> idup d s))
       (\<lambda>ip s. namex_loop dv par path [] ip s)"

definition namei ::
    "'a kfs_scheme devsw \<Rightarrow> byte list \<Rightarrow> 'a kfs_scheme \<Rightarrow> (nat option, 'a kfs_scheme) kres" where
  "namei dv path s = kbind (namex dv path False s) (\<lambda>r s. Ok (map_option fst r) s)"

definition nameiparent ::
    "'a kfs_scheme devsw \<Rightarrow> byte list \<Rightarrow> 'a kfs_scheme \<Rightarrow> ((nat \<times> byte list) option, 'a kfs_scheme) kres" where
  "nameiparent dv path s = namex dv path True s"

end
