(* ===== verification/Log_Space.thy ===== *)
theory Log_Space
  imports Log
begin

text \<open>
  The space of the log (\<open>begin_op\<close>, \<open>log_write\<close>, \<open>end_op\<close> of \<open>log.c\<close>): calls in progress as a state
  machine, the invariant of its counters, and the frame lemmas it rests on.
\<close>

section \<open>What the buffer cache leaves alone\<close>

text \<open>The buffer cache does not touch the state of the layers above it.\<close>

lemma sleep_not_Ok [simp]: "sleep c lk s \<noteq> Ok x t"
  by (simp add: sleep_def kbind_eq_Ok split: option.split)

lemma lock_frame:
  fixes s :: "'a kbio_scheme"
  shows "acquire lk s = Ok x t \<Longrightarrow> kbio.more t = kbio.more s" "release lk s = Ok x t \<Longrightarrow> kbio.more t = kbio.more s"
    "wakeup c s = Ok x t \<Longrightarrow> kbio.more t = kbio.more s"
  by (auto simp: acquire_def release_def wakeup_def wakeup1_def kbind_eq_Ok split: if_splits)

lemma upd_buf_frame [simp]: "kbio.more (upd_buf b f s) = kbio.more s" "kbio.more (set_data b d s) = kbio.more s"
  by (simp_all add: upd_buf_def set_data_def)

lemma sleeplock_frame:
  fixes s :: "'a kbio_scheme"
  shows "acquiresleep ch (buf_lock b) (set_buf_lock b) s = Ok x t \<Longrightarrow> kbio.more t = kbio.more s"
    "releasesleep ch (set_buf_lock b) s = Ok x t \<Longrightarrow> kbio.more t = kbio.more s"
    "holdingsleep ch (buf_lock b) s = Ok r t \<Longrightarrow> kbio.more t = kbio.more s"
  by (auto simp: acquiresleep_def acquiresleep_test_def releasesleep_def holdingsleep_def kbind_eq_Ok Let_def
    dest!: lock_frame split: if_splits option.splits)

lemma iderw_frame: "iderw b s = Ok x t \<Longrightarrow> kbio.more t = kbio.more s"
  by (auto simp: iderw_def kbind_eq_Ok dest!: sleeplock_frame split: if_splits)

lemma bget_frame: "bget dev bno s = Ok b t \<Longrightarrow> kbio.more t = kbio.more s"
proof -
  assume "bget dev bno s = Ok b t"
  then obtain u where u: "acquire BcacheLock s = Ok () u" and g:
    "(case find_block NBUF (bcache u) (b_next (the_buf u HEAD)) dev bno of
       None \<Rightarrow> Fault Diverges
     | Some (Some b) \<Rightarrow>
         kbind (release BcacheLock (upd_buf b (\<lambda>x. x\<lparr>b_refcnt := b_refcnt x + 1\<rparr>) u)) (\<lambda>_ s.
         kbind (acquiresleep (ChBufLock b) (buf_lock b) (set_buf_lock b) s) (\<lambda>_ s. Ok b s))
     | Some None \<Rightarrow>
         case find_unused NBUF (bcache u) (b_prev (the_buf u HEAD)) of
           None \<Rightarrow> Fault Diverges
         | Some (Some b) \<Rightarrow>
             kbind (release BcacheLock (upd_buf b (\<lambda>x. x\<lparr>b_dev := dev, b_blockno := bno,
                 b_valid := False, b_dirty := False, b_refcnt := 1\<rparr>) u)) (\<lambda>_ s.
             kbind (acquiresleep (ChBufLock b) (buf_lock b) (set_buf_lock b) s) (\<lambda>_ s. Ok b s))
         | Some None \<Rightarrow> panic ''bget: no buffers'') = Ok b t"
    by (auto simp: bget_def kbind_eq_Ok)
  have "kbio.more t = kbio.more u"
    using g
    by (cases "find_block NBUF (bcache u) (b_next (the_buf u HEAD)) dev bno"
          "find_unused NBUF (bcache u) (b_prev (the_buf u HEAD))" rule: option.exhaust [case_product option.exhaust])
      (auto simp: kbind_eq_Ok dest!: sleeplock_frame lock_frame split: option.split_asm)
  then show ?thesis using lock_frame(1) [OF u] by simp
qed

lemma bread_frame: "bread dev bno s = Ok b t \<Longrightarrow> kbio.more t = kbio.more s"
  by (auto simp: bread_def kbind_eq_Ok dest!: bget_frame iderw_frame split: if_split_asm)

lemma bwrite_frame: "bwrite b s = Ok x t \<Longrightarrow> kbio.more t = kbio.more s"
  by (auto simp: bwrite_def kbind_eq_Ok dest!: sleeplock_frame lock_frame iderw_frame split: if_splits)

lemma brelse_frame: "brelse b s = Ok x t \<Longrightarrow> kbio.more t = kbio.more s"
  by (auto simp: brelse_def kbind_eq_Ok Let_def dest!: sleeplock_frame lock_frame split: if_splits)

lemmas bio_frame = bread_frame bwrite_frame brelse_frame

lemma more_log:
  fixes s t :: "'a klog_scheme"
  assumes "kbio.more t = kbio.more s"
  shows "lh_n t = lh_n s" "outstanding t = outstanding s" "log_size t = log_size s" "lh_block t = lh_block s"
    "committing t = committing s"
  using assms by (cases s; cases t; simp)+

lemma install_loop_frame: "install_loop i k s = Ok x t \<Longrightarrow> kbio.more t = kbio.more s"
proof (induction i k s rule: install_loop.induct)
  case (2 i k s)
  then show ?case by (auto simp: kbind_eq_Ok Let_def dest!: bio_frame)
qed simp

lemma write_log_loop_frame: "write_log_loop i k s = Ok x t \<Longrightarrow> kbio.more t = kbio.more s"
proof (induction i k s rule: write_log_loop.induct)
  case (2 i k s)
  then show ?case by (auto simp: kbind_eq_Ok Let_def dest!: bio_frame)
qed simp

lemma write_head_frame: "write_head s = Ok x t \<Longrightarrow> kbio.more t = kbio.more s"
  by (auto simp: write_head_def kbind_eq_Ok dest!: bio_frame)

lemma commit_counts:
  assumes "commit s = Ok x t"
  shows "outstanding t = outstanding s" "log_size t = log_size s" "lh_n t = (if lh_n s > 0 then 0 else lh_n s)"
proof -
  have "kbio.more t = kbio.more (s\<lparr>lh_n := 0\<rparr>)" if pos: "lh_n s > 0"
  proof -
    obtain u v w where "write_log s = Ok () u" "write_head u = Ok () v" "install_trans v = Ok () w"
      "write_head (w\<lparr>lh_n := 0\<rparr>) = Ok x t"
      using assms pos by (auto simp: commit_def kbind_eq_Ok)
    then have "kbio.more u = kbio.more s" "kbio.more v = kbio.more u" "kbio.more w = kbio.more v"
      and t: "kbio.more t = kbio.more (w\<lparr>lh_n := 0\<rparr>)"
      by (auto simp: write_log_def install_trans_def dest: write_log_loop_frame install_loop_frame write_head_frame)
    then have "kbio.more w = kbio.more s" by simp
    then have "kbio.more (w\<lparr>lh_n := 0\<rparr>) = kbio.more (s\<lparr>lh_n := 0\<rparr>)" by (cases w; cases s) simp
    with t show ?thesis by simp
  qed
  note m = more_log [OF this]
  show "outstanding t = outstanding s" "log_size t = log_size s" "lh_n t = (if lh_n s > 0 then 0 else lh_n s)"
    using m assms by (cases "lh_n s > 0"; simp add: commit_def)+
qed

section \<open>Reserving log space\<close>

lemma begin_op_test_counts:
  assumes "begin_op_test s = Ok () t"
  shows "outstanding t = outstanding s + 1" "lh_n t = lh_n s"
    "lh_n s + (outstanding s + 1) * int MAXOPBLOCKS \<le> int LOGSIZE" "log_size t = log_size s"
  using assms by (auto simp: begin_op_test_def release_def split: if_splits)

lemma begin_op_counts:
  assumes "begin_op s = Ok () t \<or> begin_op_resume s = Ok () t"
  shows "outstanding t = outstanding s + 1" "lh_n t = lh_n s"
    "lh_n s + (outstanding s + 1) * int MAXOPBLOCKS \<le> int LOGSIZE" "log_size t = log_size s"
proof -
  obtain u where u: "begin_op_test u = Ok () t" "lh_n u = lh_n s" "outstanding u = outstanding s" "log_size u = log_size s"
    using assms
    by (auto simp: begin_op_def begin_op_resume_def sleep_resume_def acquire_def release_def upd_proc_def kbind_eq_Ok Let_def
      split: if_splits option.split_asm)
  show "outstanding t = outstanding s + 1" "lh_n t = lh_n s"
    "lh_n s + (outstanding s + 1) * int MAXOPBLOCKS \<le> int LOGSIZE" "log_size t = log_size s"
    using begin_op_test_counts [OF u(1)] u(2-4) by simp_all
qed

lemma log_write_counts:
  assumes "log_write b s = Ok () t"
  shows "outstanding t = outstanding s" "lh_n t = lh_n s \<or> lh_n t = lh_n s + 1" "log_size t = log_size s"
  using assms by (auto simp: log_write_def acquire_def release_def upd_buf_def Let_def split: if_splits)

lemma end_op_counts:
  assumes "end_op s = Ok () t"
  shows "outstanding t = outstanding s - 1" "lh_n t = lh_n s \<or> lh_n t = 0" "log_size t = log_size s"
proof -
  let ?d = "\<lambda>s. s\<lparr>outstanding := outstanding s - 1\<rparr>"
  have "outstanding t = outstanding s - 1 \<and> (lh_n t = lh_n s \<or> lh_n t = 0) \<and> log_size t = log_size s"
  proof (cases "outstanding s = 1")
    case True
    with assms obtain v where "commit (s\<lparr>outstanding := 0, committing := True\<rparr>) = Ok () v"
      "outstanding t = outstanding v" "lh_n t = lh_n v" "log_size t = log_size v"
      by (auto simp: end_op_def acquire_def release_def wakeup_def wakeup1_def kbind_eq_Ok Let_def split: if_splits)
    then show ?thesis using commit_counts [of "s\<lparr>outstanding := 0, committing := True\<rparr>" "()" v] True by auto
  next
    case False
    with assms show ?thesis
      by (auto simp: end_op_def acquire_def release_def wakeup_def wakeup1_def kbind_eq_Ok Let_def split: if_splits)
  qed
  then show "outstanding t = outstanding s - 1" "lh_n t = lh_n s \<or> lh_n t = 0" "log_size t = log_size s" by blast+
qed

text \<open>
  The calls of the file system into the log. A call in progress may add at most \<open>MAXOPBLOCKS\<close> blocks
  to the log; \<open>bs\<close> lists how many every call in progress may still add. Logging a block that is in the
  log already adds none. Whatever else the kernel does leaves the log's counters alone.
\<close>

inductive log_step :: "klog \<times> nat list \<Rightarrow> klog \<times> nat list \<Rightarrow> bool" where
  log_begin: "begin_op s = Ok () t \<or> begin_op_resume s = Ok () t \<Longrightarrow> log_step (s, bs) (t, MAXOPBLOCKS # bs)"
| log_wr: "log_write b s = Ok () t \<Longrightarrow> i < length bs \<Longrightarrow> lh_n t \<le> lh_n s + int (bs ! i)
    \<Longrightarrow> log_step (s, bs) (t, bs[i := bs ! i - nat (lh_n t - lh_n s)])"
| log_end: "end_op s = Ok () t \<Longrightarrow> log_step (s, xs @ x # ys) (t, xs @ ys)"
| log_other: "lh_n t = lh_n s \<Longrightarrow> outstanding t = outstanding s \<Longrightarrow> log_size t = log_size s \<Longrightarrow> log_step (s, bs) (t, bs)"

inductive_cases log_stepE: "log_step (s, bs) (t, cs)"

definition log_idle :: "int \<Rightarrow> klog \<times> nat list \<Rightarrow> bool" where
  "log_idle n x \<longleftrightarrow> (case x of (s, bs) \<Rightarrow> bs = [] \<and> lh_n s = 0 \<and> outstanding s = 0 \<and> log_size s = n)"

definition log_space_inv :: "int \<Rightarrow> klog \<times> nat list \<Rightarrow> bool" where
  "log_space_inv n x \<longleftrightarrow> (case x of (s, bs) \<Rightarrow> outstanding s = int (length bs) \<and> 0 \<le> lh_n s
     \<and> lh_n s + int (sum_list bs) \<le> int LOGSIZE \<and> (\<forall>x \<in> set bs. x \<le> MAXOPBLOCKS) \<and> log_size s = n)"

lemma sum_list_le: "(\<And>x. x \<in> set bs \<Longrightarrow> x \<le> m) \<Longrightarrow> sum_list bs \<le> length bs * (m::nat)"
  by (induction bs) (auto simp: add_mono)

lemma sum_list_dec:
  assumes "i < length bs" and "d \<le> bs ! i" shows "sum_list (bs[i := bs ! i - d]) + d = sum_list (bs :: nat list)"
  using assms elem_le_sum_list [OF assms(1)] by (simp add: sum_list_update)

lemma log_space_step:
  assumes "log_space_inv n x" and "log_step x y" shows "log_space_inv n y"
  using assms(2,1)
proof cases
  case (log_begin s t bs)
  have "sum_list bs \<le> length bs * MAXOPBLOCKS"
    by (rule sum_list_le) (use assms(1) log_begin in \<open>auto simp: log_space_inv_def\<close>)
  then have "int (sum_list bs) \<le> int (length bs) * int MAXOPBLOCKS" by (metis of_nat_le_iff of_nat_mult)
  then show ?thesis using assms(1) log_begin begin_op_counts [OF log_begin(3)]
    by (auto simp: log_space_inv_def algebra_simps)
next
  case (log_wr b s t i bs)
  have all: "\<forall>x \<in> set bs. x \<le> MAXOPBLOCKS" using assms(1) log_wr(1) by (simp add: log_space_inv_def)
  let ?d = "nat (lh_n t - lh_n s)"
  have d: "?d \<le> bs ! i" using log_wr(5) by linarith
  have "bs ! i - ?d \<le> MAXOPBLOCKS" using all nth_mem [OF log_wr(4)] by (meson diff_le_self le_trans)
  then have "\<forall>x \<in> set (bs[i := bs ! i - ?d]). x \<le> MAXOPBLOCKS"
    using all set_update_subset_insert [of bs i "bs ! i - ?d"] by blast
  moreover have "lh_n t + int (sum_list (bs[i := bs ! i - ?d])) = lh_n s + int (sum_list bs)" "0 \<le> lh_n t" if "0 \<le> lh_n s"
    using that sum_list_dec [OF log_wr(4) d] log_write_counts(2) [OF log_wr(3)] by linarith+
  ultimately show ?thesis
    using assms(1) log_wr(1,2,4) log_write_counts(1,3) [OF log_wr(3)] by (simp add: log_space_inv_def)
next
  case (log_end s t xs x ys)
  then show ?thesis using assms(1) end_op_counts [OF log_end(3)] by (auto simp: log_space_inv_def)
next
  case (log_other t s bs)
  then show ?thesis using assms(1) by (auto simp: log_space_inv_def)
qed

interpretation log_space: invariant_machine "log_idle n" log_step "log_space_inv n" for n
  by unfold_locales (simp add: log_idle_def log_space_inv_def split: prod.split_asm, rule log_space_step)

lemma LOGSIZE_pos [simp]: "0 < LOGSIZE"
  by (simp add: LOGSIZE_def MAXOPBLOCKS_def)

lemma log_boot_counts: "lh_n (log_boot D) = 0" "outstanding (log_boot D) = 0" "log_size (log_boot D) = int LOGSIZE"
  "committing (log_boot D) = False"
  by (simp_all add: log_boot_def log_zero_def binit_def Let_def kbase.defs LOGSIZE_def MAXOPBLOCKS_def)

section \<open>Properties\<close>

text \<open>
  C12: With \<open>log.size\<close> greater than \<open>LOGSIZE\<close> the reservation of \<open>begin_op\<close> is what \<open>log_write\<close> needs. In
  every state reached by calls that add at most \<open>MAXOPBLOCKS\<close> blocks each, while some call is in
  progress, the log has room for what the calls may still add, and \<open>log_write\<close> of any buffer succeeds,
  unless the log holds \<open>LOGSIZE\<close> blocks: then it panics, also for a block that is in the log, and every
  call in progress has added all it may.
\<close>

theorem log_space_suffices:
  assumes "reach (log_idle n) log_step (s, bs)" and "int LOGSIZE < n" and "bs \<noteq> []" and "LogLock \<notin> set (held s)"
  shows "lh_n s + int (sum_list bs) \<le> int LOGSIZE \<and>
    (if lh_n s < int LOGSIZE then \<exists>t. log_write b s = Ok () t
     else log_write b s = Fault (PanicF ''too big a transaction'') \<and> (\<forall>x \<in> set bs. x = 0))"
proof -
  have inv: "outstanding s = int (length bs)" "0 \<le> lh_n s" "lh_n s + int (sum_list bs) \<le> int LOGSIZE" "log_size s = n"
    using log_space.reach_inv [OF assms(1)] by (simp_all add: log_space_inv_def)
  have o: "1 \<le> outstanding s" using inv(1) assms(3) by (cases bs) simp_all
  show ?thesis
  proof (cases "lh_n s < int LOGSIZE")
    case True
    then show ?thesis using assms(2,4) inv(3,4) o
      by (auto simp: log_write_def acquire_def release_def upd_buf_def Let_def)
  next
    case False
    then have "sum_list bs = 0" using inv(3) by linarith
    then show ?thesis using False inv(3) by (simp add: log_write_def)
  qed
qed

theorem log_space_suffices_witness:
  "\<exists>t. log_write 0 (log_boot log_disk0\<lparr>log_size := 31, outstanding := 1\<rparr>) = Ok () t"
proof -
  let ?s = "log_boot log_disk0\<lparr>log_size := 31\<rparr>"
  note f = log_boot_counts [of log_disk0] log_boot_fields [of log_disk0]
  have "begin_op ?s = Ok () (?s\<lparr>outstanding := 1\<rparr>)"
    by (simp add: f begin_op_def begin_op_test_def acquire_def release_def LOGSIZE_def MAXOPBLOCKS_def)
  then have "log_step (?s, []) (?s\<lparr>outstanding := 1\<rparr>, [MAXOPBLOCKS])" by (simp add: log_begin)
  moreover have "reach (log_idle 31) log_step (?s, [])" by (rule reach_init) (simp add: log_idle_def f)
  ultimately have "reach (log_idle 31) log_step (?s\<lparr>outstanding := 1\<rparr>, [MAXOPBLOCKS])" by (rule reach_step [rotated])
  from log_space_suffices [OF this, of 0] f show ?thesis by (simp add: LOGSIZE_def MAXOPBLOCKS_def)
qed

end
