(* ===== verification/Fs_Data.thy ===== *)
theory Fs_Data
  imports Fs Log_Space
begin

text \<open>
  File content over the buffer cache and the log: where \<open>bmap\<close> finds a block, what \<open>readi\<close> returns and
  what \<open>writei\<close> changes, in terms of the view that readers of the disk have (\<open>Bio\<close>).
\<close>

section \<open>Reading and writing one block\<close>

definition fs_ok :: "'a kbio_scheme \<Rightarrow> bool" where
  "fs_ok s \<longleftrightarrow> cache_ok s {} \<and> fs_env s \<and> card (dirty_blocks s) < NBUF"

text \<open>A step that reads: nothing a reader of the disk or of the tables sees has changed.\<close>

definition quiet :: "'a kbio_scheme \<Rightarrow> 'a kbio_scheme \<Rightarrow> bool" where
  "quiet s t \<longleftrightarrow> fs_frame s t \<and> fs_ok t \<and> view t = view s \<and> dirty_blocks t = dirty_blocks s"

lemma quiet_refl: "fs_ok s \<Longrightarrow> quiet s s"
  by (simp add: quiet_def)

lemma quiet_trans: "quiet s t \<Longrightarrow> quiet t u \<Longrightarrow> quiet s u"
  by (auto simp: quiet_def intro: fs_frame_trans)

lemma frame_fs:
  fixes s :: "'a kfs_scheme"
  assumes "fs_frame s t"
  shows "icache t = icache s" "sb t = sb s" "disksize t = disksize s" "lh_n t = lh_n s" "log_size t = log_size s"
    "outstanding t = outstanding s" "lh_block t = lh_block s" "kfs.more t = kfs.more s"
  using assms by (auto simp: fs_frame_def)

lemma quietD:
  fixes s :: "'a kfs_scheme"
  assumes "quiet s t"
  shows "fs_ok t" "view t = view s" "dirty_blocks t = dirty_blocks s" "fs_frame s t" "icache t = icache s"
    "disksize t = disksize s"
  using assms frame_fs [of s t] by (auto simp: quiet_def)

lemma read_block:
  assumes ok: "fs_ok s" and x: "x < disksize s"
  obtains b t u where "bread 1 x s = Ok b t" "fs_frame s t" "caches t b x" "cache_ok t {b}" "b_data (the_buf t b) = view s x"
    "view t = view s" "dirty_blocks t = dirty_blocks s" "brelse b t = Ok () u" "quiet s u"
proof -
  have c: "cache_ok s {}" "fs_env s" "card (dirty_blocks s) < NBUF" using ok by (auto simp: fs_ok_def)
  obtain b t where b: "bread 1 x s = Ok b t" "fs_frame s t" "caches t b x" "b_data (the_buf t b) = view s x"
    "b_dirty (the_buf t b) \<longleftrightarrow> x \<in> dirty_blocks s" "cache_ok t {b}"
    "view t = view s" "dirty_blocks t = dirty_blocks s" "memdisk t = memdisk s" "dwrites t = dwrites s"
    by (rule read_one [OF c(1,2) x c(3)])
  have cl: "b_dirty (the_buf t b) \<or> b_data (the_buf t b) = memdisk t x"
    using b(4,5,9) view_clean [OF c(1), of x] by auto
  obtain u where u: "brelse b t = Ok () u" "fs_frame t u" "cache_ok u {}" "view u = view t"
    "dirty_blocks u = dirty_blocks t"
    by (rule release_one [OF b(6) fs_env_frame [OF b(2) c(2)] b(3) cl])
  have f: "fs_frame s u" by (rule fs_frame_trans [OF b(2) u(2)])
  have "quiet s u" using u(3-5) b(7,8) c(3) f fs_env_frame [OF f c(2)] by (simp add: quiet_def fs_ok_def)
  then show thesis using that b u(1) by blast
qed

section \<open>Where a block of a file is\<close>

definition entry :: "'a kbio_scheme \<Rightarrow> nat \<Rightarrow> nat \<Rightarrow> nat" where
  "entry s a k = unat (get_uint (view s a) k)"

text \<open>
  The slot of the inode and the entries of the indirect blocks that \<open>bmap\<close> visits for a block number,
  with the mask of the code in the triple indirect range.
\<close>

definition bmap_path :: "nat \<Rightarrow> nat \<times> nat list" where
  "bmap_path bn =
     (if bn < NDIRECT then (bn, [])
      else if bn < NDIRECT + NINDIRECT then (NDIRECT, [bn - NDIRECT])
      else if bn < NDIRECT + NINDIRECT + NINDIRECT * NINDIRECT then
        (NDIRECT + 1, [(bn - NDIRECT - NINDIRECT) div NINDIRECT, (bn - NDIRECT - NINDIRECT) mod NINDIRECT])
      else
        let n = bn - NDIRECT - NINDIRECT - NINDIRECT * NINDIRECT; m = n AND (NINDIRECT * NINDIRECT)
        in (NDIRECT + 2, [n div (NINDIRECT * NINDIRECT), m div NINDIRECT, m mod NINDIRECT]))"

fun follow :: "'a kbio_scheme \<Rightarrow> nat \<Rightarrow> nat list \<Rightarrow> nat" where
  "follow s a [] = a"
| "follow s a (k # ks) = follow s (entry s a k) ks"

fun follow_ok :: "'a kbio_scheme \<Rightarrow> nat \<Rightarrow> nat list \<Rightarrow> bool" where
  "follow_ok s a [] \<longleftrightarrow> a \<noteq> 0 \<and> a < disksize s"
| "follow_ok s a (k # ks) \<longleftrightarrow> a \<noteq> 0 \<and> a < disksize s \<and> k < NINDIRECT \<and> follow_ok s (entry s a k) ks"

definition fblock :: "'a kfs_scheme \<Rightarrow> nat \<Rightarrow> nat \<Rightarrow> nat" where
  "fblock s ip bn = (case bmap_path bn of (k, ks) \<Rightarrow> follow s (i_addrs (the_inode s ip) ! k) ks)"

definition mapped :: "'a kfs_scheme \<Rightarrow> nat \<Rightarrow> nat \<Rightarrow> bool" where
  "mapped s ip bn \<longleftrightarrow> bn < MAXFILE \<and> i_dev (the_inode s ip) = 1 \<and>
     (case bmap_path bn of (k, ks) \<Rightarrow> follow_ok s (i_addrs (the_inode s ip) ! k) ks)"

lemma follow_okD: "follow_ok s a ks \<Longrightarrow> a \<noteq> 0" "follow_ok s a ks \<Longrightarrow> follow s a ks \<noteq> 0 \<and> follow s a ks < disksize s"
  by (cases ks; simp) (induction s a ks rule: follow.induct; simp)

lemma follow_quiet:
  assumes "view t = view s" "disksize t = disksize s"
  shows "follow t a ks = follow s a ks" "follow_ok t a ks = follow_ok s a ks"
  using assms by (induction ks arbitrary: a) (simp_all add: entry_def)

lemma map_slot_mapped: "i_addrs (the_inode s ip) ! k \<noteq> 0 \<Longrightarrow> map_slot ip k s = Ok (i_addrs (the_inode s ip) ! k) s"
  by (simp add: map_slot_def)

lemma map_entry_mapped:
  assumes ok: "fs_ok s" and d: "i_dev (the_inode s ip) = 1" and f: "follow_ok s a (k # ks)"
  obtains t where "map_entry ip a k s = Ok (entry s a k) t" "quiet s t"
proof -
  have a: "a < disksize s" "k < NINDIRECT" "entry s a k \<noteq> 0" using f follow_okD(1) by auto
  obtain b t u where b: "bread 1 a s = Ok b t" "b_data (the_buf t b) = view s a" "brelse b t = Ok () u" "quiet s u"
    by (rule read_block [OF ok a(1)])
  show thesis using that [of u] a(2,3) b d by (simp add: map_entry_def entry_def)
qed

fun walk :: "nat \<Rightarrow> nat \<Rightarrow> nat list \<Rightarrow> 'a kfs_scheme \<Rightarrow> (nat, 'a kfs_scheme) kres" where
  "walk ip a [] = Ok a"
| "walk ip a (k # ks) = (\<lambda>s. kbind (map_entry ip a k s) (\<lambda>a. walk ip a ks))"

lemma kbind_Ok_right: "kbind m Ok = m"
  by (cases m) simp_all

lemma bmap_walk:
  "bmap ip bn s =
     (if bn < MAXFILE then case bmap_path bn of (k, ks) \<Rightarrow> kbind (map_slot ip k s) (\<lambda>a. walk ip a ks)
      else panic ''bmap: out of range'')"
proof -
  let ?N = NINDIRECT
  consider "bn < NDIRECT" | "\<not> bn < NDIRECT" "bn - NDIRECT < ?N" | "\<not> bn < NDIRECT" "\<not> bn - NDIRECT < ?N" "bn - NDIRECT - ?N < ?N * ?N"
    | "\<not> bn < NDIRECT" "\<not> bn - NDIRECT < ?N" "\<not> bn - NDIRECT - ?N < ?N * ?N" by blast
  then show ?thesis
  proof cases
    case 1
    then show ?thesis by (simp add: bmap_def bmap_path_def MAXFILE_def kbind_Ok_right)
  next
    case 2
    then have "bn < NDIRECT + ?N" "bn < MAXFILE" by (auto simp: MAXFILE_def)
    then show ?thesis using 2 by (simp add: bmap_def bmap_path_def Let_def kbind_Ok_right)
  next
    case 3
    then have "\<not> bn < NDIRECT + ?N" "bn < NDIRECT + ?N + ?N * ?N" "bn < MAXFILE" by (auto simp: MAXFILE_def)
    then show ?thesis using 3 by (simp add: bmap_def bmap_path_def Let_def kbind_Ok_right)
  next
    case 4
    then have "\<not> bn < NDIRECT + ?N" "\<not> bn < NDIRECT + ?N + ?N * ?N"
      "bn - NDIRECT - ?N - ?N * ?N < ?N * ?N * ?N \<longleftrightarrow> bn < MAXFILE" by (auto simp: MAXFILE_def)
    then show ?thesis using 4 by (simp add: bmap_def bmap_path_def Let_def kbind_Ok_right)
  qed
qed

text \<open>\<open>bmap\<close> of a mapped block returns it and changes nothing.\<close>

lemma walk_mapped:
  assumes "fs_ok s" "i_dev (the_inode s ip) = 1" "follow_ok s a ks"
  shows "\<exists>t. walk ip a ks s = Ok (follow s a ks) t \<and> quiet s t"
  using assms
proof (induction ks arbitrary: a s)
  case Nil
  then show ?case by (simp add: quiet_refl)
next
  case (Cons k ks)
  obtain t where t: "map_entry ip a k s = Ok (entry s a k) t" "quiet s t"
    by (rule map_entry_mapped [OF Cons.prems])
  note q = quietD [OF t(2)]
  have "follow_ok t (entry s a k) ks" using Cons.prems(3) by (simp add: follow_quiet [OF q(2,6)])
  then obtain u where "walk ip (entry s a k) ks t = Ok (follow t (entry s a k) ks) u" "quiet t u"
    using Cons.IH [OF q(1)] q(5) Cons.prems(2) by metis
  then show ?case using t quiet_trans [OF t(2)] follow_quiet(1) [OF q(2,6)] by simp
qed

lemma bmap_mapped:
  assumes "fs_ok s" "mapped s ip bn"
  obtains t where "bmap ip bn s = Ok (fblock s ip bn) t" "quiet s t"
proof -
  obtain k ks where p: "bmap_path bn = (k, ks)" by (cases "bmap_path bn")
  have m: "bn < MAXFILE" "i_dev (the_inode s ip) = 1" "follow_ok s (i_addrs (the_inode s ip) ! k) ks"
    using assms(2) by (auto simp: mapped_def p)
  show thesis using walk_mapped [OF assms(1) m(2,3)] follow_okD(1) [OF m(3)] that m(1)
    by (auto simp: bmap_walk p map_slot_mapped fblock_def)
qed

lemma mapped_range: "mapped s ip bn \<Longrightarrow> fblock s ip bn < disksize s"
  using follow_okD(2) by (auto simp: mapped_def fblock_def split: prod.splits)

lemma quiet_fblock:
  assumes "quiet s t" shows "fblock t ip bn = fblock s ip bn" "mapped t ip bn = mapped s ip bn"
  using quietD [OF assms] follow_quiet [of t s] by (auto simp: fblock_def mapped_def split: prod.splits)

section \<open>Reading a file\<close>

text \<open>Byte \<open>i\<close> of the file.\<close>

definition fbyte :: "'a kfs_scheme \<Rightarrow> nat \<Rightarrow> nat \<Rightarrow> byte" where
  "fbyte s ip i = view s (fblock s ip (i div BSIZE)) (i mod BSIZE)"

lemma quiet_fbyte: "quiet s t \<Longrightarrow> fbyte t ip i = fbyte s ip i"
  by (simp add: fbyte_def quiet_fblock quietD(2))

lemma div_same_block:
  assumes "off mod B + k < B" shows "(off + k) div B = off div B" "(off + k) mod B = off mod (B::nat) + k"
proof -
  have B: "0 < B" using assms by (cases B) auto
  have "off + k = (off mod B + k) + off div B * B" by (simp add: mult.commute)
  then show "(off + k) div B = off div B" "(off + k) mod B = off mod B + k"
    using assms B by (metis div_less div_mult_self1_is_m add_cancel_left_left div_mult_self3 less_irrefl add.commute,
      metis mod_less mod_mult_self1)
qed

lemma BSIZE_pos: "0 < BSIZE"
  by (simp add: BSIZE_def)

lemma block_slice:
  assumes "off mod BSIZE + m \<le> BSIZE"
  shows "slice (view s (fblock s ip (off div BSIZE))) (off mod BSIZE) m = map (fbyte s ip) [off ..< off + m]"
  by (rule nth_equalityI) (use assms div_same_block [of off BSIZE] in \<open>auto simp: slice_def fbyte_def\<close>)

lemma readi_loop_reads:
  assumes "fs_ok s" "\<And>i. \<lbrakk>off \<le> i; i < off + n\<rbrakk> \<Longrightarrow> mapped s ip (i div BSIZE)"
  shows "\<exists>t. readi_loop ip off n s = Ok (map (fbyte s ip) [off ..< off + n]) t \<and> quiet s t"
  using assms
proof (induction n arbitrary: off s rule: less_induct)
  case (less n)
  show ?case
  proof (cases "n = 0")
    case True
    then show ?thesis using less.prems(1) by (simp add: readi_loop.simps quiet_refl)
  next
    case False
    let ?m = "min n (BSIZE - off mod BSIZE)"
    let ?x = "fblock s ip (off div BSIZE)"
    have m: "0 < ?m" "off mod BSIZE + ?m \<le> BSIZE" "?m \<le> n"
      using False mod_less_divisor [OF BSIZE_pos, of off] by auto
    have mp: "mapped s ip (off div BSIZE)" using less.prems(2) False by simp
    obtain t where t: "bmap ip (off div BSIZE) s = Ok ?x t" "quiet s t"
      by (rule bmap_mapped [OF less.prems(1) mp])
    note q = quietD [OF t(2)]
    have x: "?x < disksize t" using mapped_range [OF mp] q(6) by simp
    have d: "i_dev (the_inode t ip) = 1" using mp q(5) by (simp add: mapped_def)
    obtain b u v where b: "bread 1 ?x t = Ok b u" "b_data (the_buf u b) = view t ?x" "brelse b u = Ok () v" "quiet t v"
      by (rule read_block [OF q(1) x])
    have sv: "quiet s v" by (rule quiet_trans [OF t(2) b(4)])
    obtain w where w: "readi_loop ip (off + ?m) (n - ?m) v = Ok (map (fbyte v ip) [off + ?m ..< off + ?m + (n - ?m)]) w" "quiet v w"
      using less.IH [of "n - ?m" v "off + ?m"] m less.prems(2) quietD(1) [OF sv] quiet_fblock(2) [OF sv] False by auto
    have e: "map (fbyte v ip) [off + ?m ..< off + ?m + (n - ?m)] = map (fbyte s ip) [off + ?m ..< off + n]"
      using m(3) quiet_fbyte [OF sv] by simp
    have sl: "slice (view t ?x) (off mod BSIZE) ?m = map (fbyte s ip) [off ..< off + ?m]"
      using block_slice [OF m(2)] q(2) by simp
    have "map (fbyte s ip) [off ..< off + ?m] @ map (fbyte s ip) [off + ?m ..< off + n] = map (fbyte s ip) [off ..< off + n]"
      using m(3) upt_add_eq_append [of off "off + ?m" "n - ?m"] by (simp flip: map_append)
    then have "readi_loop ip off n s = Ok (map (fbyte s ip) [off ..< off + n]) w"
      using False t(1) b(1-3) d w(1) [unfolded e] sl by (subst readi_loop.simps) (simp add: Let_def)
    then show ?thesis using quiet_trans [OF sv w(2)] by blast
  qed
qed

section \<open>Writing a block through the log\<close>

text \<open>The log and the cache have room for \<open>k\<close> more blocks of the running call.\<close>

definition budget :: "'a klog_scheme \<Rightarrow> nat \<Rightarrow> bool" where
  "budget s k \<longleftrightarrow> lh_n s + int k \<le> int LOGSIZE \<and> lh_n s + int k \<le> log_size s - 1 \<and> 1 \<le> outstanding s
     \<and> card (dirty_blocks s) + k < NBUF"

definition fs_same :: "'a kfs_scheme \<Rightarrow> 'a kfs_scheme \<Rightarrow> bool" where
  "fs_same s t \<longleftrightarrow> icache t = icache s \<and> sb t = sb s \<and> disksize t = disksize s \<and> kfs.more t = kfs.more s"

lemma fs_same_trans: "fs_same s t \<Longrightarrow> fs_same t u \<Longrightarrow> fs_same s u"
  by (simp add: fs_same_def)

lemma frame_same: "fs_frame s t \<Longrightarrow> fs_same s t"
  by (simp add: fs_same_def frame_fs)

lemma log_write_Ok:
  assumes "held s = []" "budget s (Suc k)"
  obtains bl n where "log_write b s = Ok () (upd_buf b (b_dirty_update (\<lambda>_. True)) (s\<lparr>lh_block := bl, lh_n := n\<rparr>))"
    "n \<le> lh_n s + 1"
proof -
  let ?f = "first_index (\<lambda>x. x = b_blockno (the_buf s b)) (take (nat (lh_n s)) (lh_block s))"
  define i where "i = (case ?f of Some i \<Rightarrow> i | None \<Rightarrow> nat (lh_n s))"
  have c: "(case ?f of Some i \<Rightarrow> i | None \<Rightarrow> nat (lh_n (s\<lparr>held := [LogLock]\<rparr>))) = i"
    by (simp add: i_def split: option.split)
  have h: "\<not> lh_n s \<ge> int LOGSIZE" "\<not> lh_n s \<ge> log_size s - 1" "\<not> outstanding s < 1"
    using assms(2) by (auto simp: budget_def)
  let ?t = "upd_buf b (b_dirty_update (\<lambda>_. True))
    (s\<lparr>lh_block := (lh_block s)[i := b_blockno (the_buf s b)], lh_n := if int i = lh_n s then lh_n s + 1 else lh_n s\<rparr>)"
  have "log_write b s = Ok () (?t\<lparr>held := []\<rparr>)"
    using h assms(1) by (simp add: log_write_def acquire_def release_def Let_def c upd_buf_def)
  moreover have "?t\<lparr>held := []\<rparr> = ?t" by (rule held_nil) (simp add: assms(1))
  ultimately have "log_write b s = Ok () ?t" by (simp only:)
  then show thesis by (rule that) simp
qed

text \<open>The sequence \<open>bread\<close>, change the data, \<open>log_write\<close>, \<open>brelse\<close>.\<close>

lemma write_block:
  fixes s :: "'a kfs_scheme"
  assumes ok: "fs_ok s" and x: "x < disksize s" and k: "budget s (Suc k)"
  obtains b t u v where "bread 1 x s = Ok b t" "icache t = icache s" "b_data (the_buf t b) = view s x"
    "log_write b (set_data b d t) = Ok () u" "brelse b u = Ok () v"
    "fs_ok v" "budget v k" "fs_same s v" "view v = (view s)(x := d)"
proof -
  obtain b t where b: "bread 1 x s = Ok b t" "fs_frame s t" "caches t b x" "cache_ok t {b}" "b_data (the_buf t b) = view s x"
    "view t = view s" "dirty_blocks t = dirty_blocks s" by (rule read_block [OF ok x])
  let ?t = "set_data b d t"
  note sd = set_data_step [where d = d, OF b(4) singletonI b(3)]
  have f: "fs_frame s ?t" by (rule fs_frame_trans [OF b(2) sd(1)])
  note ff = frame_fs [OF f]
  have env: "fs_env ?t" using fs_env_frame [OF f] ok by (simp add: fs_ok_def)
  have "held ?t = []" "budget ?t (Suc k)"
    using env k ff sd(4) b(7) by (auto simp: fs_env_def budget_def)
  then obtain bl n where w: "log_write b ?t = Ok () (upd_buf b (b_dirty_update (\<lambda>_. True)) (?t\<lparr>lh_block := bl, lh_n := n\<rparr>))"
    and n: "n \<le> lh_n s + 1" using log_write_Ok [of ?t k b] ff(4) by metis
  let ?l = "?t\<lparr>lh_block := bl, lh_n := n\<rparr>"
  let ?u = "upd_buf b (b_dirty_update (\<lambda>_. True)) ?l"
  have c: "caches ?l b x" "cache_ok ?l {b}" using b(3) sd(2,8) by (simp_all add: caches_def)
  note md = mark_dirty_step [OF c(2) singletonI c(1)]
  have len: "b < length (bcache ?l)" using c cache_ok_length [OF c(2)] by (simp add: caches_def)
  have u: "caches ?u b x" "b_dirty (the_buf ?u b)" using len c(1) by (simp_all add: caches_def)
  have envu: "fs_env ?u" using env by (simp add: fs_env_def)
  obtain v where v: "brelse b ?u = Ok () v" "fs_frame ?u v" "cache_ok v {}" "view v = view ?u" "dirty_blocks v = dirty_blocks ?u"
    by (rule release_one [OF md(2) envu u(1) disjI1 [OF u(2)]])
  have dv: "dirty_blocks v = insert x (dirty_blocks s)" using v(5) md(4) sd(4) b(7) by simp
  then have card: "card (dirty_blocks v) \<le> Suc (card (dirty_blocks s))" by (simp add: card_insert_le_m1 card_insert_if)
  note fv = frame_fs [OF fs_frame_trans [OF md(1) v(2)]]
  have "budget v k" using k n card fv ff by (auto simp: budget_def)
  moreover have "fs_same s v" using fv ff by (simp add: fs_same_def)
  moreover have "fs_ok v" using v(3) fs_env_frame [OF v(2) envu] \<open>budget v k\<close> by (simp add: fs_ok_def budget_def)
  moreover have "view v = (view s)(x := d)" using v(4) md(3) sd(3) b(6) by simp
  ultimately show thesis using that [OF b(1) frame_fs(1) [OF b(2)] b(5) w v(1)] by blast
qed

section \<open>Writing a file\<close>

text \<open>The indirect blocks \<open>bmap\<close> visits.\<close>

fun follow_via :: "'a kbio_scheme \<Rightarrow> nat \<Rightarrow> nat list \<Rightarrow> nat set" where
  "follow_via s a [] = {}"
| "follow_via s a (k # ks) = insert a (follow_via s (entry s a k) ks)"

definition fvia :: "'a kfs_scheme \<Rightarrow> nat \<Rightarrow> nat \<Rightarrow> nat set" where
  "fvia s ip bn = (case bmap_path bn of (k, ks) \<Rightarrow> follow_via s (i_addrs (the_inode s ip) ! k) ks)"

text \<open>The first \<open>N\<close> blocks of the file are mapped, to blocks of their own.\<close>

definition file_wf :: "'a kfs_scheme \<Rightarrow> nat \<Rightarrow> nat \<Rightarrow> bool" where
  "file_wf s ip N \<longleftrightarrow> (\<forall>bn < N. mapped s ip bn) \<and> inj_on (fblock s ip) {..< N} \<and>
     (\<forall>bn < N. \<forall>bn' < N. fblock s ip bn \<notin> fvia s ip bn')"

lemma follow_upd:
  assumes "view t = (view s)(x := d)" "disksize t = disksize s" "x \<notin> follow_via s a ks"
  shows "follow t a ks = follow s a ks \<and> follow_ok t a ks = follow_ok s a ks \<and> follow_via t a ks = follow_via s a ks"
  using assms(3) by (induction ks arbitrary: a) (use assms(1,2) in \<open>auto simp: entry_def\<close>)

lemma file_block_upd:
  assumes wf: "file_wf s ip N" and bn: "bn < N" and f: "fs_same s t" and v: "view t = (view s)(fblock s ip bn := d)"
  shows "\<And>c. c < N \<Longrightarrow> fblock t ip c = fblock s ip c" "file_wf t ip N"
    "\<And>i. i < N * BSIZE \<Longrightarrow> fbyte t ip i = (if i div BSIZE = bn then d (i mod BSIZE) else fbyte s ip i)"
proof -
  have u: "fblock t ip c = fblock s ip c \<and> mapped t ip c = mapped s ip c \<and> fvia t ip c = fvia s ip c" if "c < N" for c
  proof -
    obtain k ks where p: "bmap_path c = (k, ks)" by (cases "bmap_path c")
    have "fblock s ip bn \<notin> fvia s ip c" using wf bn that by (simp add: file_wf_def)
    then have "fblock s ip bn \<notin> follow_via s (i_addrs (the_inode s ip) ! k) ks" by (simp add: fvia_def p)
    from follow_upd [OF v _ this] f show ?thesis by (simp add: fs_same_def fblock_def mapped_def fvia_def p)
  qed
  show b: "fblock t ip c = fblock s ip c" if "c < N" for c using u [OF that] by blast
  have "inj_on (fblock t ip) {..< N} = inj_on (fblock s ip) {..< N}" by (rule inj_on_cong) (simp add: b)
  then show "file_wf t ip N" using wf u by (simp add: file_wf_def)
  show "fbyte t ip i = (if i div BSIZE = bn then d (i mod BSIZE) else fbyte s ip i)" if "i < N * BSIZE" for i
  proof -
    have c: "i div BSIZE < N" using that by (simp add: less_mult_imp_div_less)
    have "fblock s ip (i div BSIZE) = fblock s ip bn \<longleftrightarrow> i div BSIZE = bn"
      using wf c bn by (auto simp: file_wf_def inj_on_def)
    then show ?thesis using b [OF c] v by (simp add: fbyte_def)
  qed
qed

lemma quiet_wf: "quiet s t \<Longrightarrow> file_wf s ip N \<Longrightarrow> file_wf t ip N"
proof -
  assume q: "quiet s t" and w: "file_wf s ip N"
  have "follow_via t a ks = follow_via s a ks" for a ks
    using quietD(2) [OF q] by (induction ks arbitrary: a) (simp_all add: entry_def)
  then have "fvia t ip = fvia s ip" using quietD(5) [OF q] by (simp add: fvia_def fun_eq_iff)
  then show ?thesis using w quiet_fblock [OF q] by (simp add: file_wf_def inj_on_def)
qed

lemma quiet_budget: "quiet s t \<Longrightarrow> budget s k \<Longrightarrow> budget t k" for s :: "'a kfs_scheme"
  using frame_fs [of s t] by (simp add: quiet_def budget_def)

lemma same_block_pos:
  assumes "i div B = off div (B::nat)" shows "i + off mod B = off + i mod B"
proof -
  have "i div B * B + i mod B = i" "off div B * B + off mod B = off" by simp_all
  then show ?thesis using assms by (metis add.assoc add.commute add.left_commute)
qed

lemma in_same_block:
  assumes "off mod B + m \<le> (B::nat)" "off \<le> i" "i < off + m" shows "i div B = off div B"
  using div_same_block(1) [of off B "i - off"] assms by simp

lemma blit_block:
  assumes "off mod B + length bs \<le> (B::nat)"
  shows "(if i div B = off div B then blit D (off mod B) bs (i mod B) else E) =
    (if off \<le> i \<and> i < off + length bs then bs ! (i - off) else if i div B = off div B then D (i mod B) else E)"
proof (cases "i div B = off div B")
  case True
  have p: "i + off mod B = off + i mod B" by (rule same_block_pos [OF True])
  then have e: "off mod B \<le> i mod B \<longleftrightarrow> off \<le> i" "i mod B < off mod B + length bs \<longleftrightarrow> i < off + length bs" by linarith+
  have "i mod B - off mod B = i - off" if "off \<le> i" using p that by linarith
  then show ?thesis using True e by (simp add: blit_def)
next
  case False
  then show ?thesis using in_same_block [OF assms, of i] by auto
qed

definition file_wrote :: "'a kfs_scheme \<Rightarrow> nat \<Rightarrow> nat \<Rightarrow> nat \<Rightarrow> byte list \<Rightarrow> 'a kfs_scheme \<Rightarrow> bool" where
  "file_wrote s ip N off src t \<longleftrightarrow> fs_ok t \<and> fs_same s t \<and> file_wf t ip N \<and> (\<forall>c < N. fblock t ip c = fblock s ip c) \<and>
     (\<forall>i < N * BSIZE. fbyte t ip i = (if off \<le> i \<and> i < off + length src then src ! (i - off) else fbyte s ip i)) \<and>
     (\<forall>b. b \<notin> fblock s ip ` {..< N} \<longrightarrow> view t b = view s b)"

lemma file_wrote_quiet:
  assumes "quiet s t" "file_wf s ip N" "src = []" shows "file_wrote s ip N off src t"
  using assms quietD [OF assms(1)] quiet_fblock [OF assms(1)] quiet_fbyte [OF assms(1)] quiet_wf [OF assms(1,2)]
    frame_same by (auto simp: file_wrote_def)

lemma file_wrote_trans:
  assumes a: "file_wrote s ip N off xs t" and b: "file_wrote t ip N (off + length xs) ys u"
  shows "file_wrote s ip N off (xs @ ys) u"
proof -
  have im: "fblock t ip ` {..< N} = fblock s ip ` {..< N}" using a by (intro image_cong) (auto simp: file_wrote_def)
  have "fbyte u ip i = (if off \<le> i \<and> i < off + length (xs @ ys) then (xs @ ys) ! (i - off) else fbyte s ip i)"
    if "i < N * BSIZE" for i
    using a b that by (auto simp: file_wrote_def nth_append)
  then show ?thesis using a b im fs_same_trans [of s t u] by (simp add: file_wrote_def)
qed

lemma quiet_wrote:
  assumes q: "quiet s t" and w: "file_wf s ip N" and b: "file_wrote t ip N off src u" shows "file_wrote s ip N off src u"
  using file_wrote_trans [OF file_wrote_quiet [OF q w refl]] b by simp

lemma writei_loop_writes:
  assumes "fs_ok s" "file_wf s ip N" "off + length src \<le> N * BSIZE" "budget s k"
    "src \<noteq> [] \<longrightarrow> off mod BSIZE + length src \<le> k * BSIZE"
  shows "\<exists>t. writei_loop ip off src s = Ok () t \<and> file_wrote s ip N off src t"
  using assms
proof (induction "length src" arbitrary: off src s k rule: less_induct)
  case less
  show ?case
  proof (cases "src = []")
    case True
    then show ?thesis using file_wrote_quiet [OF quiet_refl] less.prems by (simp add: writei_loop.simps)
  next
    case False
    let ?m = "min (length src) (BSIZE - off mod BSIZE)"
    let ?bn = "off div BSIZE"
    let ?x = "fblock s ip ?bn"
    let ?d = "blit (view s ?x) (off mod BSIZE) (take ?m src)"
    have m: "0 < ?m" "off mod BSIZE + length (take ?m src) \<le> BSIZE" "?m \<le> length src"
      using False mod_less_divisor [OF BSIZE_pos, of off] by auto
    have "off < N * BSIZE" using less.prems(3) False by (cases src) auto
    then have bn: "?bn < N" by (rule less_mult_imp_div_less)
    obtain k' where k: "k = Suc k'" using less.prems(5) False by (cases k) auto
    have mp: "mapped s ip ?bn" using less.prems(2) bn by (simp add: file_wf_def)
    obtain t where t: "bmap ip ?bn s = Ok ?x t" "quiet s t" by (rule bmap_mapped [OF less.prems(1) mp])
    note q = quietD [OF t(2)]
    have x: "?x < disksize t" using mapped_range [OF mp] q(6) by simp
    have d: "i_dev (the_inode t ip) = 1" using mp q(5) by (simp add: mapped_def)
    obtain b t' u v where b: "bread 1 ?x t = Ok b t'" "icache t' = icache t" "b_data (the_buf t' b) = view t ?x"
      "log_write b (set_data b ?d t') = Ok () u" "brelse b u = Ok () v" "fs_ok v" "budget v k'" "fs_same t v"
      "view v = (view t)(?x := ?d)"
      by (rule write_block [OF q(1) x quiet_budget [OF t(2) less.prems(4) [unfolded k]]])
    have sv: "fs_same s v" by (rule fs_same_trans [OF frame_same [OF q(4)] b(8)])
    have vv: "view v = (view s)(?x := ?d)" using b(9) q(2) by simp
    note up = file_block_upd [OF less.prems(2) bn sv vv]
    have w1: "file_wrote s ip N off (take ?m src) v"
      unfolding file_wrote_def
    proof (intro conjI allI impI)
      fix i assume i: "i < N * BSIZE"
      show "fbyte v ip i = (if off \<le> i \<and> i < off + length (take ?m src) then take ?m src ! (i - off) else fbyte s ip i)"
        unfolding up(3) [OF i] blit_block [OF m(2)] by (simp add: fbyte_def)
    qed (use b(6) sv up bn vv in auto)
    have "\<exists>t. writei_loop ip (off + ?m) (drop ?m src) v = Ok () t \<and> file_wrote v ip N (off + ?m) (drop ?m src) t"
    proof (rule less.hyps [OF _ b(6) up(2) _ b(7)])
      show "drop ?m src \<noteq> [] \<longrightarrow> (off + ?m) mod BSIZE + length (drop ?m src) \<le> k' * BSIZE"
      proof
        assume "drop ?m src \<noteq> []"
        then have e: "?m = BSIZE - off mod BSIZE" by auto
        have "(off + ?m) mod BSIZE = 0" unfolding e using BSIZE_pos
          by (metis add.commute le_add_diff_inverse2 mod_add_left_eq mod_le_divisor mod_self)
        then show "(off + ?m) mod BSIZE + length (drop ?m src) \<le> k' * BSIZE"
          using less.prems(5) False unfolding e k by simp
      qed
    qed (use m False less.prems(3) in auto)
    then obtain w where w: "writei_loop ip (off + ?m) (drop ?m src) v = Ok () w"
      "file_wrote v ip N (off + ?m) (drop ?m src) w" by blast
    have "length (take ?m src) = ?m" using m(3) by simp
    then have "file_wrote s ip N off src w"
      using file_wrote_trans [OF w1, of "drop ?m src" w] w(2) by (simp only: append_take_drop_id)
    moreover have "writei_loop ip off src s = Ok () w"
      using False t(1) b(1-5) d w(1) q(2) by (subst writei_loop.simps) (simp add: Let_def)
    ultimately show ?thesis by blast
  qed
qed

section \<open>A disk with a file\<close>

lemma bio_cong:
  fixes s :: "'a kbio_scheme" and t :: "'b kbio_scheme"
  assumes "bcache t = bcache s" "memdisk t = memdisk s" "disksize t = disksize s" "cur_pid t = cur_pid s"
  shows "cache_ok t B = cache_ok s B" "dirty_blocks t = dirty_blocks s" "view t = view s"
  using assms by (simp_all add: cache_ok_def buf_ok_def caches_def dirty_blocks_def view_def fun_eq_iff split: option.split)

text \<open>A kernel in a system call, its inode 0 a file of 700 zero bytes in the blocks 50 and 51.\<close>

definition demo_inode :: inode where
  "demo_inode =
     \<lparr>i_dev = 1, i_inum = 7, i_ref = 1, i_lock = initsleeplock, i_valid = True, i_type = T_FILE, i_major = 0, i_minor = 0,
      i_nlink = 1, i_size = 700, i_addrs = [50, 51] @ replicate 11 0\<rparr>"

definition demo_fs :: kfs where
  "demo_fs = klog.extend (log_boot (\<lambda>_. zero_bytes)\<lparr>outstanding := 1, log_size := 31\<rparr>)
     \<lparr>sb = decode_sb zero_bytes, icache = [demo_inode]\<rparr>"

definition no_devices :: "'a devsw" where
  "no_devices = \<lparr>dev_read = (\<lambda>_. None), dev_write = (\<lambda>_. None)\<rparr>"

lemma demo_fields:
  "icache demo_fs = [demo_inode]" "lh_n demo_fs = 0" "log_size demo_fs = 31" "outstanding demo_fs = 1"
  "disksize demo_fs = 1000" "held demo_fs = []" "curproc demo_fs = Some 0" "length (ptable demo_fs) = 1"
  "sb demo_fs = decode_sb zero_bytes"
  using log_boot_fields [of "\<lambda>_. zero_bytes"]
  by (simp_all add: demo_fs_def klog.defs) (simp add: log_boot_def log_zero_def binit_def Let_def kbase.defs)

lemma demo_ok: "fs_ok demo_fs" "dirty_blocks demo_fs = {}"
proof -
  let ?b = "log_boot (\<lambda>_. zero_bytes)"
  have r: "cache_ok ?b {}" "dirty_blocks ?b = {}"
    using log_boot_rebooted [of "\<lambda>_. zero_bytes"] by (auto simp: rebooted_def)
  have e: "bcache demo_fs = bcache ?b" "memdisk demo_fs = memdisk ?b" "disksize demo_fs = disksize ?b" "cur_pid demo_fs = cur_pid ?b"
    by (simp_all add: demo_fs_def klog.defs cur_pid_def)
  show d: "dirty_blocks demo_fs = {}" using bio_cong(2) [OF e] r(2) by simp
  show "fs_ok demo_fs" using bio_cong(1) [OF e] r(1) demo_fields d
    by (simp add: fs_ok_def fs_env_def NBUF_def MAXOPBLOCKS_def)
qed

lemma demo_path: "bn < 2 \<Longrightarrow> bmap_path bn = (bn, [])"
  by (simp add: bmap_path_def NDIRECT_def)

lemma less_2: "(bn::nat) < 2 \<longleftrightarrow> bn = 0 \<or> bn = 1"
  by auto

lemma demo_mapped: "bn < 2 \<Longrightarrow> mapped demo_fs 0 bn" "bn < 2 \<Longrightarrow> fblock demo_fs 0 bn = 50 + bn"
  by (auto simp: mapped_def fblock_def demo_path demo_fields demo_inode_def MAXFILE_def NDIRECT_def less_2)

lemma demo_wf: "file_wf demo_fs 0 2"
  using demo_mapped by (auto simp: file_wf_def inj_on_def fvia_def demo_path)

lemma readi_unfold:
  assumes "i_type (the_inode s ip) \<noteq> T_DEV" "off \<le> i_size (the_inode s ip)" "off + n < 2 ^ 32"
  shows "readi dv ip off n s =
    kbind (readi_loop ip off (min n (i_size (the_inode s ip) - off)) s) (\<lambda>bs. Ok (bs, int (min n (i_size (the_inode s ip) - off))))"
proof -
  have "uadd off n = off + n" using assms(3) by (simp add: uadd_def)
  moreover have "(if off + n > i_size (the_inode s ip) then i_size (the_inode s ip) - off else n) = min n (i_size (the_inode s ip) - off)"
    using assms(2) by auto
  ultimately show ?thesis using assms(1,2) by (simp add: readi_def Let_def)
qed

section \<open>Reading and writing files\<close>

text \<open>
  C17: Reading a file that has a block for every byte returns exactly its bytes from the offset on, cut
  off at the end of the file, block boundaries and indirect blocks included, and changes nothing a
  later reader sees.
\<close>

theorem readi_correct:
  assumes "fs_ok s" "i_type (the_inode s ip) \<noteq> T_DEV" "off \<le> i_size (the_inode s ip)" "off + n < 2 ^ 32"
    and "\<And>bn. bn * BSIZE < i_size (the_inode s ip) \<Longrightarrow> mapped s ip bn"
  shows "\<exists>t. readi dv ip off n s =
      Ok (map (fbyte s ip) [off ..< min (off + n) (i_size (the_inode s ip))], int (min n (i_size (the_inode s ip) - off))) t \<and>
    quiet s t"
proof -
  let ?sz = "i_size (the_inode s ip)"
  let ?n = "min n (?sz - off)"
  have m: "mapped s ip (i div BSIZE)" if "i < off + ?n" for i
    using assms(3) that by (intro assms(5)) (simp add: order_le_less_trans [OF div_times_less_eq_dividend])
  from readi_loop_reads [OF assms(1) m] obtain t where
    t: "readi_loop ip off ?n s = Ok (map (fbyte s ip) [off ..< off + ?n]) t" "quiet s t" by auto
  have "off + ?n = min (off + n) ?sz" using assms(3) by auto
  then show ?thesis using t by (auto simp: readi_unfold [OF assms(2-4)])
qed

theorem readi_correct_witness:
  "\<exists>t. readi no_devices 0 500 300 demo_fs = Ok (map (fbyte demo_fs 0) [500 ..< 700], 200) t \<and> quiet demo_fs t"
  using readi_correct [of demo_fs 0 500 300 no_devices] demo_ok demo_mapped(1)
  by (simp add: demo_fields demo_inode_def T_FILE_def T_DEV_def BSIZE_def)

text \<open>
  C4: Writing within a file and reading back. A write over bytes the file has, for which the log and
  the cache have room, succeeds; reading the range then returns what was written; every other byte of
  the file, every block outside it and every inode is as before.
\<close>

theorem writei_readi:
  assumes "fs_ok s" "file_wf s ip N" "i_type (the_inode s ip) \<noteq> T_DEV"
    and "off + length src \<le> i_size (the_inode s ip)" "i_size (the_inode s ip) \<le> N * BSIZE" "off + length src < 2 ^ 32"
    and "budget s k" "off mod BSIZE + length src \<le> k * BSIZE"
  shows "\<exists>t u. writei dv ip src off s = Ok (int (length src)) t \<and>
    readi dv ip off (length src) t = Ok (src, int (length src)) u \<and> quiet t u \<and> icache t = icache s \<and>
    (\<forall>i < N * BSIZE. \<not> (off \<le> i \<and> i < off + length src) \<longrightarrow> fbyte t ip i = fbyte s ip i) \<and>
    (\<forall>b. b \<notin> fblock s ip ` {..< N} \<longrightarrow> view t b = view s b)"
proof -
  let ?n = "length src"
  have le: "off + ?n \<le> N * BSIZE" using assms(4,5) by simp
  obtain t where t: "writei_loop ip off src s = Ok () t" "file_wrote s ip N off src t"
    using writei_loop_writes [OF assms(1,2) le assms(7)] assms(8) by blast
  have w: "fs_ok t" "icache t = icache s" "file_wf t ip N"
    "\<forall>i < N * BSIZE. fbyte t ip i = (if off \<le> i \<and> i < off + length src then src ! (i - off) else fbyte s ip i)"
    "\<forall>b. b \<notin> fblock s ip ` {..< N} \<longrightarrow> view t b = view s b"
    using t(2) by (auto simp: file_wrote_def fs_same_def)
  have "N \<le> MAXFILE" using assms(2) by (cases N) (auto simp: file_wf_def mapped_def)
  then have "off + ?n \<le> MAXFILE * BSIZE" using le by (meson le_trans mult_le_mono1)
  then have wr: "writei dv ip src off s = Ok (int ?n) t"
    using assms(3,4,6) t(1) w(2) by (simp add: writei_def Let_def uadd_def)
  have "mapped t ip (i div BSIZE)" if "i < off + ?n" for i
    using w(3) le that by (simp add: file_wf_def less_mult_imp_div_less)
  then obtain u where "readi_loop ip off ?n t = Ok (map (fbyte t ip) [off ..< off + ?n]) u" "quiet t u"
    using readi_loop_reads [OF w(1), of off ?n ip] by auto
  then have "readi dv ip off ?n t = Ok (map (fbyte t ip) [off ..< off + ?n], int ?n) u" "quiet t u"
    using readi_unfold [of t ip off ?n dv] assms(3,4,6) w(2) by (auto simp: min_def)
  moreover have "map (fbyte t ip) [off ..< off + ?n] = src"
    by (rule nth_equalityI) (use w(4) le in auto)
  ultimately show ?thesis using wr w by auto
qed

theorem writei_readi_witness:
  "\<exists>t u. writei no_devices 0 (replicate 20 9) 500 demo_fs = Ok 20 t \<and> readi no_devices 0 500 20 t = Ok (replicate 20 9, 20) u \<and> view t 60 = view demo_fs 60"
proof -
  have b: "budget demo_fs 2" using demo_fields demo_ok(2) by (simp add: budget_def LOGSIZE_def NBUF_def MAXOPBLOCKS_def)
  have "fblock demo_fs 0 ` {..< 2} \<subseteq> {50, 51}" using demo_mapped(2) by (auto simp: less_2)
  then have "60 \<notin> fblock demo_fs 0 ` {..< 2}" by auto
  then show ?thesis
    using writei_readi [OF demo_ok(1) demo_wf, of 500 "replicate 20 9" 2 no_devices] b
    by (auto simp: demo_fields demo_inode_def T_FILE_def T_DEV_def BSIZE_def simp del: replicate.simps)
qed

section \<open>The triple indirect range\<close>

lemma and_exp: "n AND 2 ^ m = of_bool (bit n m) * 2 ^ m" for n :: nat
  by (rule bit_eqI) (auto simp: bit_simps)

lemma map_entry_past: "NINDIRECT \<le> k \<Longrightarrow> map_entry ip a k s \<noteq> Ok x t"
  by (auto simp: map_entry_def kbind_eq_Ok)

lemma bmap_path_triple:
  assumes "q < NINDIRECT" "r < NINDIRECT * NINDIRECT"
  shows "bmap_path (NDIRECT + NINDIRECT + NINDIRECT * NINDIRECT + (q * (NINDIRECT * NINDIRECT) + r)) =
    (NDIRECT + 2, [q, if odd q then NINDIRECT else 0, 0])"
proof -
  have N: "NINDIRECT * NINDIRECT = 2 ^ 14" "NINDIRECT = 128" by (simp_all add: NINDIRECT_def BSIZE_def)
  let ?n = "q * 2 ^ 14 + r"
  have d: "?n div 2 ^ 14 = q" using assms(2) N by simp
  then have "bit ?n 14 \<longleftrightarrow> odd q" by (simp add: bit_iff_odd)
  then have "?n AND 2 ^ 14 = (if odd q then 2 ^ 14 else 0)" by (simp add: and_exp del: power_numeral)
  then show ?thesis using d unfolding bmap_path_def by (auto simp: N Let_def)
qed

text \<open>
  C35: The mask in the triple indirect range of \<open>bmap\<close> makes blocks of a file coincide. All \<open>128 * 128\<close>
  block numbers under an even entry of the first indirect block lead to the same block of the disk,
  and under an odd entry the code reads past the end of an indirect block and delivers none.
\<close>

theorem bmap_triple_aliases:
  assumes "q < NINDIRECT" "r < NINDIRECT * NINDIRECT" "r' < NINDIRECT * NINDIRECT"
  shows "bmap ip (NDIRECT + NINDIRECT + NINDIRECT * NINDIRECT + (q * (NINDIRECT * NINDIRECT) + r)) s =
      bmap ip (NDIRECT + NINDIRECT + NINDIRECT * NINDIRECT + (q * (NINDIRECT * NINDIRECT) + r')) s \<and>
    (odd q \<longrightarrow> bmap ip (NDIRECT + NINDIRECT + NINDIRECT * NINDIRECT + (q * (NINDIRECT * NINDIRECT) + r)) s \<noteq> Ok a t)"
proof -
  let ?b = "\<lambda>r. NDIRECT + NINDIRECT + NINDIRECT * NINDIRECT + (q * (NINDIRECT * NINDIRECT) + r)"
  have lt: "?b r < MAXFILE" if "r < NINDIRECT * NINDIRECT" for r
    using assms(1) that by (simp add: MAXFILE_def NINDIRECT_def BSIZE_def)
  have "odd q \<longrightarrow> bmap ip (?b r) s \<noteq> Ok a t"
    by (auto simp: bmap_walk lt [OF assms(2)] bmap_path_triple [OF assms(1,2)] kbind_eq_Ok map_entry_past)
  moreover have "bmap ip (?b r) s = bmap ip (?b r') s"
    by (simp only: bmap_walk lt [OF assms(2)] lt [OF assms(3)] bmap_path_triple [OF assms(1,2)] bmap_path_triple [OF assms(1,3)])
  ultimately show ?thesis by blast
qed

theorem bmap_triple_aliases_witness:
  "bmap 0 16522 demo_fs = bmap 0 16523 demo_fs \<and> (\<forall>a t. bmap 0 32906 demo_fs \<noteq> Ok a t)"
proof -
  have "bmap 0 32906 demo_fs \<noteq> Ok a t" for a t
    using conjunct2 [OF bmap_triple_aliases [of 1 0 1 0 demo_fs a t]] by (simp add: NDIRECT_def NINDIRECT_def BSIZE_def)
  then show ?thesis using bmap_triple_aliases [of 0 0 1 0 demo_fs] by (simp add: NDIRECT_def NINDIRECT_def BSIZE_def)
qed

end
