(* ===== verification/Log_Full.thy ===== *)
theory Log_Full
  imports Fs_Data
begin

text \<open>
  A full log: what three calls that \<open>begin_op\<close> has admitted meet when each of them logs as many blocks
  as it has reserved (\<open>log.c\<close>), on the buffer cache and the log of \<open>Bio\<close>, \<open>Log\<close> and \<open>Fs\<close>.
\<close>

section \<open>Calls of several processes\<close>

text \<open>Each process of the list enters a call; each process of the list zeroes its block.\<close>

fun begin_by :: "nat list \<Rightarrow> 'a kfs_scheme \<Rightarrow> (unit, 'a kfs_scheme) kres" where
  "begin_by [] s = Ok () s"
| "begin_by (p # ps) s = kbind (begin_op (s\<lparr>curproc := Some p\<rparr>)) (\<lambda>_ s. begin_by ps s)"

fun zero_by :: "(nat \<times> nat) list \<Rightarrow> 'a kfs_scheme \<Rightarrow> (unit, 'a kfs_scheme) kres" where
  "zero_by [] s = Ok () s"
| "zero_by ((p, x) # pxs) s = kbind (bzero 1 x (s\<lparr>curproc := Some p\<rparr>)) (\<lambda>_ s. zero_by pxs s)"

lemma zero_by_append: "zero_by (as @ bs) s = kbind (zero_by as s) (\<lambda>_ s. zero_by bs s)"
proof (induction as arbitrary: s)
  case (Cons a as)
  obtain p x where "a = (p, x)" by (cases a)
  then show ?case using Cons.IH by (cases "bzero 1 x (s\<lparr>curproc := Some p\<rparr>)") simp_all
qed simp

lemma switch_ok:
  assumes "fs_ok s" "p < length (ptable s)"
  shows "fs_ok (s\<lparr>curproc := Some p\<rparr>)" "dirty_blocks (s\<lparr>curproc := Some p\<rparr>) = dirty_blocks s"
proof -
  show d: "dirty_blocks (s\<lparr>curproc := Some p\<rparr>) = dirty_blocks s" by (simp add: dirty_blocks_def caches_def)
  have "cache_ok (s\<lparr>curproc := Some p\<rparr>) {} = cache_ok s {}" by (simp add: cache_ok_def buf_ok_def caches_def)
  then show "fs_ok (s\<lparr>curproc := Some p\<rparr>)" using assms d by (auto simp: fs_ok_def fs_env_def)
qed

section \<open>One block more\<close>

text \<open>The blocks in the log.\<close>

definition logged :: "'a klog_scheme \<Rightarrow> nat set" where
  "logged s = set (take (nat (lh_n s)) (lh_block s))"

lemma log_write_new:
  assumes "log_write b s = Ok () t" "b_blockno (the_buf s b) \<notin> logged s" "0 \<le> lh_n s" "lh_n s < int (length (lh_block s))"
  shows "lh_n t = lh_n s + 1" "logged t = insert (b_blockno (the_buf s b)) (logged s)"
    "length (lh_block t) = length (lh_block s)"
proof -
  have n: "first_index (\<lambda>x. x = b_blockno (the_buf s b)) (take (nat (lh_n s)) (lh_block s)) = None"
    using assms(2) by (auto simp: first_index_None logged_def)
  from assms(1,3) have e: "lh_n t = lh_n s + 1" "lh_block t = (lh_block s)[nat (lh_n s) := b_blockno (the_buf s b)]"
    by (auto simp: log_write_def acquire_def release_def upd_buf_def Let_def n split: if_splits)
  show "lh_n t = lh_n s + 1" "length (lh_block t) = length (lh_block s)" using e by simp_all
  have "nat (lh_n t) = Suc (nat (lh_n s))" using e(1) assms(3) by simp
  then show "logged t = insert (b_blockno (the_buf s b)) (logged s)"
    using e(2) assms(3,4) by (simp add: logged_def take_Suc_conv_app_nth nat_less_iff)
qed

text \<open>A state from which \<open>k\<close> more blocks can be logged, with exactly the blocks \<open>X\<close> in the log.\<close>

definition room :: "nat \<Rightarrow> nat set \<Rightarrow> 'a kfs_scheme \<Rightarrow> bool" where
  "room k X s \<longleftrightarrow> fs_ok s \<and> budget s k \<and> logged s = X \<and> length (lh_block s) = LOGSIZE \<and> 0 \<le> lh_n s"

lemma room_switch: "\<lbrakk>room k X s; p < length (ptable s)\<rbrakk> \<Longrightarrow> room k X (s\<lparr>curproc := Some p\<rparr>)"
  using switch_ok [of s p] by (simp add: room_def budget_def logged_def)

lemma lock_table:
  shows "acquire lk s = Ok x t \<Longrightarrow> length (ptable t) = length (ptable s)" "release lk s = Ok x t \<Longrightarrow> length (ptable t) = length (ptable s)"
    "wakeup c s = Ok x t \<Longrightarrow> length (ptable t) = length (ptable s)"
  by (auto simp: acquire_def release_def wakeup_def wakeup1_def kbind_eq_Ok split: if_splits)

lemma brelse_table: "brelse b s = Ok x t \<Longrightarrow> length (ptable t) = length (ptable s)"
  by (auto simp: brelse_def holdingsleep_def releasesleep_def upd_buf_def kbind_eq_Ok Let_def
    dest!: lock_table split: if_splits option.splits)

lemma log_write_table: "log_write b s = Ok x t \<Longrightarrow> ptable t = ptable s \<and> log_size t = log_size s"
  by (auto simp: log_write_def acquire_def release_def upd_buf_def Let_def split: if_splits)

lemma bzero_room:
  fixes s :: "'a kfs_scheme"
  assumes r: "room (Suc k) X s" and x: "x < disksize s" "x \<notin> X"
  obtains t where "bzero 1 x s = Ok () t" "room k (insert x X) t" "lh_n t = lh_n s + 1" "log_size t = log_size s"
    "disksize t = disksize s" "length (ptable t) = length (ptable s)"
proof -
  have s: "fs_ok s" "budget s (Suc k)" "logged s = X" "length (lh_block s) = LOGSIZE" "0 \<le> lh_n s"
    using r by (simp_all add: room_def)
  obtain b t u v where b: "bread 1 x s = Ok b t" "log_write b (set_data b zero_bytes t) = Ok () u" "brelse b u = Ok () v"
    "fs_ok v" "budget v k" "fs_same s v"
    by (rule write_block [OF s(1) x(1) s(2), of zero_bytes])
  obtain b' t' where "bread 1 x s = Ok b' t'" "fs_frame s t'" "caches t' b' x" "cache_ok t' {b'}"
    by (rule read_block [OF s(1) x(1)])
  then have t: "fs_frame s t" "caches t b x" "cache_ok t {b}" using b(1) by simp_all
  let ?t = "set_data b zero_bytes t"
  note sd = set_data_step [where d = zero_bytes, OF t(3) singletonI t(2)]
  note f = frame_fs [OF fs_frame_trans [OF t(1) sd(1)]]
  have bn: "b_blockno (the_buf ?t b) = x" using sd(8) t(2) by (simp add: caches_def)
  have lg: "logged ?t = X" using f s(3) by (simp add: logged_def)
  have len: "lh_n s < int (length (lh_block s))" using s(2,4) by (simp add: budget_def)
  note u = log_write_new [OF b(2), unfolded bn lg f, OF x(2) s(5) len]
  note v = more_log [OF brelse_frame [OF b(3)]]
  have tab: "length (ptable ?t) = length (ptable s)" using fs_frame_trans [OF t(1) sd(1)] by (simp add: fs_frame_def)
  show thesis
  proof (rule that)
    show "bzero 1 x s = Ok () v" using b(1-3) by (simp add: bzero_def)
    show "room k (insert x X) v" using b(4,5) u v s(4,5) by (simp add: room_def logged_def)
    show "lh_n v = lh_n s + 1" using u v by simp
    show "log_size v = log_size s" using log_write_table [OF b(2)] v f by simp
    show "disksize v = disksize s" using b(6) by (simp add: fs_same_def)
    show "length (ptable v) = length (ptable s)"
      using brelse_table [OF b(3)] log_write_table [OF b(2)] tab by simp
  qed
qed

lemma zero_by_room:
  fixes s :: "'a kfs_scheme"
  assumes "room (length pxs + k) X s" "distinct (map snd pxs)" "snd ` set pxs \<inter> X = {}"
    "\<forall>(p, x) \<in> set pxs. p < length (ptable s) \<and> x < disksize s"
  shows "\<exists>t. zero_by pxs s = Ok () t \<and> room k (X \<union> snd ` set pxs) t \<and> lh_n t = lh_n s + int (length pxs)
    \<and> log_size t = log_size s \<and> disksize t = disksize s \<and> length (ptable t) = length (ptable s)"
  using assms
proof (induction pxs arbitrary: s X)
  case (Cons px pxs)
  obtain p x where px: "px = (p, x)" by (cases px)
  have r: "room (Suc (length pxs + k)) X (s\<lparr>curproc := Some p\<rparr>)"
    using room_switch [of _ X s p] Cons.prems(1,4) by (simp add: px)
  have x: "x < disksize (s\<lparr>curproc := Some p\<rparr>)" "x \<notin> X" using Cons.prems(3,4) by (auto simp: px)
  obtain t where t: "bzero 1 x (s\<lparr>curproc := Some p\<rparr>) = Ok () t" "room (length pxs + k) (insert x X) t" "lh_n t = lh_n s + 1"
    "log_size t = log_size s" "disksize t = disksize s" "length (ptable t) = length (ptable s)"
    by (rule bzero_room [OF r x]) simp
  have "\<exists>u. zero_by pxs t = Ok () u \<and> room k (insert x X \<union> snd ` set pxs) u \<and> lh_n u = lh_n t + int (length pxs)
    \<and> log_size u = log_size t \<and> disksize u = disksize t \<and> length (ptable u) = length (ptable t)"
    by (rule Cons.IH [OF t(2)]) (use Cons.prems(2-4) t(5,6) px in auto)
  then show ?case using t by (auto simp: px)
qed simp

text \<open>The block for which the log has no room.\<close>

lemma bzero_full:
  fixes s :: "'a kfs_scheme"
  assumes "fs_ok s" "x < disksize s" "lh_n s \<ge> log_size s - 1"
  shows "bzero 1 x s = Fault (PanicF ''too big a transaction'')"
proof -
  obtain b t where b: "bread 1 x s = Ok b t" "fs_frame s t" by (rule read_block [OF assms(1,2)])
  have "lh_n (set_data b zero_bytes t) \<ge> log_size (set_data b zero_bytes t) - 1"
    using frame_fs [OF b(2)] assms(3) by (simp add: set_data_def upd_buf_def)
  then show ?thesis using b(1) by (simp add: bzero_def log_write_def)
qed

section \<open>Properties\<close>

text \<open>A file system with an empty log between two transactions.\<close>

definition log_empty :: "'a kfs_scheme \<Rightarrow> bool" where
  "log_empty s \<longleftrightarrow> fs_ok s \<and> dirty_blocks s = {} \<and> lh_n s = 0 \<and> outstanding s = 0 \<and> \<not> committing s \<and> length (lh_block s) = LOGSIZE"

lemma begin_by_three:
  fixes s :: "'a kfs_scheme"
  assumes "log_empty s" "log_size s = int LOGSIZE" "length ps = 3" "\<forall>p \<in> set ps. p < length (ptable s)"
  obtains t where "begin_by ps s = Ok () t" "room 29 {} t" "lh_n t = 0" "log_size t = int LOGSIZE" "disksize t = disksize s"
    "length (ptable t) = length (ptable s)"
proof -
  obtain p q r where ps: "ps = [p, q, r]" using assms(3) by (auto simp: numeral_3_eq_3 length_Suc_conv)
  let ?t = "s\<lparr>curproc := Some r, outstanding := 3\<rparr>"
  have h: "held s = []" using assms(1) by (simp add: log_empty_def fs_ok_def fs_env_def)
  have "begin_by ps s = Ok () (?t\<lparr>held := []\<rparr>)"
    using assms(1,2) h by (simp add: ps log_empty_def begin_op_def begin_op_test_def acquire_def release_def LOGSIZE_def MAXOPBLOCKS_def)
  moreover have "?t\<lparr>held := []\<rparr> = ?t" by (rule held_nil) (simp add: h)
  moreover have "room 29 {} ?t"
  proof -
    have "r < length (ptable s)" using assms(4) ps by simp
    then have "fs_ok (s\<lparr>curproc := Some r\<rparr>)" "dirty_blocks (s\<lparr>curproc := Some r\<rparr>) = {}"
      using switch_ok [of s r] assms(1) by (simp_all add: log_empty_def)
    then have "fs_ok ?t" "dirty_blocks ?t = {}"
      using bio_cong [of ?t "s\<lparr>curproc := Some r\<rparr>"] by (simp_all add: fs_ok_def fs_env_def cur_pid_def)
    then show ?thesis using assms(1,2)
      by (simp add: room_def budget_def logged_def log_empty_def LOGSIZE_def NBUF_def MAXOPBLOCKS_def)
  qed
  ultimately show thesis using that assms(1,2) by (simp add: log_empty_def)
qed

text \<open>
  C36: With the \<open>log.size\<close> that \<open>mkfs\<close> writes, \<open>LOGSIZE\<close>, the reservation is one block short. From any
  file system with an empty log, \<open>begin_op\<close> admits three calls; if each of them zeroes the
  \<open>MAXOPBLOCKS\<close> blocks it has reserved, all different, then however the calls interleave, all blocks
  but the last are logged and the last one makes \<open>log_write\<close> panic.
\<close>

theorem log_space_off_by_one:
  fixes s :: "'a kfs_scheme"
  assumes "log_empty s" and "log_size s = int LOGSIZE"
    and "distinct ps" and "length ps = 3" and "\<forall>p \<in> set ps. p < length (ptable s)"
    and "fst ` set pxs \<subseteq> set ps" and "\<forall>p \<in> set ps. count_list (map fst pxs) p = MAXOPBLOCKS"
    and "distinct (map snd pxs)" and "\<forall>x \<in> snd ` set pxs. x < disksize s"
  shows "\<exists>t u. begin_by ps s = Ok () t \<and> zero_by (butlast pxs) t = Ok () u \<and> lh_n u = int (length pxs) - 1
    \<and> zero_by pxs t = Fault (PanicF ''too big a transaction'')"
proof -
  have "length (map fst pxs) = (\<Sum>p \<in> set ps. count_list (map fst pxs) p)"
    using sum_count_set [of "map fst pxs" "set ps"] assms(6) by simp
  also have "\<dots> = 30" using assms(3,4,7) by (simp add: distinct_card MAXOPBLOCKS_def)
  finally have len: "length pxs = 30" by simp
  then obtain qs p x where pxs: "pxs = qs @ [(p, x)]" "length qs = 29"
    by (cases pxs rule: rev_cases) auto
  obtain t where t: "begin_by ps s = Ok () t" "room 29 {} t" "lh_n t = 0" "log_size t = int LOGSIZE" "disksize t = disksize s"
    "length (ptable t) = length (ptable s)"
    by (rule begin_by_three [OF assms(1,2,4,5)])
  have in_ps: "\<forall>(p, x) \<in> set pxs. p < length (ptable s) \<and> x < disksize s" using assms(5,6,9) by force
  obtain u where u: "zero_by qs t = Ok () u" "room 0 (snd ` set qs) u" "lh_n u = 29" "log_size u = int LOGSIZE"
      "disksize u = disksize s" "length (ptable u) = length (ptable s)"
    using zero_by_room [of qs 0 "{}" t] t in_ps assms(8) pxs by auto
  have "fs_ok (u\<lparr>curproc := Some p\<rparr>)" using switch_ok(1) [of u p] u(2,6) in_ps pxs(1) by (simp add: room_def)
  then have "bzero 1 x (u\<lparr>curproc := Some p\<rparr>) = Fault (PanicF ''too big a transaction'')"
    by (rule bzero_full) (use u in_ps pxs(1) in \<open>simp_all add: LOGSIZE_def MAXOPBLOCKS_def\<close>)
  then show ?thesis using t(1) u(1,3) pxs by (simp add: zero_by_append)
qed

text \<open>Three processes that zero ten blocks each, in turn.\<close>

definition full_fs :: kfs where
  "full_fs = demo_fs\<lparr>outstanding := 0, log_size := int LOGSIZE, ptable := replicate 3 (ptable demo_fs ! 0)\<rparr>"

definition turns :: "(nat \<times> nat) list" where
  "turns = map (\<lambda>i. (i mod 3, 50 + i)) [0 ..< 30]"

lemma full_empty: "log_empty full_fs" "log_size full_fs = int LOGSIZE" "length (ptable full_fs) = 3" "disksize full_fs = 1000"
proof -
  have e: "bcache full_fs = bcache demo_fs" "memdisk full_fs = memdisk demo_fs" "disksize full_fs = disksize demo_fs"
      "cur_pid full_fs = cur_pid demo_fs"
    using demo_fields(7) by (simp_all add: full_fs_def cur_pid_def)
  note c = bio_cong [OF e]
  have "committing demo_fs = False" "length (lh_block demo_fs) = LOGSIZE"
    using log_boot_counts(4) by (simp_all add: demo_fs_def klog.defs log_boot_def log_zero_def binit_def Let_def kbase.defs)
  moreover have "fs_ok full_fs" using demo_ok c demo_fields by (simp add: fs_ok_def fs_env_def) (simp add: full_fs_def demo_fields)
  moreover have "dirty_blocks full_fs = {}" using c(2) demo_ok(2) by simp
  ultimately show "log_empty full_fs" using demo_fields(2) by (simp add: log_empty_def) (simp add: full_fs_def)
  show "log_size full_fs = int LOGSIZE" "length (ptable full_fs) = 3" "disksize full_fs = 1000"
    by (simp_all add: full_fs_def demo_fields)
qed

theorem log_space_off_by_one_witness:
  "\<exists>t u. begin_by [0, 1, 2] full_fs = Ok () t \<and> zero_by (butlast turns) t = Ok () u \<and> lh_n u = 29
     \<and> zero_by turns t = Fault (PanicF ''too big a transaction'')"
proof -
  have "length turns = 30" "fst ` set turns \<subseteq> set [0, 1, 2]" "distinct (map snd turns)" "\<forall>x \<in> snd ` set turns. x < disksize full_fs"
    by (auto simp: turns_def full_empty distinct_map inj_on_def)
  moreover have "\<forall>p \<in> set [0, 1, 2]. count_list (map fst turns) p = MAXOPBLOCKS"
    unfolding turns_def MAXOPBLOCKS_def by code_simp
  ultimately show ?thesis
    using log_space_off_by_one [OF full_empty(1,2), of "[0, 1, 2]" turns] full_empty(3) by simp
qed

end
