(* ===== verification/Pipe.thy ===== *)
theory Pipe
  imports Fs
begin

text \<open>
  Pipes (\<open>pipe.c\<close>): a ring of \<open>PIPESIZE\<close> bytes between two free-running counters. A pipe is
  named by the address of the page it lives in; \<open>pipes\<close> is the content of those pages.
\<close>

section \<open>Data\<close>

definition PIPESIZE :: nat where [kconst]: "PIPESIZE = 512"

record pipe =
  pi_data :: "byte list"
  pi_nread :: u32
  pi_nwrite :: u32
  pi_readopen :: bool
  pi_writeopen :: bool

record kpipe = kfs +
  pipes :: "nat \<Rightarrow> pipe option"

definition with_pipe ::
    "nat \<Rightarrow> 'a kpipe_scheme \<Rightarrow> (pipe \<Rightarrow> ('b, 'a kpipe_scheme) kres) \<Rightarrow> ('b, 'a kpipe_scheme) kres" where
  "with_pipe p s f =
     (case pipes s p of None \<Rightarrow> Fault (Undefined ''use of a freed pipe'') | Some x \<Rightarrow> f x)"

definition set_pipe :: "nat \<Rightarrow> pipe \<Rightarrow> 'a kpipe_scheme \<Rightarrow> 'a kpipe_scheme" where
  "set_pipe p x s = s\<lparr>pipes := (pipes s)(p \<mapsto> x)\<rparr>"

text \<open>The fields \<open>pipealloc\<close> sets in the fresh page; \<open>data\<close> holds what the page held.\<close>

definition new_pipe :: "byte list \<Rightarrow> pipe" where
  "new_pipe d = \<lparr>pi_data = d, pi_nread = 0, pi_nwrite = 0, pi_readopen = True, pi_writeopen = True\<rparr>"

section \<open>Ring\<close>

definition pipe_full :: "pipe \<Rightarrow> bool" where
  "pipe_full x \<longleftrightarrow> pi_nwrite x = pi_nread x + of_nat PIPESIZE"

definition pipe_empty :: "pipe \<Rightarrow> bool" where
  "pipe_empty x \<longleftrightarrow> pi_nread x = pi_nwrite x"

definition pipe_put :: "byte \<Rightarrow> pipe \<Rightarrow> pipe" where
  "pipe_put b x =
     x\<lparr>pi_data := (pi_data x)[unat (pi_nwrite x) mod PIPESIZE := b], pi_nwrite := pi_nwrite x + 1\<rparr>"

definition pipe_get :: "pipe \<Rightarrow> byte \<times> pipe" where
  "pipe_get x = (pi_data x ! (unat (pi_nread x) mod PIPESIZE), x\<lparr>pi_nread := pi_nread x + 1\<rparr>)"

section \<open>Operations\<close>

definition pipeclose :: "nat \<Rightarrow> bool \<Rightarrow> 'a kpipe_scheme \<Rightarrow> (unit, 'a kpipe_scheme) kres" where
  "pipeclose p writable s =
     kbind (acquire (PipeLock p) s) (\<lambda>_ s. with_pipe p s (\<lambda>x.
     kbind (if writable
            then wakeup (ChPipeRead p) (set_pipe p (x\<lparr>pi_writeopen := False\<rparr>) s)
            else wakeup (ChPipeWrite p) (set_pipe p (x\<lparr>pi_readopen := False\<rparr>) s)) (\<lambda>_ s. with_pipe p s (\<lambda>x.
       if \<not> pi_readopen x \<and> \<not> pi_writeopen x
       then kbind (release (PipeLock p) s) (\<lambda>_ s. kfree p (s\<lparr>pipes := (pipes s)(p := None)\<rparr>))
       else release (PipeLock p) s))))"

text \<open>
  \<open>pipewrite\<close> from the head of its loop on, the lock held; \<open>n\<close> is the byte count of the call
  and the list the bytes still to be written. \<open>pipewrite_resume\<close> goes on after a sleep.
\<close>

fun pipewrite_loop :: "nat \<Rightarrow> nat \<Rightarrow> byte list \<Rightarrow> 'a kpipe_scheme \<Rightarrow> (int, 'a kpipe_scheme) kres" where
  "pipewrite_loop p n [] s =
     kbind (wakeup (ChPipeRead p) s) (\<lambda>_ s. kbind (release (PipeLock p) s) (\<lambda>_ s. Ok (int n) s))"
| "pipewrite_loop p n (b # bs) s =
     with_pipe p s (\<lambda>x.
       if pipe_full x then
         case curproc s of
           None \<Rightarrow> Fault (Undefined ''pipewrite without a process'')
         | Some q \<Rightarrow>
             if \<not> pi_readopen x \<or> p_killed (the_proc s q)
             then kbind (release (PipeLock p) s) (\<lambda>_ s. Ok (-1) s)
             else kbind (wakeup (ChPipeRead p) s) (\<lambda>_ s. sleep (ChPipeWrite p) (PipeLock p) s)
       else pipewrite_loop p n bs (set_pipe p (pipe_put b x) s))"

definition pipewrite :: "nat \<Rightarrow> byte list \<Rightarrow> 'a kpipe_scheme \<Rightarrow> (int, 'a kpipe_scheme) kres" where
  "pipewrite p bs s = kbind (acquire (PipeLock p) s) (\<lambda>_ s. pipewrite_loop p (length bs) bs s)"

definition pipewrite_resume ::
    "nat \<Rightarrow> nat \<Rightarrow> byte list \<Rightarrow> 'a kpipe_scheme \<Rightarrow> (int, 'a kpipe_scheme) kres" where
  "pipewrite_resume p n bs s = kbind (sleep_resume (PipeLock p) s) (\<lambda>_ s. pipewrite_loop p n bs s)"

text \<open>The copying loop of \<open>piperead\<close>, then the whole from its test on.\<close>

fun pipe_take :: "nat \<Rightarrow> pipe \<Rightarrow> byte list \<times> pipe" where
  "pipe_take 0 x = ([], x)"
| "pipe_take (Suc n) x =
     (if pipe_empty x then ([], x)
      else let (b, x) = pipe_get x; (bs, x) = pipe_take n x in (b # bs, x))"

definition piperead_test :: "nat \<Rightarrow> nat \<Rightarrow> 'a kpipe_scheme \<Rightarrow> (byte list \<times> int, 'a kpipe_scheme) kres" where
  "piperead_test p n s =
     with_pipe p s (\<lambda>x.
       if pipe_empty x \<and> pi_writeopen x then
         case curproc s of
           None \<Rightarrow> Fault (Undefined ''piperead without a process'')
         | Some q \<Rightarrow>
             if p_killed (the_proc s q) then kbind (release (PipeLock p) s) (\<lambda>_ s. Ok ([], -1) s)
             else sleep (ChPipeRead p) (PipeLock p) s
       else
         let (bs, x) = pipe_take n x
         in kbind (wakeup (ChPipeWrite p) (set_pipe p x s)) (\<lambda>_ s.
            kbind (release (PipeLock p) s) (\<lambda>_ s. Ok (bs, int (length bs)) s)))"

definition piperead :: "nat \<Rightarrow> nat \<Rightarrow> 'a kpipe_scheme \<Rightarrow> (byte list \<times> int, 'a kpipe_scheme) kres" where
  "piperead p n s = kbind (acquire (PipeLock p) s) (\<lambda>_ s. piperead_test p n s)"

definition piperead_resume :: "nat \<Rightarrow> nat \<Rightarrow> 'a kpipe_scheme \<Rightarrow> (byte list \<times> int, 'a kpipe_scheme) kres" where
  "piperead_resume p n s = kbind (sleep_resume (PipeLock p) s) (\<lambda>_ s. piperead_test p n s)"

section \<open>The ring as a queue\<close>

definition pipe_size :: "pipe \<Rightarrow> nat" where
  "pipe_size x = unat (pi_nwrite x - pi_nread x)"

definition pipe_ok :: "pipe \<Rightarrow> bool" where
  "pipe_ok x \<longleftrightarrow> length (pi_data x) = PIPESIZE \<and> pipe_size x \<le> PIPESIZE"

definition pipe_content :: "pipe \<Rightarrow> byte list" where
  "pipe_content x = map (\<lambda>i. pi_data x ! ((unat (pi_nread x) + i) mod PIPESIZE)) [0 ..< pipe_size x]"

text \<open>The counters may wrap around: the size of the ring divides \<open>2 ^ 32\<close>.\<close>

lemma counter_mod: "unat (a + of_nat i :: u32) mod PIPESIZE = (unat a + i) mod PIPESIZE"
proof -
  have "unat (a + of_nat i) = (unat a + i) mod 2 ^ 32"
    by (simp add: unat_word_ariths unat_of_nat mod_simps)
  then show ?thesis by (simp add: PIPESIZE_def mod_mod_cancel)
qed

lemma nwrite_eq: "pi_nwrite x = pi_nread x + of_nat (pipe_size x)"
  by (simp add: pipe_size_def)

lemma size_word: "n \<le> PIPESIZE \<Longrightarrow> unat (of_nat n :: u32) = n"
  by (simp add: PIPESIZE_def unat_of_nat)

lemma pipe_full_size: "pipe_ok x \<Longrightarrow> pipe_full x \<longleftrightarrow> pipe_size x = PIPESIZE"
proof -
  assume "pipe_ok x"
  have "pipe_full x \<longleftrightarrow> pi_nwrite x - pi_nread x = of_nat PIPESIZE" by (auto simp: pipe_full_def algebra_simps)
  also have "\<dots> \<longleftrightarrow> pipe_size x = PIPESIZE"
    unfolding pipe_size_def using size_word [of PIPESIZE] by (simp add: word_unat_eq_iff)
  finally show ?thesis .
qed

lemma pipe_put_content:
  assumes "pipe_ok x" and "\<not> pipe_full x"
  shows "pipe_ok (pipe_put b x) \<and> pipe_content (pipe_put b x) = pipe_content x @ [b]"
proof -
  have lt: "pipe_size x < PIPESIZE" and len: "length (pi_data x) = PIPESIZE"
    using assms pipe_full_size by (auto simp: pipe_ok_def)
  have "pi_nwrite (pipe_put b x) - pi_nread (pipe_put b x) = of_nat (pipe_size x + 1)"
    using nwrite_eq [of x] by (simp add: pipe_put_def)
  then have sz: "pipe_size (pipe_put b x) = pipe_size x + 1"
    unfolding pipe_size_def [of "pipe_put b x"] using size_word [of "pipe_size x + 1"] lt by simp
  let ?k = "(unat (pi_nread x) + pipe_size x) mod PIPESIZE"
  have k: "unat (pi_nwrite x) mod PIPESIZE = ?k" unfolding nwrite_eq [of x] by (rule counter_mod)
  have ne: "?k \<noteq> (unat (pi_nread x) + i) mod PIPESIZE" if "i < pipe_size x" for i
  proof
    assume "?k = (unat (pi_nread x) + i) mod PIPESIZE"
    then have "PIPESIZE dvd pipe_size x - i"
      using mod_eq_dvd_iff_nat [of "unat (pi_nread x) + i" "unat (pi_nread x) + pipe_size x" PIPESIZE] that by simp
    then show False using nat_dvd_not_less [of "pipe_size x - i" PIPESIZE] that lt by simp
  qed
  have d: "pi_data (pipe_put b x) = (pi_data x)[?k := b]" "pi_nread (pipe_put b x) = pi_nread x"
    by (simp_all add: pipe_put_def k)
  have "?k < length (pi_data x)" by (simp add: len PIPESIZE_def)
  then show ?thesis using lt len ne by (simp add: pipe_ok_def pipe_content_def sz d)
qed

lemma pipe_get_content:
  assumes "pipe_ok x" and "\<not> pipe_empty x"
  shows "pipe_ok (snd (pipe_get x)) \<and> pipe_content x = fst (pipe_get x) # pipe_content (snd (pipe_get x))"
proof -
  have pos: "0 < pipe_size x" using assms(2) by (auto simp: pipe_empty_def pipe_size_def unat_gt_0)
  then obtain k where k: "pipe_size x = Suc k" using gr0_conv_Suc by blast
  have "pi_nwrite x - (pi_nread x + 1) = of_nat k" using nwrite_eq [of x] k by simp
  then have sz: "pipe_size (snd (pipe_get x)) = k"
    using size_word [of k] assms(1) k by (simp add: pipe_get_def pipe_ok_def) (simp add: pipe_size_def)
  have m: "(unat (pi_nread x + 1) + i) mod PIPESIZE = (unat (pi_nread x) + Suc i) mod PIPESIZE" for i
  proof -
    have "(unat (pi_nread x + 1) + i) mod PIPESIZE = (unat (pi_nread x + 1) mod PIPESIZE + i) mod PIPESIZE"
      by (simp only: mod_add_left_eq)
    also have "\<dots> = ((unat (pi_nread x) + 1) mod PIPESIZE + i) mod PIPESIZE" using counter_mod [of "pi_nread x" 1] by simp
    finally show ?thesis by (simp add: mod_add_left_eq)
  qed
  have "pipe_content (snd (pipe_get x)) = map (\<lambda>i. pi_data x ! ((unat (pi_nread x) + Suc i) mod PIPESIZE)) [0 ..< k]"
    unfolding pipe_content_def sz by (simp add: pipe_get_def m)
  moreover have "pipe_content x = pi_data x ! (unat (pi_nread x) mod PIPESIZE)
      # map (\<lambda>i. pi_data x ! ((unat (pi_nread x) + Suc i) mod PIPESIZE)) [0 ..< k]"
    unfolding pipe_content_def k by (simp add: upt_conv_Cons map_Suc_upt [symmetric] comp_def del: upt_Suc)
  ultimately show ?thesis using assms(1) sz k by (simp add: pipe_ok_def pipe_get_def)
qed

interpretation ring: fifo pipe_content pipe_ok PIPESIZE pipe_full pipe_empty pipe_put pipe_get
proof unfold_locales
  fix x :: pipe and b
  show "pipe_ok x \<Longrightarrow> length (pipe_content x) \<le> PIPESIZE" by (simp add: pipe_ok_def pipe_content_def)
  show "pipe_ok x \<Longrightarrow> pipe_full x \<longleftrightarrow> length (pipe_content x) = PIPESIZE" by (simp add: pipe_full_size pipe_content_def)
  show "pipe_ok x \<Longrightarrow> pipe_empty x \<longleftrightarrow> pipe_content x = []"
    by (auto simp: pipe_empty_def pipe_content_def pipe_size_def unat_eq_0)
qed (rule pipe_put_content pipe_get_content; assumption)+

section \<open>Reading and writing\<close>

lemma pipe_take_get_n: "pipe_take n x = ring.get_n n x"
  by (induction n arbitrary: x) (auto simp: split_beta Let_def)

lemma set_pipe_simps [simp]:
  "pipes (set_pipe p x s) p = Some x" "set_pipe p y (set_pipe p x s) = set_pipe p y s"
  "held (set_pipe p x s) = held s" "curproc (set_pipe p x s) = curproc s" "ptable (set_pipe p x s) = ptable s"
  by (simp_all add: set_pipe_def)

lemma set_pipe_same: "pipes s p = Some x \<Longrightarrow> set_pipe p x s = s"
  by (simp add: set_pipe_def fun_upd_idem)

lemma pipe_put_open: "pi_readopen (pipe_put b x) = pi_readopen x" "pi_writeopen (pipe_put b x) = pi_writeopen x"
  by (simp_all add: pipe_put_def)

lemma put_all_open: "pi_readopen (ring.put_all bs x) = pi_readopen x" "pi_writeopen (ring.put_all bs x) = pi_writeopen x"
  by (induction bs arbitrary: x) (simp_all add: pipe_put_open)

text \<open>The writer puts what fits and stops at the first byte that does not.\<close>

lemma pipewrite_loop_puts:
  assumes "pipes s p = Some x" and "pipe_ok x"
  shows "pipewrite_loop p n bs s
    = pipewrite_loop p n (drop (PIPESIZE - length (pipe_content x)) bs) (set_pipe p (ring.put_all bs x) s)"
  using assms
proof (induction bs arbitrary: s x)
  case (Cons b bs)
  show ?case
  proof (cases "pipe_full x")
    case True then show ?thesis using Cons.prems ring.full by (simp add: set_pipe_same)
  next
    case False
    then have p: "pipe_ok (pipe_put b x)" "pipe_content (pipe_put b x) = pipe_content x @ [b]"
      and "length (pipe_content x) < PIPESIZE"
      using ring.put [OF Cons.prems(2)] ring.full [OF Cons.prems(2)] ring.cap [OF Cons.prems(2)] by auto
    then obtain k where k: "PIPESIZE - length (pipe_content x) = Suc k" "PIPESIZE - Suc (length (pipe_content x)) = k"
      by (metis Suc_diff_Suc)
    have "pipewrite_loop p n (b # bs) s = pipewrite_loop p n bs (set_pipe p (pipe_put b x) s)"
      using Cons.prems False by (simp add: with_pipe_def)
    also have "\<dots> = pipewrite_loop p n (drop k bs) (set_pipe p (ring.put_all bs (pipe_put b x)) s)"
      using Cons.IH [of "set_pipe p (pipe_put b x) s" "pipe_put b x"] p k by simp
    finally show ?thesis using False k by simp
  qed
qed (simp add: set_pipe_same)

lemma pipes_wakeup1 [simp]: "pipes (wakeup1 c s) = pipes s"
  by (simp add: wakeup1_def)

lemma wakeup1_killed: "q < length (ptable s) \<Longrightarrow> p_killed (the_proc (wakeup1 c s) q) = p_killed (the_proc s q)"
  by (simp add: wake_proc_def)

text \<open>A pipe whose read counter is about to wrap around and whose write counter has done so.\<close>

definition demo_pipe :: pipe where
  "demo_pipe = \<lparr>pi_data = map of_nat [0 ..< PIPESIZE], pi_nread = - 1, pi_nwrite = 1, pi_readopen = True,
     pi_writeopen = True\<rparr>"

definition pipe_demo :: kpipe where
  "pipe_demo = klog.extend (log_zero log_disk0)
     \<lparr>sb = decode_sb zero_bytes, icache = [], pipes = (\<lambda>_. None)(4096 \<mapsto> demo_pipe)\<rparr>"

lemma demo_pipe_size: "pipe_size demo_pipe = 2"
  by (simp add: pipe_size_def demo_pipe_def)

lemma demo_pipe_ok: "pipe_ok demo_pipe"
  by (simp add: pipe_ok_def demo_pipe_size PIPESIZE_def) (simp add: demo_pipe_def PIPESIZE_def)

lemma demo_pipe_content: "pipe_content demo_pipe = [255, 0]"
proof -
  have "unat (- 1 :: u32) = 4294967295" by (simp add: unsigned_minus_1_eq_mask mask_eq_exp_minus_1)
  then show ?thesis
    by (simp add: pipe_content_def demo_pipe_size upt_conv_Cons) (simp add: demo_pipe_def PIPESIZE_def)
qed

lemma pipe_demo_fields: "held pipe_demo = []" "curproc pipe_demo = Some 0" "length (ptable pipe_demo) = 1"
  "pipes pipe_demo 4096 = Some demo_pipe"
  by (simp_all add: pipe_demo_def log_zero_def klog.defs kbase.defs boot_kbase_def)

section \<open>Properties\<close>

text \<open>
  C5: \<open>pipewrite\<close> refines appending to a bounded queue, also when the counters wrap around: it
  appends as many of the bytes as fit, and returns their number if all fit. Otherwise it fails when
  the read end is closed or the writer was killed, and else wakes every waiting reader and sleeps
  until there is room.
\<close>

theorem pipewrite_refines:
  assumes "held s = []" and "curproc s = Some q" and "q < length (ptable s)" and "pipes s p = Some x" and "pipe_ok x"
  shows "\<exists>t y. pipes t p = Some y \<and> pipe_ok y
    \<and> pipe_content y = pipe_content x @ take (PIPESIZE - length (pipe_content x)) bs
    \<and> pipewrite p bs s =
        (if length (pipe_content x) + length bs \<le> PIPESIZE then Ok (int (length bs)) t
         else if \<not> pi_readopen x \<or> p_killed (the_proc s q) then Ok (-1) t
         else Block (ChPipeWrite p) t)
    \<and> (pipewrite p bs s = Ok (-1) t \<or> no_sleeper (ChPipeRead p) t)"
proof -
  let ?k = "PIPESIZE - length (pipe_content x)" let ?y = "ring.put_all bs x"
  let ?s = "set_pipe p ?y (s\<lparr>held := [PipeLock p]\<rparr>)"
  have y: "pipe_ok ?y" "pipe_content ?y = pipe_content x @ take ?k bs" "length (pipe_content x) \<le> PIPESIZE"
    using ring.put_all_content ring.cap assms(5) by blast+
  have w: "pipewrite p bs s = pipewrite_loop p (length bs) (drop ?k bs) ?s"
    using pipewrite_loop_puts [of "s\<lparr>held := [PipeLock p]\<rparr>" p x "length bs" bs] assms(1,4,5)
    by (simp add: pipewrite_def acquire_def)
  show ?thesis
  proof (cases "length (pipe_content x) + length bs \<le> PIPESIZE")
    case True
    then have "pipewrite p bs s = Ok (int (length bs)) ((wakeup1 (ChPipeRead p) ?s)\<lparr>held := []\<rparr>)"
      unfolding w by (simp add: wakeup_Ok release_def)
    then show ?thesis using True y no_sleeper_wakeup [of "ChPipeRead p" ?s]
      by (intro exI [of _ "(wakeup1 (ChPipeRead p) ?s)\<lparr>held := []\<rparr>"] exI [of _ ?y]) (simp add: no_sleeper_def)
  next
    case False
    then obtain b cs where d: "drop ?k bs = b # cs" by (metis drop_eq_Nil le_diff_conv2 list.exhaust y(3) add.commute)
    have "length (pipe_content ?y) = PIPESIZE" using False y(2,3) by simp
    then have f: "pipe_full ?y" using ring.full [OF y(1)] by simp
    show ?thesis
    proof (cases "\<not> pi_readopen x \<or> p_killed (the_proc s q)")
      case True
      then have "pipewrite p bs s = Ok (-1) (?s\<lparr>held := []\<rparr>)"
        unfolding w d using f assms(2) by (simp add: with_pipe_def put_all_open release_def)
      then show ?thesis using True False y
        by (intro exI [of _ "?s\<lparr>held := []\<rparr>"] exI [of _ ?y]) simp
    next
      case go: False
      let ?w = "wakeup1 (ChPipeRead p) ?s"
      let ?t = "upd_proc q (\<lambda>r. r\<lparr>p_chan := Some (ChPipeWrite p), p_state := SLEEPING, p_context := SavedContext\<rparr>)
        (?w\<lparr>held := [PtableLock]\<rparr>)"
      have sl: "sleep (ChPipeWrite p) (PipeLock p) ?w = Block (ChPipeWrite p) ?t"
        by (rule sleep_eq) (use assms(2,3) in simp_all)
      then have "pipewrite p bs s = Block (ChPipeWrite p) ?t"
        unfolding w d using f assms(2) go by (simp add: with_pipe_def put_all_open wakeup_Ok)
      moreover have "no_sleeper (ChPipeRead p) ?t"
        using no_sleeper_wakeup [of "ChPipeRead p" ?s]
        by (auto simp: no_sleeper_def upd_proc_def dest!: set_update_memI subsetD [OF set_update_subset_insert])
      ultimately show ?thesis using go False y
        by (intro exI [of _ ?t] exI [of _ ?y]) (simp add: upd_proc_def)
    qed
  qed
qed

theorem pipewrite_refines_witness:
  "\<exists>t y. pipewrite 4096 [7, 8] pipe_demo = Ok 2 t \<and> pipes t 4096 = Some y \<and> pipe_content y = [255, 0, 7, 8]"
proof -
  have "\<exists>t y. pipes t 4096 = Some y \<and> pipe_ok y
    \<and> pipe_content y = pipe_content demo_pipe @ take (PIPESIZE - length (pipe_content demo_pipe)) [7, 8]
    \<and> pipewrite 4096 [7, 8] pipe_demo =
        (if length (pipe_content demo_pipe) + length [7, 8 :: byte] \<le> PIPESIZE then Ok (int (length [7, 8 :: byte])) t
         else if \<not> pi_readopen demo_pipe \<or> p_killed (the_proc pipe_demo 0) then Ok (-1) t
         else Block (ChPipeWrite 4096) t)
    \<and> (pipewrite 4096 [7, 8] pipe_demo = Ok (-1) t \<or> no_sleeper (ChPipeRead 4096) t)"
    by (rule pipewrite_refines) (simp_all add: pipe_demo_fields demo_pipe_ok)
  then show ?thesis by (auto simp: demo_pipe_content PIPESIZE_def)
qed

text \<open>
  C16: \<open>piperead\<close> refines taking from the front of the queue: it sleeps only when the pipe is empty
  and its write end open, fails then if the reader was killed, and else delivers the first bytes of
  the queue, up to the number asked for, leaves the rest and wakes every waiting writer.
\<close>

theorem piperead_refines:
  assumes "held s = []" and "curproc s = Some q" and "q < length (ptable s)" and "pipes s p = Some x" and "pipe_ok x"
  shows "\<exists>t y. pipes t p = Some y \<and> pipe_ok y \<and>
    (if pipe_content x = [] \<and> pi_writeopen x
     then pipe_content y = [] \<and> piperead p n s = (if p_killed (the_proc s q) then Ok ([], -1) t else Block (ChPipeRead p) t)
     else pipe_content y = drop n (pipe_content x) \<and> no_sleeper (ChPipeWrite p) t
       \<and> piperead p n s = Ok (take n (pipe_content x), int (min n (length (pipe_content x)))) t)"
proof -
  let ?s = "s\<lparr>held := [PipeLock p]\<rparr>"
  have r: "piperead p n s = piperead_test p n ?s" using assms(1) by (simp add: piperead_def acquire_def)
  have e: "pipe_empty x \<longleftrightarrow> pipe_content x = []" by (rule ring.empty [OF assms(5)])
  show ?thesis
  proof (cases "pipe_content x = [] \<and> pi_writeopen x")
    case wait: True
    show ?thesis
    proof (cases "p_killed (the_proc s q)")
      case True
      then have "piperead p n s = Ok ([], -1) (?s\<lparr>held := []\<rparr>)"
        unfolding r using wait assms(2,4) e by (simp add: piperead_test_def with_pipe_def release_def)
      then show ?thesis using wait True assms(4,5) by (intro exI [of _ "?s\<lparr>held := []\<rparr>"] exI [of _ x]) simp
    next
      case False
      let ?t = "upd_proc q (\<lambda>r. r\<lparr>p_chan := Some (ChPipeRead p), p_state := SLEEPING, p_context := SavedContext\<rparr>)
        (?s\<lparr>held := [PtableLock]\<rparr>)"
      have "sleep (ChPipeRead p) (PipeLock p) ?s = Block (ChPipeRead p) ?t"
        by (rule sleep_eq) (use assms(2,3) in simp_all)
      then have "piperead p n s = Block (ChPipeRead p) ?t"
        unfolding r using wait False assms(2,4) e by (simp add: piperead_test_def with_pipe_def)
      then show ?thesis using wait False assms(4,5) by (intro exI [of _ ?t] exI [of _ x]) (simp add: upd_proc_def)
    qed
  next
    case False
    obtain bs y where g: "pipe_take n x = (bs, y)" by force
    then have y: "pipe_ok y" "bs = take n (pipe_content x)" "pipe_content y = drop n (pipe_content x)"
      using ring.get_n_content [OF assms(5), of n] by (simp_all add: pipe_take_get_n)
    let ?t = "(wakeup1 (ChPipeWrite p) (set_pipe p y ?s))\<lparr>held := []\<rparr>"
    have "piperead p n s = Ok (bs, int (length bs)) ?t"
      unfolding r using False assms(4) e g by (auto simp: piperead_test_def with_pipe_def wakeup_Ok release_def)
    then show ?thesis using False y no_sleeper_wakeup [of "ChPipeWrite p" "set_pipe p y ?s"]
      by (intro exI [of _ ?t] exI [of _ y]) (simp add: no_sleeper_def min.commute)
  qed
qed

theorem piperead_refines_witness:
  "\<exists>t y. piperead 4096 1 pipe_demo = Ok ([255], 1) t \<and> pipes t 4096 = Some y \<and> pipe_content y = [0]"
proof -
  have "\<exists>t y. pipes t 4096 = Some y \<and> pipe_ok y \<and>
    (if pipe_content demo_pipe = [] \<and> pi_writeopen demo_pipe
     then pipe_content y = [] \<and> piperead 4096 1 pipe_demo =
       (if p_killed (the_proc pipe_demo 0) then Ok ([], -1) t else Block (ChPipeRead 4096) t)
     else pipe_content y = drop 1 (pipe_content demo_pipe) \<and> no_sleeper (ChPipeWrite 4096) t
       \<and> piperead 4096 1 pipe_demo
         = Ok (take 1 (pipe_content demo_pipe), int (min 1 (length (pipe_content demo_pipe)))) t)"
    by (rule piperead_refines) (simp_all add: pipe_demo_fields demo_pipe_ok)
  then show ?thesis by (auto simp: demo_pipe_content)
qed

end
