(* ===== verification/File.thy ===== *)
theory File
  imports Pipe
begin

text \<open>
  Open files (\<open>file.c\<close>) and \<open>pipealloc\<close> (\<open>pipe.c\<close>), which needs the file table. A \<open>struct file *\<close>
  is an index into \<open>ftable\<close>.
\<close>

section \<open>Data\<close>

datatype ftype = FD_NONE | FD_PIPE | FD_INODE

record sfile =
  f_type :: ftype
  f_ref :: int
  f_readable :: bool
  f_writable :: bool
  f_pipe :: nat
  f_ip :: nat
  f_off :: nat

record kfile = kpipe +
  ftable :: "sfile list"

abbreviation the_file :: "'a kfile_scheme \<Rightarrow> nat \<Rightarrow> sfile" where
  "the_file s f \<equiv> ftable s ! f"

definition upd_file :: "nat \<Rightarrow> (sfile \<Rightarrow> sfile) \<Rightarrow> 'a kfile_scheme \<Rightarrow> 'a kfile_scheme" where
  "upd_file f g s = s\<lparr>ftable := (ftable s)[f := g (the_file s f)]\<rparr>"

definition file_free :: "sfile \<Rightarrow> bool" where
  "file_free f \<longleftrightarrow> f_ref f = 0"

definition file_claim :: "sfile \<Rightarrow> sfile" where
  "file_claim f = f\<lparr>f_ref := 1\<rparr>"

section \<open>Table operations\<close>

definition filealloc :: "'a kfile_scheme \<Rightarrow> (nat option, 'a kfile_scheme) kres" where
  "filealloc s =
     kbind (acquire FtableLock s) (\<lambda>_ s.
       case claim_first file_free file_claim (ftable s) of
         Some (f, fs) \<Rightarrow> kbind (release FtableLock (s\<lparr>ftable := fs\<rparr>)) (\<lambda>_ s. Ok (Some f) s)
       | None \<Rightarrow> kbind (release FtableLock s) (\<lambda>_ s. Ok None s))"

definition filedup :: "nat \<Rightarrow> 'a kfile_scheme \<Rightarrow> (nat, 'a kfile_scheme) kres" where
  "filedup f s =
     kbind (acquire FtableLock s) (\<lambda>_ s.
       if f_ref (the_file s f) < 1 then panic ''filedup''
       else kbind (release FtableLock (upd_file f (\<lambda>x. x\<lparr>f_ref := f_ref x + 1\<rparr>) s)) (\<lambda>_ s. Ok f s))"

definition fileclose :: "nat \<Rightarrow> 'a kfile_scheme \<Rightarrow> (unit, 'a kfile_scheme) kres" where
  "fileclose f s =
     kbind (acquire FtableLock s) (\<lambda>_ s.
       if f_ref (the_file s f) < 1 then panic ''fileclose''
       else
         let s = upd_file f (\<lambda>x. x\<lparr>f_ref := f_ref x - 1\<rparr>) s
         in if f_ref (the_file s f) > 0 then release FtableLock s
            else
              let ff = the_file s f;
                  s = upd_file f (\<lambda>x. x\<lparr>f_ref := 0, f_type := FD_NONE\<rparr>) s
              in kbind (release FtableLock s) (\<lambda>_ s.
                   case f_type ff of
                     FD_PIPE \<Rightarrow> pipeclose (f_pipe ff) (f_writable ff) s
                   | FD_INODE \<Rightarrow>
                       kbind (begin_op s) (\<lambda>_ s. kbind (iput (f_ip ff) s) (\<lambda>_ s. end_op s))
                   | FD_NONE \<Rightarrow> Ok () s))"

definition filestat :: "nat \<Rightarrow> 'a kfile_scheme \<Rightarrow> (stat option, 'a kfile_scheme) kres" where
  "filestat f s =
     (if f_type (the_file s f) = FD_INODE then
        kbind (ilock (f_ip (the_file s f)) s) (\<lambda>_ s.
          let st = stati (f_ip (the_file s f)) s
          in kbind (iunlock (f_ip (the_file s f)) s) (\<lambda>_ s. Ok (Some st) s))
      else Ok None s)"

section \<open>Reading and writing\<close>

definition fileread ::
    "'a kfile_scheme devsw \<Rightarrow> nat \<Rightarrow> nat \<Rightarrow> 'a kfile_scheme \<Rightarrow> (byte list \<times> int, 'a kfile_scheme) kres" where
  "fileread dv f n s =
     (if \<not> f_readable (the_file s f) then Ok ([], -1) s
      else case f_type (the_file s f) of
        FD_PIPE \<Rightarrow> piperead (f_pipe (the_file s f)) n s
      | FD_INODE \<Rightarrow>
          kbind (ilock (f_ip (the_file s f)) s) (\<lambda>_ s.
          kbind (readi dv (f_ip (the_file s f)) (f_off (the_file s f)) n s) (\<lambda>(bs, r) s.
            let s = (if r > 0 then upd_file f (\<lambda>x. x\<lparr>f_off := uadd (f_off x) (nat r)\<rparr>) s else s)
            in kbind (iunlock (f_ip (the_file s f)) s) (\<lambda>_ s. Ok (bs, r) s)))
      | FD_NONE \<Rightarrow> panic ''fileread'')"

definition filepread ::
    "'a kfile_scheme devsw \<Rightarrow> nat \<Rightarrow> nat \<Rightarrow> nat \<Rightarrow> 'a kfile_scheme \<Rightarrow> (byte list \<times> int, 'a kfile_scheme) kres" where
  "filepread dv f n off s =
     (if \<not> f_readable (the_file s f) then Ok ([], -1) s
      else case f_type (the_file s f) of
        FD_PIPE \<Rightarrow> piperead (f_pipe (the_file s f)) n s
      | FD_INODE \<Rightarrow>
          kbind (ilock (f_ip (the_file s f)) s) (\<lambda>_ s.
          kbind (readi dv (f_ip (the_file s f)) off n s) (\<lambda>(bs, r) s.
          kbind (iunlock (f_ip (the_file s f)) s) (\<lambda>_ s. Ok (bs, r) s)))
      | FD_NONE \<Rightarrow> panic ''fileread'')"

text \<open>The most bytes written in one transaction.\<close>

definition max_write :: nat where [kconst]:
  "max_write = (MAXOPBLOCKS - 1 - 1 - 2) div 2 * 512"

text \<open>
  One round of the loops of \<open>filewrite\<close> and \<open>filepwrite\<close>: a transaction around one \<open>writei\<close> of
  \<open>bs\<close> at \<open>off\<close>, whose result it delivers; \<open>advance\<close> moves the offset by that result.
\<close>

definition write_chunk ::
    "'a kfile_scheme devsw \<Rightarrow> nat \<Rightarrow> byte list \<Rightarrow> nat \<Rightarrow> (nat \<Rightarrow> 'a kfile_scheme \<Rightarrow> 'a kfile_scheme)
      \<Rightarrow> 'a kfile_scheme \<Rightarrow> (int, 'a kfile_scheme) kres" where
  "write_chunk dv ip bs off advance s =
     kbind (begin_op s) (\<lambda>_ s.
     kbind (ilock ip s) (\<lambda>_ s.
     kbind (writei dv ip bs off s) (\<lambda>r s.
       let s = (if r > 0 then advance (nat r) s else s)
       in kbind (iunlock ip s) (\<lambda>_ s. kbind (end_op s) (\<lambda>_ s. Ok r s)))))"

function filewrite_loop ::
    "'a kfile_scheme devsw \<Rightarrow> nat \<Rightarrow> byte list \<Rightarrow> 'a kfile_scheme \<Rightarrow> (bool, 'a kfile_scheme) kres" where
  "filewrite_loop dv f bs s =
     (if bs = [] then Ok True s
      else
        let n1 = min (length bs) max_write
        in kbind (write_chunk dv (f_ip (the_file s f)) (take n1 bs) (f_off (the_file s f))
                    (\<lambda>r. upd_file f (\<lambda>x. x\<lparr>f_off := uadd (f_off x) r\<rparr>)) s) (\<lambda>r s.
             if r < 0 then Ok False s
             else if r \<noteq> int n1 then panic ''short filewrite''
             else filewrite_loop dv f (drop n1 bs) s))"
  by pat_completeness auto
termination
  by (relation "measure (\<lambda>(dv, f, bs, s). length bs)") (auto simp: kconst)

declare filewrite_loop.simps [simp del]

definition filewrite ::
    "'a kfile_scheme devsw \<Rightarrow> nat \<Rightarrow> byte list \<Rightarrow> 'a kfile_scheme \<Rightarrow> (int, 'a kfile_scheme) kres" where
  "filewrite dv f bs s =
     (if \<not> f_writable (the_file s f) then Ok (-1) s
      else case f_type (the_file s f) of
        FD_PIPE \<Rightarrow> pipewrite (f_pipe (the_file s f)) bs s
      | FD_INODE \<Rightarrow>
          kbind (filewrite_loop dv f bs s) (\<lambda>done s. Ok (if done then int (length bs) else -1) s)
      | FD_NONE \<Rightarrow> panic ''filewrite'')"

function filepwrite_loop ::
    "'a kfile_scheme devsw \<Rightarrow> nat \<Rightarrow> byte list \<Rightarrow> nat \<Rightarrow> 'a kfile_scheme \<Rightarrow> (bool, 'a kfile_scheme) kres" where
  "filepwrite_loop dv f bs offset s =
     (if bs = [] then Ok True s
      else
        let n1 = min (length bs) max_write
        in kbind (write_chunk dv (f_ip (the_file s f)) (take n1 bs) offset (\<lambda>r s. s) s) (\<lambda>r s.
             if r < 0 then Ok False s
             else if r \<noteq> int n1 then panic ''short filewrite''
             else filepwrite_loop dv f (drop n1 bs) (uadd offset n1) s))"
  by pat_completeness auto
termination
  by (relation "measure (\<lambda>(dv, f, bs, offset, s). length bs)") (auto simp: kconst)

declare filepwrite_loop.simps [simp del]

definition filepwrite ::
    "'a kfile_scheme devsw \<Rightarrow> nat \<Rightarrow> byte list \<Rightarrow> nat \<Rightarrow> 'a kfile_scheme \<Rightarrow> (int, 'a kfile_scheme) kres" where
  "filepwrite dv f bs off s =
     (if \<not> f_writable (the_file s f) then Ok (-1) s
      else case f_type (the_file s f) of
        FD_PIPE \<Rightarrow> pipewrite (f_pipe (the_file s f)) bs s
      | FD_INODE \<Rightarrow>
          kbind (filepwrite_loop dv f bs off s) (\<lambda>done s. Ok (if done then int (length bs) else -1) s)
      | FD_NONE \<Rightarrow> panic ''filewrite'')"

section \<open>Making a pipe\<close>

definition pipealloc :: "'a kfile_scheme \<Rightarrow> ((nat \<times> nat) option, 'a kfile_scheme) kres" where
  "pipealloc s =
     kbind (filealloc s) (\<lambda>f0 s.
       case f0 of
         None \<Rightarrow> Ok None s
       | Some f0 \<Rightarrow>
           kbind (filealloc s) (\<lambda>f1 s.
             case f1 of
               None \<Rightarrow> kbind (fileclose f0 s) (\<lambda>_ s. Ok None s)
             | Some f1 \<Rightarrow>
                 kbind (kalloc s) (\<lambda>p s.
                   if p = 0 then
                     kbind (fileclose f0 s) (\<lambda>_ s. kbind (fileclose f1 s) (\<lambda>_ s. Ok None s))
                   else
                     let s = set_pipe p (new_pipe (slice (mem s) (V2P p) PIPESIZE)) s;
                         s = upd_file f0 (\<lambda>x. x\<lparr>f_type := FD_PIPE, f_readable := True,
                               f_writable := False, f_pipe := p\<rparr>) s;
                         s = upd_file f1 (\<lambda>x. x\<lparr>f_type := FD_PIPE, f_readable := False,
                               f_writable := True, f_pipe := p\<rparr>) s
                     in Ok (Some (f0, f1)) s)))"

end
