(* ===== verification/File_Refs.thy ===== *)
theory File_Refs
  imports File Log_Space
begin

text \<open>
  References to open files (\<open>file.c\<close>): what the layers below leave of the file table, and the counts
  as an invariant of every sequence of \<open>filealloc\<close>, \<open>filedup\<close> and \<open>fileclose\<close>.
\<close>

section \<open>What the file system leaves alone\<close>

text \<open>The operations below the file table do not touch it.\<close>

lemma more_up:
  fixes s t :: "'a kfs_scheme"
  shows "kbio.more t = kbio.more s \<Longrightarrow> kfs.more t = kfs.more s" "klog.more t = klog.more s \<Longrightarrow> kfs.more t = kfs.more s"
  by (cases s; cases t; simp)+

lemma more_upd [simp]:
  "kfs.more (upd_inode ip f s) = kfs.more s" "kfs.more (upd_buf b g s) = kfs.more s" "kfs.more (set_data b d s) = kfs.more s"
  by (simp_all add: upd_inode_def upd_buf_def set_data_def)

lemma fs_lock_frame:
  fixes s :: "'a kfs_scheme"
  shows "acquire lk s = Ok x t \<Longrightarrow> kfs.more t = kfs.more s" "release lk s = Ok x t \<Longrightarrow> kfs.more t = kfs.more s"
    "wakeup c s = Ok x t \<Longrightarrow> kfs.more t = kfs.more s"
  by (auto simp: acquire_def release_def wakeup_def wakeup1_def kbind_eq_Ok split: if_splits)

lemma inode_lock_frame:
  fixes s :: "'a kfs_scheme"
  shows "acquiresleep ch (inode_lock b) (set_inode_lock b) s = Ok x t \<Longrightarrow> kfs.more t = kfs.more s"
    "releasesleep ch (set_inode_lock b) s = Ok x t \<Longrightarrow> kfs.more t = kfs.more s"
    "holdingsleep ch (inode_lock b) s = Ok r t \<Longrightarrow> kfs.more t = kfs.more s"
  by (auto simp: acquiresleep_def acquiresleep_test_def releasesleep_def holdingsleep_def kbind_eq_Ok Let_def
    dest!: fs_lock_frame split: if_splits option.splits)

lemma fs_bio_frame:
  fixes s :: "'a kfs_scheme"
  shows "bread dev bno s = Ok b t \<Longrightarrow> kfs.more t = kfs.more s" "brelse b s = Ok x t \<Longrightarrow> kfs.more t = kfs.more s"
    "bwrite b s = Ok x t \<Longrightarrow> kfs.more t = kfs.more s"
  by (rule more_up(1), erule bio_frame)+

lemma log_write_frame:
  fixes s :: "'a kfs_scheme"
  shows "log_write b s = Ok x t \<Longrightarrow> kfs.more t = kfs.more s"
  by (auto simp: log_write_def acquire_def release_def upd_buf_def Let_def split: if_splits)

lemma commit_frame:
  fixes s :: "'a kfs_scheme"
  assumes "commit s = Ok x t" shows "kfs.more t = kfs.more s"
proof (cases "lh_n s > 0")
  case True
  obtain u v w where "write_log s = Ok () u" "write_head u = Ok () v" "install_trans v = Ok () w"
    "write_head (w\<lparr>lh_n := 0\<rparr>) = Ok x t"
    using assms True by (auto simp: commit_def kbind_eq_Ok)
  then have "kbio.more u = kbio.more s" "kbio.more v = kbio.more u" "kbio.more w = kbio.more v"
    "kbio.more t = kbio.more (w\<lparr>lh_n := 0\<rparr>)"
    by (auto simp: write_log_def install_trans_def dest: write_log_loop_frame install_loop_frame write_head_frame)
  then show ?thesis using more_up(1) [of t "w\<lparr>lh_n := 0\<rparr>"] more_up(1) [of w v] more_up(1) [of v u] more_up(1) [of u s] by simp
qed (use assms in \<open>simp add: commit_def\<close>)

lemma op_frame:
  fixes s :: "'a kfs_scheme"
  shows "begin_op s = Ok x t \<Longrightarrow> kfs.more t = kfs.more s" "end_op s = Ok x t \<Longrightarrow> kfs.more t = kfs.more s"
proof -
  show "begin_op s = Ok x t \<Longrightarrow> kfs.more t = kfs.more s"
    by (auto simp: begin_op_def begin_op_test_def kbind_eq_Ok dest!: fs_lock_frame split: if_splits)
  show "end_op s = Ok x t \<Longrightarrow> kfs.more t = kfs.more s"
    by (auto simp: end_op_def kbind_eq_Ok Let_def dest!: fs_lock_frame commit_frame split: if_splits)
qed

lemmas fs_frame_basic = fs_lock_frame inode_lock_frame fs_bio_frame log_write_frame

lemma bfree_frame: "bfree dev b s = Ok x t \<Longrightarrow> kfs.more t = kfs.more s"
  by (auto simp: bfree_def kbind_eq_Ok Let_def dest!: fs_frame_basic split: if_splits)

lemma iupdate_frame: "iupdate ip s = Ok x t \<Longrightarrow> kfs.more t = kfs.more s"
  by (auto simp: iupdate_def kbind_eq_Ok Let_def dest!: fs_frame_basic)

lemma free_entries_frame: "free_entries dev bp j k s = Ok x t \<Longrightarrow> kfs.more t = kfs.more s"
  by (induction dev bp j k s rule: free_entries.induct)
    (auto simp: kbind_eq_Ok Let_def dest!: bfree_frame split: if_splits)

lemma free_direct_frame: "free_direct ip i k s = Ok x t \<Longrightarrow> kfs.more t = kfs.more s"
  by (induction ip i k s rule: free_direct.induct)
    (auto simp: kbind_eq_Ok Let_def dest!: bfree_frame split: if_splits)

lemma free_level_frame:
  assumes "\<And>d a u x v. below d a u = Ok x v \<Longrightarrow> kfs.more v = kfs.more u"
  shows "free_level below dev tp bp i k s = Ok y t \<Longrightarrow> kfs.more t = kfs.more s"
proof (induction k arbitrary: bp i s)
  case (Suc k)
  show ?case
  proof (cases "unat (get_uint (data_of s bp) i) = 0")
    case True then show ?thesis using Suc by simp
  next
    case False
    then obtain s1 s2 s3 bp' s4 where s: "brelse bp s = Ok () s1" "below dev (unat (get_uint (data_of s bp) i)) s1 = Ok () s2"
      "bfree dev (unat (get_uint (data_of s bp) i)) s2 = Ok () s3" "bread dev tp s3 = Ok bp' s4"
      "free_level below dev tp bp' (i + 1) k s4 = Ok y t"
      using Suc.prems by (auto simp: kbind_eq_Ok Let_def)
    show ?thesis
      using Suc.IH [OF s(5)] fs_bio_frame(2) [OF s(1)] assms [OF s(2)] bfree_frame [OF s(3)] fs_bio_frame(1) [OF s(4)] by simp
  qed
qed simp

lemma free_single_frame: "free_single dev blk s = Ok x t \<Longrightarrow> kfs.more t = kfs.more s"
  by (auto simp: free_single_def kbind_eq_Ok dest!: fs_frame_basic free_entries_frame)

lemma free_walk_frame:
  assumes "kbind (bread dev blk s) (\<lambda>bp s. kbind (free_level below dev blk bp 0 n s) (\<lambda>bp s. brelse bp s)) = Ok x t"
    and "\<And>d a u x v. below d a u = Ok x v \<Longrightarrow> kfs.more v = kfs.more u"
  shows "kfs.more t = kfs.more s"
proof -
  obtain bp u bp' v where l: "bread dev blk s = Ok bp u" "free_level below dev blk bp 0 n u = Ok bp' v" "brelse bp' v = Ok x t"
    using assms(1) by (auto simp: kbind_eq_Ok)
  have "kfs.more v = kfs.more u" by (rule free_level_frame [OF _ l(2)]) (rule assms(2))
  then show ?thesis using fs_bio_frame(1) [OF l(1)] fs_bio_frame(2) [OF l(3)] by simp
qed

lemma free_double_frame: "free_double dev blk s = Ok x t \<Longrightarrow> kfs.more t = kfs.more s"
  by (rule free_walk_frame [of dev blk s free_single NINDIRECT x t]) (auto simp: free_double_def dest: free_single_frame)

lemma free_triple_frame: "free_triple dev blk s = Ok x t \<Longrightarrow> kfs.more t = kfs.more s"
  by (rule free_walk_frame [of dev blk s free_double NINDIRECT x t]) (auto simp: free_triple_def dest: free_double_frame)

lemma free_slot_frame:
  assumes "\<And>d a u x v. below d a u = Ok x v \<Longrightarrow> kfs.more v = kfs.more u"
  shows "free_slot below ip k s = Ok y t \<Longrightarrow> kfs.more t = kfs.more s"
  by (auto simp: free_slot_def kbind_eq_Ok Let_def dest!: assms bfree_frame split: if_splits)

lemma itrunc_frame:
  assumes "itrunc ip s = Ok x t" shows "kfs.more t = kfs.more s"
proof -
  obtain a b c d where "free_direct ip 0 NDIRECT s = Ok () a" and s: "free_slot free_single ip NDIRECT a = Ok () b"
    "free_slot free_double ip (NDIRECT + 1) b = Ok () c" "free_slot free_triple ip (NDIRECT + 2) c = Ok () d"
    and "iupdate ip (upd_inode ip (i_size_update (\<lambda>_. 0)) d) = Ok x t"
    using assms by (auto simp: itrunc_def kbind_eq_Ok)
  moreover have "kfs.more b = kfs.more a" by (rule free_slot_frame [OF _ s(1)]) (rule free_single_frame)
  moreover have "kfs.more c = kfs.more b" by (rule free_slot_frame [OF _ s(2)]) (rule free_double_frame)
  moreover have "kfs.more d = kfs.more c" by (rule free_slot_frame [OF _ s(3)]) (rule free_triple_frame)
  ultimately show ?thesis by (auto dest!: free_direct_frame iupdate_frame)
qed

lemma iput_drop_frame:
  fixes s :: "'a kfs_scheme"
  assumes "iput_drop ip s = Ok x t" shows "kfs.more t = kfs.more s"
proof (cases "i_valid (the_inode s ip) \<and> i_nlink (the_inode s ip) = 0")
  case True
  then obtain a b where ab: "acquire IcacheLock s = Ok () a" "release IcacheLock a = Ok () b"
    and r: "(if i_ref (the_inode a ip) = 1 then
        kbind (itrunc ip b) (\<lambda>_ s.
        kbind (iupdate ip (upd_inode ip (i_type_update (\<lambda>_. 0)) s)) (\<lambda>_ s.
          Ok () (upd_inode ip (i_valid_update (\<lambda>_. False)) s)))
      else Ok () b) = Ok x t"
    using assms by (auto simp: iput_drop_def kbind_eq_Ok Let_def)
  have "kfs.more t = kfs.more b"
    using r by (cases "i_ref (the_inode a ip) = 1") (auto simp: kbind_eq_Ok dest!: itrunc_frame iupdate_frame)
  then show ?thesis using fs_lock_frame(1) [OF ab(1)] fs_lock_frame(2) [OF ab(2)] by simp
next
  case False
  then show ?thesis using assms by (auto simp: iput_drop_def)
qed

lemma iput_frame:
  fixes s :: "'a kfs_scheme"
  shows "iput ip s = Ok x t \<Longrightarrow> kfs.more t = kfs.more s"
  by (auto simp: iput_def kbind_eq_Ok dest!: fs_lock_frame inode_lock_frame iput_drop_frame)

section \<open>Reference counts\<close>

lemma kfree_frame: "kfree v s = Ok x t \<Longrightarrow> kmem.more t = kmem.more s"
  by (auto simp: kfree_def kmem_acquire_def kmem_release_def kbind_eq_Ok Let_def acquire_def release_def split: if_splits)

lemma ftable_more:
  fixes s t :: "'a kfile_scheme"
  shows "kfs.more t = kfs.more s \<Longrightarrow> ftable t = ftable s" "kmem.more t = kmem.more s \<Longrightarrow> ftable t = ftable s"
  by (cases s; cases t; simp)+

lemma with_pipe_eq_Ok: "with_pipe p s f = Ok r t \<longleftrightarrow> (\<exists>x. pipes s p = Some x \<and> f x = Ok r t)"
  by (auto simp: with_pipe_def split: option.splits)

lemma pipeclose_frame:
  fixes s :: "'a kfile_scheme"
  assumes "pipeclose p w s = Ok x t" shows "ftable t = ftable s"
proof -
  have l: "acquire lk u = Ok y v \<Longrightarrow> ftable v = ftable u" "release lk u = Ok y v \<Longrightarrow> ftable v = ftable u"
    "wakeup c u = Ok y v \<Longrightarrow> ftable v = ftable u" for lk c y and u v :: "'a kfile_scheme"
    by (auto simp: acquire_def release_def wakeup_def wakeup1_def kbind_eq_Ok split: if_splits)
  have k: "kfree q u = Ok y v \<Longrightarrow> ftable v = ftable u" for q y and u v :: "'a kfile_scheme"
    by (rule ftable_more(2)) (rule kfree_frame)
  show ?thesis using assms
    by (auto simp: pipeclose_def with_pipe_eq_Ok set_pipe_def kbind_eq_Ok dest!: l k split: if_splits)
qed

text \<open>
  The holders of open files (descriptors, and calls in progress) take and drop references with
  \<open>filealloc\<close>, \<open>filedup\<close> and \<open>fileclose\<close>; \<open>hs\<close> lists a file once per reference. Whatever else the
  kernel does leaves the counts alone.
\<close>

inductive file_step :: "'a kfile_scheme \<times> nat list \<Rightarrow> 'a kfile_scheme \<times> nat list \<Rightarrow> bool" where
  f_alloc: "filealloc s = Ok (Some f) t \<Longrightarrow> file_step (s, hs) (t, f # hs)"
| f_dup: "filedup f s = Ok g t \<Longrightarrow> f \<in> set hs \<Longrightarrow> file_step (s, hs) (t, f # hs)"
| f_close: "fileclose f s = Ok () t \<Longrightarrow> f \<in> set hs \<Longrightarrow> file_step (s, hs) (t, remove1 f hs)"
| f_other: "map f_ref (ftable t) = map f_ref (ftable s) \<Longrightarrow> file_step (s, hs) (t, hs)"

definition file_start :: "'a kfile_scheme \<times> nat list \<Rightarrow> bool" where
  "file_start x \<longleftrightarrow> (case x of (s, hs) \<Rightarrow> hs = [] \<and> (\<forall>f \<in> set (ftable s). f_ref f = 0))"

definition ref_inv :: "'a kfile_scheme \<times> nat list \<Rightarrow> bool" where
  "ref_inv x \<longleftrightarrow> (case x of (s, hs) \<Rightarrow> set hs \<subseteq> {..< length (ftable s)}
     \<and> (\<forall>f < length (ftable s). f_ref (the_file s f) = int (count_list hs f)))"

interpretation files: slot_table file_free file_claim
  by unfold_locales (simp add: file_free_def file_claim_def)

lemma filealloc_cases:
  assumes "filealloc s = Ok r t"
  shows "r = None \<and> ftable t = ftable s \<and> (\<forall>f \<in> set (ftable s). f_ref f \<noteq> 0)
    \<or> (\<exists>f < length (ftable s). r = Some f \<and> f_ref (the_file s f) = 0
        \<and> ftable t = (ftable s)[f := (the_file s f)\<lparr>f_ref := 1\<rparr>])"
  using assms files.claim_first_None [of "ftable s"] files.claim_first_Some [of "ftable s"]
  by (auto simp: filealloc_def acquire_def release_def kbind_eq_Ok file_free_def file_claim_def
    split: if_splits option.split_asm)

lemma filedup_refs:
  assumes "filedup f s = Ok g t"
  shows "0 < f_ref (the_file s f)" "ftable t = (ftable s)[f := (the_file s f)\<lparr>f_ref := f_ref (the_file s f) + 1\<rparr>]"
  using assms by (auto simp: filedup_def upd_file_def acquire_def release_def split: if_splits)

lemma fileclose_rest_frame:
  fixes v :: "'a kfile_scheme"
  assumes "(case f_type ff of
      FD_PIPE \<Rightarrow> pipeclose (f_pipe ff) (f_writable ff) v
    | FD_INODE \<Rightarrow> kbind (begin_op v) (\<lambda>_ s. kbind (iput (f_ip ff) s) (\<lambda>_ s. end_op s))
    | FD_NONE \<Rightarrow> Ok () v) = Ok x t"
  shows "ftable t = ftable v"
proof (cases "f_type ff")
  case FD_INODE
  with assms obtain a b where o: "begin_op v = Ok () a" "iput (f_ip ff) a = Ok () b" "end_op b = Ok x t"
    by (auto simp: kbind_eq_Ok)
  show ?thesis
    using ftable_more(1) [OF op_frame(1) [OF o(1)]] ftable_more(1) [OF iput_frame [OF o(2)]] ftable_more(1) [OF op_frame(2) [OF o(3)]]
    by simp
qed (use assms pipeclose_frame in auto)

lemma fileclose_refs:
  assumes c: "fileclose f s = Ok x t" and f: "f < length (ftable s)"
  shows "0 < f_ref (the_file s f)" "map f_ref (ftable t) = (map f_ref (ftable s))[f := f_ref (the_file s f) - 1]"
proof -
  show pos: "0 < f_ref (the_file s f)"
    using c by (auto simp: fileclose_def acquire_def split: if_splits)
  have free: "FtableLock \<notin> set (held s)" using c by (auto simp: fileclose_def acquire_def split: if_splits)
  show "map f_ref (ftable t) = (map f_ref (ftable s))[f := f_ref (the_file s f) - 1]"
  proof (cases "1 < f_ref (the_file s f)")
    case True
    then show ?thesis
      using c free f by (simp add: fileclose_def acquire_def release_def upd_file_def Let_def) (auto simp: map_update)
  next
    case False
    let ?v = "s\<lparr>ftable := (ftable s)[f := (the_file s f)\<lparr>f_ref := 0, f_type := FD_NONE\<rparr>]\<rparr>"
    let ?ff = "(the_file s f)\<lparr>f_ref := f_ref (the_file s f) - 1\<rparr>"
    have "f_ref (the_file s f) = 1" using pos False by linarith
    have r: "(case f_type ?ff of
      FD_PIPE \<Rightarrow> pipeclose (f_pipe ?ff) (f_writable ?ff) ?v
    | FD_INODE \<Rightarrow> kbind (begin_op ?v) (\<lambda>_ s. kbind (iput (f_ip ?ff) s) (\<lambda>_ s. end_op s))
    | FD_NONE \<Rightarrow> Ok () ?v) = Ok x t"
      using c free f pos False by (simp add: fileclose_def acquire_def release_def upd_file_def Let_def)
    have "ftable t = ftable ?v" by (rule fileclose_rest_frame [OF r])
    then show ?thesis using \<open>f_ref (the_file s f) = 1\<close> by (simp add: map_update)
  qed
qed

lemma count_list_remove1: "count_list (remove1 x xs) y = (if x = y \<and> x \<in> set xs then count_list xs y - 1 else count_list xs y)"
  by (induction xs) (auto simp: count_list_0_iff)

lemma ref_inv_step:
  assumes "ref_inv x" and "file_step x y" shows "ref_inv y"
  using assms(2,1)
proof cases
  case (f_alloc s f t hs)
  then obtain "f < length (ftable s)" "f_ref (the_file s f) = 0" "ftable t = (ftable s)[f := (the_file s f)\<lparr>f_ref := 1\<rparr>]"
    using filealloc_cases [of s "Some f" t] by auto
  then show ?thesis using assms(1) f_alloc(1,2) by (auto simp: ref_inv_def nth_list_update)
next
  case (f_dup f s g t hs)
  then show ?thesis using assms(1) filedup_refs [OF f_dup(3)] by (auto simp: ref_inv_def nth_list_update)
next
  case (f_close f s t hs)
  then have f: "f < length (ftable s)" using assms(1) by (auto simp: ref_inv_def)
  note r = fileclose_refs [OF f_close(3) f]
  have len: "length (ftable t) = length (ftable s)" using arg_cong [OF r(2), of length] by simp
  have "f_ref (the_file t g) = (if g = f then f_ref (the_file s f) - 1 else f_ref (the_file s g))" if "g < length (ftable s)" for g
    using arg_cong [OF r(2), of "\<lambda>xs. xs ! g"] that len by (auto simp: nth_list_update)
  then show ?thesis using assms(1) f_close len r(1) f set_remove1_subset [of f hs]
    by (auto simp: ref_inv_def count_list_remove1)
next
  case (f_other t s hs)
  have len: "length (ftable t) = length (ftable s)" using arg_cong [OF f_other(3), of length] by simp
  have "f_ref (the_file t g) = f_ref (the_file s g)" if "g < length (ftable s)" for g
    using arg_cong [OF f_other(3), of "\<lambda>xs. xs ! g"] that len by simp
  then show ?thesis using assms(1) f_other(1,2) len by (auto simp: ref_inv_def)
qed

lemma ref_inv_start: "file_start x \<Longrightarrow> ref_inv x"
  by (auto simp: file_start_def ref_inv_def)

interpretation file_refs: invariant_machine file_start file_step ref_inv
  by unfold_locales (rule ref_inv_start ref_inv_step; assumption)+

text \<open>A table of two unused files.\<close>

definition zero_file :: sfile where
  "zero_file = \<lparr>f_type = FD_NONE, f_ref = 0, f_readable = False, f_writable = False, f_pipe = 0, f_ip = 0, f_off = 0\<rparr>"

definition file_demo :: kfile where
  "file_demo = klog.extend (log_zero log_disk0)
     \<lparr>sb = decode_sb zero_bytes, icache = [], pipes = (\<lambda>_. None), ftable = [zero_file, zero_file]\<rparr>"

lemma file_demo_fields: "held file_demo = []" "ftable file_demo = [zero_file, zero_file]"
  by (simp_all add: file_demo_def log_zero_def klog.defs kbase.defs boot_kbase_def)

section \<open>Properties\<close>

text \<open>
  C15: Whatever the holders of open files do with \<open>filealloc\<close>, \<open>filedup\<close> and \<open>fileclose\<close>, the
  reference count of a file is the number of references held: a file that somebody holds is not
  handed out again, and taking another reference to it succeeds.
\<close>

theorem file_reference_counts:
  assumes "reach file_start file_step (s, hs)" and "FtableLock \<notin> set (held s)"
  shows "(\<forall>f. f < length (ftable s) \<longrightarrow> f_ref (the_file s f) = int (count_list hs f))
    \<and> (\<forall>f t. filealloc s = Ok (Some f) t \<longrightarrow> f \<notin> set hs) \<and> (\<forall>f. f \<in> set hs \<longrightarrow> (\<exists>t. filedup f s = Ok f t))"
proof -
  have inv: "set hs \<subseteq> {..< length (ftable s)}" "\<And>f. f < length (ftable s) \<Longrightarrow> f_ref (the_file s f) = int (count_list hs f)"
    using file_refs.reach_inv [OF assms(1)] by (auto simp: ref_inv_def)
  have "f \<notin> set hs" if "filealloc s = Ok (Some f) t" for f t
    using filealloc_cases [OF that] inv(2) by (auto simp: count_list_0_iff)
  moreover have "\<exists>t. filedup f s = Ok f t" if "f \<in> set hs" for f
  proof -
    have "0 < count_list hs f" using that count_list_0_iff [of hs f] by simp
    then have "1 \<le> f_ref (the_file s f)" using inv that by (auto simp: subset_iff)
    then show ?thesis using assms(2) by (simp add: filedup_def acquire_def release_def upd_file_def)
  qed
  ultimately show ?thesis using inv(2) by blast
qed

theorem file_reference_counts_witness:
  "\<exists>t. filealloc file_demo = Ok (Some 0) t \<and> f_ref (the_file t 0) = 1 \<and> (\<exists>u. filedup 0 t = Ok 0 u)"
proof -
  let ?t = "file_demo\<lparr>ftable := [zero_file\<lparr>f_ref := 1\<rparr>, zero_file]\<rparr>"
  have a: "filealloc file_demo = Ok (Some 0) ?t"
    by (simp add: filealloc_def claim_first_def acquire_def release_def file_demo_fields file_free_def file_claim_def zero_file_def)
  have "reach file_start file_step (file_demo, [])"
    by (rule reach_init) (simp add: file_start_def file_demo_fields zero_file_def)
  then have r: "reach file_start file_step (?t, [0])" by (rule reach_step) (rule f_alloc [OF a])
  have "FtableLock \<notin> set (held ?t)" by (simp add: file_demo_fields)
  from file_reference_counts [OF r this] have "\<exists>u. filedup 0 ?t = Ok 0 u" by simp
  with a show ?thesis by auto
qed

end
