(* ===== verification/Fs_Inode.thy ===== *)
theory Fs_Inode
  imports Fs_Data
begin

text \<open>
  On-disk inodes: the encoding in a block, and \<open>iupdate\<close> and \<open>ilock\<close> as writing it and reading it back.
\<close>

section \<open>The encoding\<close>

lemma short_bytes_join:
  "ucast (ucast v :: byte) OR push_bit 8 (ucast (ucast (drop_bit 8 v) :: byte)) = (v :: 16 word)"
proof (rule bit_word_eqI)
  fix n
  assume "n < LENGTH(16)"
  then consider "n < 8" | "8 \<le> n" "n < 16" by fastforce
  then show "bit (ucast (ucast v :: byte) OR push_bit 8 (ucast (ucast (drop_bit 8 v) :: byte)) :: 16 word) n = bit v n"
    by cases (simp_all add: bit_simps less_diff_conv2)
qed

abbreviation in_short :: "int \<Rightarrow> bool" where
  "in_short v \<equiv> - (2 ^ 15) \<le> v \<and> v < 2 ^ 15"

lemma get_put_short: "in_short v \<Longrightarrow> get_short (put_short d i v) i = v"
  by (simp add: get_short_def put_short_def short_bytes_join signed_of_int signed_take_bit_int_eq_self)

lemma double_neq: "a < 2 \<Longrightarrow> b < 2 \<Longrightarrow> i \<noteq> j \<Longrightarrow> 2 * i + a \<noteq> 2 * j + (b::nat)"
  by arith

lemma get_short_cong: "d (2 * i) = e (2 * i) \<Longrightarrow> d (2 * i + 1) = e (2 * i + 1) \<Longrightarrow> get_short d i = get_short e i"
  by (simp add: get_short_def)

lemma get_uint_cong:
  assumes "\<And>a. a < 4 \<Longrightarrow> d (4 * j + a) = e (4 * j + a)" shows "get_uint d j = get_uint e j"
  using assms [of 0] assms [of 1] assms [of 2] assms [of 3] by (simp add: get_uint_def)

lemma put_short_frame: "k div 2 \<noteq> i \<Longrightarrow> put_short d i v k = d k"
  by (auto simp: put_short_def)

lemma get_put_short_other: "i \<noteq> j \<Longrightarrow> get_short (put_short d i v) j = get_short d j"
  by (rule get_short_cong) (simp_all add: put_short_frame)

lemma get_uint_put_short: "i div 2 \<noteq> j \<Longrightarrow> get_uint (put_short d i v) j = get_uint d j"
  by (rule get_uint_cong) (rule put_short_frame, auto)

lemma get_short_put_uint: "i div 2 \<noteq> j \<Longrightarrow> get_short (put_uint d j v) i = get_short d i"
  by (rule get_short_cong) (rule put_uint_frame, auto)+

lemma get_put_words:
  "get_uint (put_words w xs d) j = (if w \<le> j \<and> j < w + length xs then of_nat (xs ! (j - w)) else get_uint d j)"
proof (induction xs arbitrary: w d)
  case (Cons x xs)
  show ?case
  proof (cases "j = w")
    case False
    have "xs ! (j - Suc w) = (x # xs) ! (j - w)" if "w < j" using that by (simp add: nth_Cons' Suc_diff_Suc)
    then show ?thesis using False Cons [of "w + 1"] by auto
  next
    case True
    then show ?thesis using Cons [of "w + 1" "put_uint d w (of_nat x)"] by simp
  qed
qed auto

lemma get_short_put_words: "i div 2 < w \<or> w + length xs \<le> i div 2 \<Longrightarrow> get_short (put_words w xs d) i = get_short d i"
  by (induction xs arbitrary: w d) (auto simp: get_short_put_uint)

text \<open>An inode whose fields have the values their types allow.\<close>

definition dinode_ok :: "dinode \<Rightarrow> bool" where
  "dinode_ok x \<longleftrightarrow> in_short (d_type x) \<and> in_short (d_major x) \<and> in_short (d_minor x) \<and> in_short (d_nlink x) \<and>
     d_size x < 2 ^ 32 \<and> length (d_addrs x) = NDIRECT + 3 \<and> (\<forall>a\<in>set (d_addrs x). a < 2 ^ 32)"

lemmas get_put_simps = get_put_short get_put_short_other get_uint_put_short get_short_put_uint get_put_words get_short_put_words

lemma get_put_dinode:
  assumes "dinode_ok x" shows "get_dinode (put_dinode d k x) k = x"
proof -
  note ok = assms [unfolded dinode_ok_def]
  have a: "map (\<lambda>j. unat (get_uint (put_dinode d k x) (16 * k + 3 + j))) [0 ..< NDIRECT + 3] = d_addrs x"
    by (rule nth_equalityI) (use ok in \<open>auto simp: put_dinode_def Let_def get_put_simps unat_of_nat\<close>)
  have v: "(32 * k + c) div 2 \<noteq> 16 * k + 2" "(32 * k + c) div 2 < 16 * k + 3" if "c < 4" for c using that by auto
  have p: "get_short (put_dinode d k x) (32 * k + c) =
      get_short (put_short (put_short (put_short (put_short d (32 * k) (d_type x)) (32 * k + 1) (d_major x))
        (32 * k + 2) (d_minor x)) (32 * k + 3) (d_nlink x)) (32 * k + c)" if "c < 4" for c
    unfolding put_dinode_def Let_def get_short_put_words [OF disjI1 [OF v(2) [OF that]]] get_short_put_uint [OF v(1) [OF that]]
    by (rule refl)
  have "get_short (put_dinode d k x) (32 * k) = d_type x" "get_short (put_dinode d k x) (32 * k + 1) = d_major x"
    "get_short (put_dinode d k x) (32 * k + 2) = d_minor x" "get_short (put_dinode d k x) (32 * k + 3) = d_nlink x"
    using p [of 0] p [of 1] p [of 2] p [of 3] ok by (simp_all add: get_put_short get_put_short_other)
  moreover have "unat (get_uint (put_dinode d k x) (16 * k + 2)) = d_size x"
    using ok by (simp add: put_dinode_def Let_def get_put_words unat_of_nat)
  ultimately show ?thesis using a by (simp add: get_dinode_def)
qed

lemma get_put_dinode_other:
  assumes "length (d_addrs x) = NDIRECT + 3" "k \<noteq> l"
  shows "get_dinode (put_dinode d k x) l = get_dinode d l"
proof -
  have sh: "get_short (put_dinode d k x) (32 * l + a) = get_short d (32 * l + a)" if "a < 4" for a
  proof -
    have i: "32 * l + a \<noteq> 32 * k + b" if "b < 4" for b using assms(2) \<open>a < 4\<close> that by arith
    have j: "(32 * l + a) div 2 = 16 * l + a div 2" by simp
    have w: "16 * l + a div 2 \<noteq> 16 * k + 2" "16 * l + a div 2 < 16 * k + 3 \<or> 16 * k + 3 + (NDIRECT + 3) \<le> 16 * l + a div 2"
      unfolding NDIRECT_def using assms(2) \<open>a < 4\<close> by arith+
    show ?thesis unfolding put_dinode_def Let_def
      using i [of 0] i [of 1] i [of 2] i [of 3] w assms(1) j
      by (simp add: get_short_put_words get_short_put_uint get_put_short_other)
  qed
  have ui: "get_uint (put_dinode d k x) (16 * l + b) = get_uint d (16 * l + b)" if "b < 16" for b
  proof -
    have n: "16 * l + b \<noteq> 16 * k + c" if "c < 16" for c using assms(2) \<open>b < 16\<close> that by arith
    have w: "\<not> (16 * k + 3 \<le> 16 * l + b \<and> 16 * l + b < 16 * k + 3 + (NDIRECT + 3))"
      unfolding NDIRECT_def using assms(2) that by arith
    have h: "(32 * k + c) div 2 \<noteq> 16 * l + b" if "c < 4" for c
    proof -
      have "c div 2 < 16" using that by simp
      moreover have "(32 * k + c) div 2 = 16 * k + c div 2" by simp
      ultimately show ?thesis using n [of "c div 2"] by metis
    qed
    show ?thesis unfolding put_dinode_def Let_def
      using n [of 2] w h [of 0] h [of 1] h [of 2] h [of 3] assms(1)
      by (auto simp: get_put_words get_uint_put_short)
  qed
  have "get_uint (put_dinode d k x) (16 * l + 3 + j) = get_uint d (16 * l + 3 + j)" if "j < NDIRECT + 3" for j
    using ui [of "3 + j"] that by (simp add: NDIRECT_def add.assoc)
  then show ?thesis using sh [of 0] sh [of 1] sh [of 2] sh [of 3] ui [of 2] by (simp add: get_dinode_def)
qed

section \<open>Writing an inode back and reading it\<close>

definition dinode_of :: "inode \<Rightarrow> dinode" where
  "dinode_of x =
     \<lparr>d_type = i_type x, d_major = i_major x, d_minor = i_minor x, d_nlink = i_nlink x, d_size = i_size x, d_addrs = i_addrs x\<rparr>"

text \<open>The on-disk inode \<open>inum\<close> as a reader of the disk sees it.\<close>

definition disk_inode :: "'a kfs_scheme \<Rightarrow> nat \<Rightarrow> dinode" where
  "disk_inode s inum = get_dinode (view s (IBLOCK inum (sb s))) (inum mod IPB)"

lemma IBLOCK_same: "IBLOCK i b = IBLOCK j b \<Longrightarrow> i mod IPB = j mod IPB \<Longrightarrow> i = j"
  unfolding IBLOCK_def by (metis add_right_cancel div_mult_mod_eq)

lemma iupdate_writes:
  fixes s :: "'a kfs_scheme"
  assumes ok: "fs_ok s" and dev: "i_dev (the_inode s ip) = 1"
    and x: "IBLOCK (i_inum (the_inode s ip)) (sb s) < disksize s" and k: "budget s (Suc k)" and d: "dinode_ok (dinode_of (the_inode s ip))"
  shows "\<exists>t. iupdate ip s = Ok () t \<and> fs_ok t \<and> budget t k \<and> fs_same s t \<and>
    disk_inode t (i_inum (the_inode s ip)) = dinode_of (the_inode s ip) \<and>
    (\<forall>j. j \<noteq> i_inum (the_inode s ip) \<longrightarrow> disk_inode t j = disk_inode s j) \<and>
    (\<forall>b. b \<noteq> IBLOCK (i_inum (the_inode s ip)) (sb s) \<longrightarrow> view t b = view s b)"
proof -
  let ?i = "the_inode s ip"
  let ?x = "IBLOCK (i_inum ?i) (sb s)"
  let ?d = "put_dinode (view s ?x) (i_inum ?i mod IPB) (dinode_of ?i)"
  obtain b t u v where b: "bread 1 ?x s = Ok b t" "icache t = icache s" "b_data (the_buf t b) = view s ?x"
    "log_write b (set_data b ?d t) = Ok () u" "brelse b u = Ok () v" "fs_ok v" "budget v k" "fs_same s v" "view v = (view s)(?x := ?d)"
    by (rule write_block [OF ok x k])
  have r: "iupdate ip s = Ok () v"
    using b(1-5) dev by (simp add: iupdate_def Let_def dinode_of_def)
  have sb: "sb v = sb s" using b(8) by (simp add: fs_same_def)
  have "disk_inode v (i_inum ?i) = dinode_of ?i" by (simp add: disk_inode_def sb b(9) get_put_dinode [OF d])
  moreover have "disk_inode v j = disk_inode s j" if "j \<noteq> i_inum ?i" for j
    using IBLOCK_same [of j "sb s" "i_inum ?i"] that d
    by (auto simp: disk_inode_def sb b(9) dinode_ok_def intro!: get_put_dinode_other)
  ultimately show ?thesis using r b(6-9) by auto
qed

lemma upd_inode_bio [simp]:
  "cache_ok (upd_inode ip f s) B = cache_ok s B" "dirty_blocks (upd_inode ip f s) = dirty_blocks s" "view (upd_inode ip f s) = view s"
  "fs_env (upd_inode ip f s) = fs_env s" "disksize (upd_inode ip f s) = disksize s" "sb (upd_inode ip f s) = sb s"
  "memdisk (upd_inode ip f s) = memdisk s" "bcache (upd_inode ip f s) = bcache s"
  by (simp_all add: upd_inode_def cache_ok_def buf_ok_def caches_def dirty_blocks_def view_def fs_env_def cur_pid_def fun_eq_iff
    split: option.split)

lemma upd_inode_ok [simp]: "fs_ok (upd_inode ip f s) = fs_ok s"
  by (simp add: fs_ok_def)

lemma upd_inode_sel [simp]:
  "icache (upd_inode ip f s) = (icache s)[ip := f (icache s ! ip)]" "held (upd_inode ip f s) = held s" "curproc (upd_inode ip f s) = curproc s"
  by (simp_all add: upd_inode_def)

lemma upd_inode_held: "upd_inode ip f (s\<lparr>held := h\<rparr>) = (upd_inode ip f s)\<lparr>held := h\<rparr>"
  by (simp add: upd_inode_def)

lemma upd_inode_caches [simp]: "caches (upd_inode ip f s) b x = caches s b x"
  by (simp add: caches_def)

lemma acquire_inode_lock:
  fixes s :: "'a kfs_scheme"
  assumes "held s = []" and "curproc s = Some p" and "\<not> sl_locked (inode_lock ip s)"
  shows "acquiresleep (ChInodeLock ip) (inode_lock ip) (set_inode_lock ip) s
    = Ok () (set_inode_lock ip \<lparr>sl_locked = True, sl_pid = cur_pid s\<rparr> s)"
  using assms
  by (simp add: acquiresleep_def acquiresleep_test_def acquire_Ok release_Ok upd_inode_held cur_pid_def held_nil)

text \<open>\<open>ilock\<close> of a cache entry that holds no copy yet reads the inode from the disk.\<close>

lemma ilock_reads:
  fixes s :: "'a kfs_scheme"
  assumes ok: "fs_ok s" and ip: "ip < length (icache s)" and y: "1 \<le> i_ref (the_inode s ip)" "\<not> sl_locked (inode_lock ip s)"
    "\<not> i_valid (the_inode s ip)" "i_dev (the_inode s ip) = 1"
    and x: "IBLOCK (i_inum (the_inode s ip)) (sb s) < disksize s" and ty: "d_type (disk_inode s (i_inum (the_inode s ip))) \<noteq> 0"
  shows "\<exists>t. ilock ip s = Ok () t \<and> fs_ok t \<and> view t = view s \<and>
    dinode_of (the_inode t ip) = disk_inode s (i_inum (the_inode s ip)) \<and> i_valid (the_inode t ip) \<and>
    inode_lock ip t = \<lparr>sl_locked = True, sl_pid = cur_pid s\<rparr>"
proof -
  let ?x = "IBLOCK (i_inum (the_inode s ip)) (sb s)"
  let ?di = "disk_inode s (i_inum (the_inode s ip))"
  let ?l = "set_inode_lock ip \<lparr>sl_locked = True, sl_pid = cur_pid s\<rparr> s"
  obtain p where p: "held s = []" "curproc s = Some p" using ok by (auto simp: fs_ok_def fs_env_def)
  note lk = acquire_inode_lock [OF p y(2)]
  have c: "cache_ok ?l {}" "fs_env ?l" "?x < disksize ?l" "card (dirty_blocks ?l) < NBUF" using ok x by (simp_all add: fs_ok_def)
  obtain b t where b: "bread 1 ?x ?l = Ok b t" "fs_frame ?l t" "caches t b ?x" "b_data (the_buf t b) = view ?l ?x"
    "b_dirty (the_buf t b) \<longleftrightarrow> ?x \<in> dirty_blocks ?l" "cache_ok t {b}" "view t = view ?l" "dirty_blocks t = dirty_blocks ?l"
    "memdisk t = memdisk ?l" "dwrites t = dwrites ?l"
    by (rule read_one [OF c])
  note ft = frame_fs [OF b(2)]
  let ?f = "\<lambda>z. z\<lparr>i_type := d_type ?di, i_major := d_major ?di, i_minor := d_minor ?di, i_nlink := d_nlink ?di,
    i_size := d_size ?di, i_addrs := d_addrs ?di\<rparr>"
  let ?u = "upd_inode ip ?f t"
  have cl: "b_dirty (the_buf ?u b) \<or> b_data (the_buf ?u b) = memdisk ?u ?x"
    using b(4,5,9) view_clean [OF c(1), of ?x] by auto
  have u: "cache_ok ?u {b}" "fs_env ?u" "caches ?u b ?x" using b(3,6) fs_env_frame [OF b(2) c(2)] by simp_all
  obtain v where v: "brelse b ?u = Ok () v" "fs_frame ?u v" "cache_ok v {}" "view v = view ?u" "dirty_blocks v = dirty_blocks ?u"
    by (rule release_one [OF u cl])
  note fv = frame_fs [OF v(2)]
  let ?w = "upd_inode ip (i_valid_update (\<lambda>_. True)) v"
  have iv: "the_inode v ip = ?f (the_inode s ip\<lparr>i_lock := \<lparr>sl_locked = True, sl_pid = cur_pid s\<rparr>\<rparr>)" "ip < length (icache v)"
    using fv(1) ft(1) ip by simp_all
  have d: "get_dinode (b_data (the_buf t b)) (i_inum (the_inode t ip) mod IPB) = ?di"
    using b(4) ft(1) ip by (simp add: disk_inode_def)
  have "ilock ip s = Ok () ?w"
    using y lk b(1) v(1) iv ty ip d ft(1) by (simp add: ilock_def Let_def)
  moreover have "fs_ok ?w" "view ?w = view s"
    using v(3-5) b(7,8) c(4) fs_env_frame [OF v(2) u(2)] by (simp_all add: fs_ok_def)
  moreover have "dinode_of (the_inode ?w ip) = ?di" using iv by (simp add: dinode_of_def)
  ultimately show ?thesis using iv by (intro exI [of _ ?w]) simp
qed

text \<open>
  C18: \<open>iupdate\<close> and \<open>ilock\<close> are inverse. After the cached inode was written back, a fresh cache entry
  for the same number (as \<open>iget\<close> leaves it when the old one was recycled) gets by \<open>ilock\<close> the type,
  device numbers, link count, size and block addresses that were written; no other inode of the disk
  has changed.
\<close>

theorem inode_roundtrip:
  fixes s :: "'a kfs_scheme"
  assumes "fs_ok s" "i_dev (the_inode s ip) = 1" "IBLOCK (i_inum (the_inode s ip)) (sb s) < disksize s" "budget s 1"
    and "dinode_ok (dinode_of (the_inode s ip))" "i_type (the_inode s ip) \<noteq> 0"
    and "jp < length (icache s)" "i_dev y = 1" "i_inum y = i_inum (the_inode s ip)" "1 \<le> i_ref y" "\<not> sl_locked (i_lock y)" "\<not> i_valid y"
  shows "\<exists>t u. iupdate ip s = Ok () t \<and> ilock jp (upd_inode jp (\<lambda>_. y) t) = Ok () u \<and>
    dinode_of (the_inode u jp) = dinode_of (the_inode s ip) \<and> view u = view t \<and>
    (\<forall>j. j \<noteq> i_inum (the_inode s ip) \<longrightarrow> disk_inode t j = disk_inode s j)"
proof -
  obtain t where t: "iupdate ip s = Ok () t" "fs_ok t" "fs_same s t"
    "disk_inode t (i_inum (the_inode s ip)) = dinode_of (the_inode s ip)"
    "\<forall>j. j \<noteq> i_inum (the_inode s ip) \<longrightarrow> disk_inode t j = disk_inode s j"
    using iupdate_writes [OF assms(1-3) _ assms(5), of 0] assms(4) by auto
  let ?t = "upd_inode jp (\<lambda>_. y) t"
  have y: "the_inode ?t jp = y" "jp < length (icache ?t)" using assms(7) t(3) by (simp_all add: fs_same_def)
  have d: "disk_inode ?t j = disk_inode t j" for j by (simp add: disk_inode_def)
  have "\<exists>u. ilock jp ?t = Ok () u \<and> fs_ok u \<and> view u = view ?t \<and>
      dinode_of (the_inode u jp) = disk_inode ?t (i_inum (the_inode ?t jp)) \<and> i_valid (the_inode u jp) \<and>
      inode_lock jp u = \<lparr>sl_locked = True, sl_pid = cur_pid ?t\<rparr>"
    by (rule ilock_reads) (use t y d assms in \<open>simp_all add: fs_same_def dinode_of_def\<close>)
  then show ?thesis using t y d assms(9) by auto
qed

theorem inode_roundtrip_witness:
  "\<exists>t u. iupdate 0 demo_fs = Ok () t \<and> ilock 0 (upd_inode 0 (\<lambda>_. demo_inode\<lparr>i_valid := False, i_size := 3, i_addrs := []\<rparr>) t) = Ok () u \<and>
    i_size (the_inode u 0) = 700"
proof -
  have b: "budget demo_fs 1" using demo_fields demo_ok(2) by (simp add: budget_def LOGSIZE_def NBUF_def MAXOPBLOCKS_def)
  have x: "IBLOCK 7 (sb demo_fs) < disksize demo_fs"
    by (simp add: demo_fields IBLOCK_def IPB_def BSIZE_def decode_sb_def)
  have d: "dinode_ok (dinode_of demo_inode)" by (simp add: demo_inode_def dinode_of_def dinode_ok_def T_FILE_def NDIRECT_def)
  have "\<exists>t u. iupdate 0 demo_fs = Ok () t \<and> ilock 0 (upd_inode 0 (\<lambda>_. demo_inode\<lparr>i_valid := False, i_size := 3, i_addrs := []\<rparr>) t) = Ok () u \<and>
    dinode_of (the_inode u 0) = dinode_of (the_inode demo_fs 0) \<and> view u = view t \<and>
    (\<forall>j. j \<noteq> i_inum (the_inode demo_fs 0) \<longrightarrow> disk_inode t j = disk_inode demo_fs j)"
    by (rule inode_roundtrip) (use b x d demo_ok in \<open>simp_all add: demo_fields\<close>,
      simp_all add: demo_inode_def T_FILE_def initsleeplock_def)
  then show ?thesis by (auto simp: dinode_of_def demo_fields demo_inode_def)
qed

end
