(* ===== verification/Vm.thy ===== *)
theory Vm
  imports Kalloc
begin

text \<open>
  Page tables (\<open>vm.c\<close>): two-level x86 tables stored in physical memory, read and written
  word by word through the kernel's direct map. A page table pointer or a page table entry
  pointer is a kernel virtual address; \<open>0\<close> is null.
\<close>

section \<open>Entries and addresses\<close>

definition PTE_P :: u32 where [kconst]: "PTE_P = 0x001"
definition PTE_W :: u32 where [kconst]: "PTE_W = 0x002"
definition PTE_U :: u32 where [kconst]: "PTE_U = 0x004"
definition NPDENTRIES :: nat where [kconst]: "NPDENTRIES = 1024"
definition KERNLINK :: nat where [kconst]: "KERNLINK = KERNBASE + EXTMEM"

definition PTE_ADDR :: "u32 \<Rightarrow> nat" where
  "PTE_ADDR pte = unat (pte AND NOT 0xFFF)"

definition PTE_FLAGS :: "u32 \<Rightarrow> u32" where
  "PTE_FLAGS pte = pte AND 0xFFF"

definition PDX :: "nat \<Rightarrow> nat" where
  "PDX va = va div 2 ^ 22 mod 1024"

definition PTX :: "nat \<Rightarrow> nat" where
  "PTX va = va div 2 ^ 12 mod 1024"

definition PGADDR :: "nat \<Rightarrow> nat \<Rightarrow> nat \<Rightarrow> nat" where
  "PGADDR d t off = (push_bit 22 d OR push_bit 12 t OR off) mod 2 ^ 32"

text \<open>A word of memory at a kernel virtual address.\<close>

definition ld :: "'a kmem_scheme \<Rightarrow> nat \<Rightarrow> u32" where
  "ld s a = get_uint (mem s) (V2P a div 4)"

definition st :: "nat \<Rightarrow> u32 \<Rightarrow> 'a kmem_scheme \<Rightarrow> 'a kmem_scheme" where
  "st a w s = s\<lparr>mem := put_uint (mem s) (V2P a div 4) w\<rparr>"

definition zero_page :: "nat \<Rightarrow> 'a kmem_scheme \<Rightarrow> 'a kmem_scheme" where
  "zero_page v s = s\<lparr>mem := memset (mem s) (V2P v) 0 PGSIZE\<rparr>"

section \<open>Walking and mapping\<close>

definition walkpgdir :: "nat \<Rightarrow> nat \<Rightarrow> bool \<Rightarrow> 'a kmem_scheme \<Rightarrow> (nat, 'a kmem_scheme) kres" where
  "walkpgdir pgdir va alloc s =
     (let pde = pgdir + 4 * PDX va
      in if ld s pde AND PTE_P \<noteq> 0 then Ok (P2V (PTE_ADDR (ld s pde)) + 4 * PTX va) s
         else if \<not> alloc then Ok 0 s
         else kbind (kalloc s) (\<lambda>pgtab s.
           if pgtab = 0 then Ok 0 s
           else Ok (pgtab + 4 * PTX va)
             (st pde (of_nat (V2P pgtab) OR PTE_P OR PTE_W OR PTE_U) (zero_page pgtab s))))"

text \<open>
  The loop of \<open>mappages\<close> ends when \<open>a\<close> reaches \<open>last\<close>; both are page aligned, so it does
  within the \<open>2 ^ 20\<close> pages of the address space, which bounds the recursion.
\<close>

fun mappages_loop ::
    "nat \<Rightarrow> nat \<Rightarrow> nat \<Rightarrow> nat \<Rightarrow> nat \<Rightarrow> u32 \<Rightarrow> 'a kmem_scheme \<Rightarrow> (int, 'a kmem_scheme) kres" where
  "mappages_loop 0 pgdir a lst pa perm s = Fault Diverges"
| "mappages_loop (Suc n) pgdir a lst pa perm s =
     kbind (walkpgdir pgdir a True s) (\<lambda>pte s.
       if pte = 0 then Ok (-1) s
       else if ld s pte AND PTE_P \<noteq> 0 then panic ''remap''
       else
         let s = st pte (of_nat pa OR perm OR PTE_P) s
         in if a = lst then Ok 0 s
            else mappages_loop n pgdir (uadd a PGSIZE) lst (uadd pa PGSIZE) perm s)"

definition mappages ::
    "nat \<Rightarrow> nat \<Rightarrow> nat \<Rightarrow> nat \<Rightarrow> u32 \<Rightarrow> 'a kmem_scheme \<Rightarrow> (int, 'a kmem_scheme) kres" where
  "mappages pgdir va len pa perm s =
     mappages_loop (2 ^ 20) pgdir (PGROUNDDOWN va) (PGROUNDDOWN (usub (uadd va len) 1)) pa perm s"

section \<open>Shrinking and freeing\<close>

text \<open>
  \<open>deallocuvm\<close>: \<open>a\<close> moves up by at least a page each time; when \<open>oldsz\<close> lies in the last page
  of the address space it wraps around for ever.
\<close>

fun deallocuvm_loop :: "nat \<Rightarrow> nat \<Rightarrow> nat \<Rightarrow> nat \<Rightarrow> 'a kmem_scheme \<Rightarrow> (unit, 'a kmem_scheme) kres" where
  "deallocuvm_loop 0 pgdir a oldsz s = (if a < oldsz then Fault Diverges else Ok () s)"
| "deallocuvm_loop (Suc n) pgdir a oldsz s =
     (if a < oldsz then
        kbind (walkpgdir pgdir a False s) (\<lambda>pte s.
          if pte = 0 then
            deallocuvm_loop n pgdir (uadd (usub (PGADDR (PDX a + 1) 0 0) PGSIZE) PGSIZE) oldsz s
          else if ld s pte AND PTE_P \<noteq> 0 then
            if PTE_ADDR (ld s pte) = 0 then panic ''kfree''
            else kbind (kfree (P2V (PTE_ADDR (ld s pte))) s) (\<lambda>_ s.
              deallocuvm_loop n pgdir (uadd a PGSIZE) oldsz (st pte 0 s))
          else deallocuvm_loop n pgdir (uadd a PGSIZE) oldsz s)
      else Ok () s)"

definition deallocuvm :: "nat \<Rightarrow> nat \<Rightarrow> nat \<Rightarrow> 'a kmem_scheme \<Rightarrow> (nat, 'a kmem_scheme) kres" where
  "deallocuvm pgdir oldsz newsz s =
     (if newsz \<ge> oldsz then Ok oldsz s
      else kbind (deallocuvm_loop (2 ^ 20) pgdir (PGROUNDUP newsz) oldsz s) (\<lambda>_ s. Ok newsz s))"

fun free_tables :: "nat \<Rightarrow> nat \<Rightarrow> nat \<Rightarrow> 'a kmem_scheme \<Rightarrow> (unit, 'a kmem_scheme) kres" where
  "free_tables pgdir i 0 s = Ok () s"
| "free_tables pgdir i (Suc n) s =
     (let e = ld s (pgdir + 4 * i)
      in kbind (if e AND PTE_P \<noteq> 0 then kfree (P2V (PTE_ADDR e)) s else Ok () s)
           (\<lambda>_ s. free_tables pgdir (i + 1) n s))"

definition freevm :: "nat \<Rightarrow> 'a kmem_scheme \<Rightarrow> (unit, 'a kmem_scheme) kres" where
  "freevm pgdir s =
     (if pgdir = 0 then panic ''freevm: no pgdir''
      else kbind (deallocuvm pgdir KERNBASE 0 s) (\<lambda>_ s.
           kbind (free_tables pgdir 0 NPDENTRIES s) (\<lambda>_ s. kfree pgdir s)))"

section \<open>Kernel part of a page table\<close>

definition kmap :: "'a kmem_scheme \<Rightarrow> (nat \<times> nat \<times> nat \<times> u32) list" where
  "kmap s =
     [(KERNBASE, 0, EXTMEM, PTE_W),
      (KERNLINK, V2P KERNLINK, V2P (kdata s), 0),
      (kdata s, V2P (kdata s), PHYSTOP, PTE_W),
      (DEVSPACE, DEVSPACE, 0, PTE_W)]"

fun map_kernel ::
    "nat \<Rightarrow> (nat \<times> nat \<times> nat \<times> u32) list \<Rightarrow> 'a kmem_scheme \<Rightarrow> (nat, 'a kmem_scheme) kres" where
  "map_kernel pgdir [] s = Ok pgdir s"
| "map_kernel pgdir ((virt, phys_start, phys_end, perm) # ks) s =
     kbind (mappages pgdir virt (usub phys_end phys_start) phys_start perm s) (\<lambda>r s.
       if r < 0 then kbind (freevm pgdir s) (\<lambda>_ s. Ok 0 s)
       else map_kernel pgdir ks s)"

definition setupkvm :: "'a kmem_scheme \<Rightarrow> (nat, 'a kmem_scheme) kres" where
  "setupkvm s =
     kbind (kalloc s) (\<lambda>pgdir s.
       if pgdir = 0 then Ok 0 s
       else
         let s = zero_page pgdir s
         in if P2V PHYSTOP > DEVSPACE then panic ''PHYSTOP too high''
            else map_kernel pgdir (kmap s) s)"

definition kvmalloc :: "'a kmem_scheme \<Rightarrow> (unit, 'a kmem_scheme) kres" where
  "kvmalloc s =
     kbind (setupkvm s) (\<lambda>p s. let s = s\<lparr>kpgdir := p\<rparr> in Ok () (s\<lparr>cpu_cr3 := V2P (kpgdir s)\<rparr>))"

section \<open>User part\<close>

text \<open>\<open>inituvm\<close> does not test the result of \<open>kalloc\<close>.\<close>

definition inituvm :: "nat \<Rightarrow> byte list \<Rightarrow> 'a kmem_scheme \<Rightarrow> (unit, 'a kmem_scheme) kres" where
  "inituvm pgdir init s =
     (if length init \<ge> PGSIZE then panic ''inituvm: more than a page''
      else kbind (kalloc s) (\<lambda>m s.
        if m = 0 then Fault (Undefined ''inituvm writes through a null pointer'')
        else kbind (mappages pgdir 0 PGSIZE (V2P m) (PTE_W OR PTE_U) (zero_page m s)) (\<lambda>_ s.
          Ok () (s\<lparr>mem := blit (mem s) (V2P m) init\<rparr>))))"

function allocuvm_loop ::
    "nat \<Rightarrow> nat \<Rightarrow> nat \<Rightarrow> nat \<Rightarrow> 'a kmem_scheme \<Rightarrow> (nat, 'a kmem_scheme) kres" where
  "allocuvm_loop pgdir a oldsz newsz s =
     (if a < newsz then
        kbind (kalloc s) (\<lambda>m s.
          if m = 0 then kbind (deallocuvm pgdir newsz oldsz s) (\<lambda>_ s. Ok 0 s)
          else kbind (mappages pgdir a PGSIZE (V2P m) (PTE_W OR PTE_U) (zero_page m s)) (\<lambda>r s.
            if r < 0 then
              kbind (deallocuvm pgdir newsz oldsz s) (\<lambda>_ s.
              kbind (kfree m s) (\<lambda>_ s. Ok 0 s))
            else allocuvm_loop pgdir (a + PGSIZE) oldsz newsz s))
      else Ok newsz s)"
  by pat_completeness auto
termination
  by (relation "measure (\<lambda>(pgdir, a, oldsz, newsz, s). newsz - a)") (auto simp: PGSIZE_def)

declare allocuvm_loop.simps [simp del]

definition allocuvm :: "nat \<Rightarrow> nat \<Rightarrow> nat \<Rightarrow> 'a kmem_scheme \<Rightarrow> (nat, 'a kmem_scheme) kres" where
  "allocuvm pgdir oldsz newsz s =
     (if newsz \<ge> KERNBASE then Ok 0 s
      else if newsz < oldsz then Ok oldsz s
      else allocuvm_loop pgdir (PGROUNDUP oldsz) oldsz newsz s)"

definition clearpteu :: "nat \<Rightarrow> nat \<Rightarrow> 'a kmem_scheme \<Rightarrow> (unit, 'a kmem_scheme) kres" where
  "clearpteu pgdir uva s =
     kbind (walkpgdir pgdir uva False s) (\<lambda>pte s.
       if pte = 0 then panic ''clearpteu'' else Ok () (st pte (ld s pte AND NOT PTE_U) s))"

function copyuvm_loop ::
    "nat \<Rightarrow> nat \<Rightarrow> nat \<Rightarrow> nat \<Rightarrow> 'a kmem_scheme \<Rightarrow> (nat, 'a kmem_scheme) kres" where
  "copyuvm_loop pgdir d i sz s =
     (if i < sz then
        kbind (walkpgdir pgdir i False s) (\<lambda>pte s.
          if pte = 0 then panic ''copyuvm: pte should exist''
          else if ld s pte AND PTE_P = 0 then panic ''copyuvm: page not present''
          else
            let pa = PTE_ADDR (ld s pte); flags = PTE_FLAGS (ld s pte)
            in kbind (kalloc s) (\<lambda>m s.
                 if m = 0 then kbind (freevm d s) (\<lambda>_ s. Ok 0 s)
                 else
                   let s = s\<lparr>mem := memmove (mem s) (V2P m) pa PGSIZE\<rparr>
                   in kbind (mappages d i PGSIZE (V2P m) flags s) (\<lambda>r s.
                        if r < 0 then
                          kbind (kfree m s) (\<lambda>_ s. kbind (freevm d s) (\<lambda>_ s. Ok 0 s))
                        else copyuvm_loop pgdir d (i + PGSIZE) sz s)))
      else Ok d s)"
  by pat_completeness auto
termination
  by (relation "measure (\<lambda>(pgdir, d, i, sz, s). sz - i)") (auto simp: PGSIZE_def)

declare copyuvm_loop.simps [simp del]

definition copyuvm :: "nat \<Rightarrow> nat \<Rightarrow> 'a kmem_scheme \<Rightarrow> (nat, 'a kmem_scheme) kres" where
  "copyuvm pgdir sz s =
     kbind (setupkvm s) (\<lambda>d s. if d = 0 then Ok 0 s else copyuvm_loop pgdir d 0 sz s)"

text \<open>
  \<open>uva2ka\<close> dereferences the entry without testing the pointer: with no page table for the
  address it reads through a null pointer.
\<close>

definition uva2ka :: "nat \<Rightarrow> nat \<Rightarrow> 'a kmem_scheme \<Rightarrow> (nat, 'a kmem_scheme) kres" where
  "uva2ka pgdir uva s =
     kbind (walkpgdir pgdir uva False s) (\<lambda>pte s.
       if pte = 0 then Fault (Undefined ''uva2ka reads through a null pointer'')
       else if ld s pte AND PTE_P = 0 then Ok 0 s
       else if ld s pte AND PTE_U = 0 then Ok 0 s
       else Ok (P2V (PTE_ADDR (ld s pte))) s)"

text \<open>The bytes still to be copied are a list; each round takes what fits the page.\<close>

function copyout :: "nat \<Rightarrow> nat \<Rightarrow> byte list \<Rightarrow> 'a kmem_scheme \<Rightarrow> (int, 'a kmem_scheme) kres" where
  "copyout pgdir va buf s =
     (if buf = [] then Ok 0 s
      else
        let va0 = PGROUNDDOWN va
        in kbind (uva2ka pgdir va0 s) (\<lambda>pa0 s.
             if pa0 = 0 then Ok (-1) s
             else
               let n = min (PGSIZE - (va - va0)) (length buf)
               in copyout pgdir (uadd va0 PGSIZE) (drop n buf)
                    (s\<lparr>mem := blit (mem s) (V2P (pa0 + (va - va0))) (take n buf)\<rparr>)))"
  by pat_completeness auto
termination
proof (relation "measure (\<lambda>(pgdir, va, buf, s). length buf)", goal_cases)
  case (2 pgdir va buf s va0 pa0 s' n)
  have "va - va0 < PGSIZE"
    using 2(2) mod_less_divisor [of PGSIZE va] by (simp add: PGROUNDDOWN_def minus_div_mult_eq_mod PGSIZE_def)
  with 2 show ?case by auto
qed simp

declare copyout.simps [simp del]

section \<open>Words of page-table pages\<close>

lemma page_word:
  assumes "page_ok e v" and "i < 1024"
  shows "V2P (v + 4 * i) div 4 = V2P v div 4 + i"
proof -
  obtain k where k: "v = KERNBASE + 4096 * k" "k < 57344"
    using page_ok_index [OF assms(1)] by blast
  then have "V2P (v + 4 * i) = 4096 * k + 4 * i" "V2P v = 4096 * k"
    using assms(2) by (auto simp: V2P_def usub_id kconst)
  then show ?thesis by simp
qed

lemma page_word_inj:
  assumes "page_ok e v" and "page_ok e w" and "i < 1024" and "j < 1024"
  shows "V2P v div 4 + i = V2P w div 4 + j \<longleftrightarrow> v = w \<and> i = j"
proof -
  obtain k l where kl: "V2P v = 4096 * k" "v = KERNBASE + 4096 * k" "V2P w = 4096 * l" "w = KERNBASE + 4096 * l"
    using page_ok_index [OF assms(1)] page_ok_index [OF assms(2)] by blast
  have "1024 * k + i = 1024 * l + j \<longleftrightarrow> k = l \<and> i = j"
    using assms(3,4) by (cases k l rule: linorder_cases) auto
  then show ?thesis using kl by simp
qed

lemma st_sel [simp]:
  "kend (st a w s) = kend s" "freelist (st a w s) = freelist s" "use_lock (st a w s) = use_lock s"
  "held (st a w s) = held s" "kdata (st a w s) = kdata s"
  by (simp_all add: st_def)

lemma zero_page_sel [simp]:
  "kend (zero_page v s) = kend s" "freelist (zero_page v s) = freelist s"
  "use_lock (zero_page v s) = use_lock s" "held (zero_page v s) = held s" "kdata (zero_page v s) = kdata s"
  by (simp_all add: zero_page_def)

lemma ld_st:
  assumes "page_ok e v" and "page_ok e w" and "i < 1024" and "j < 1024"
  shows "ld (st (v + 4 * i) x s) (w + 4 * j) = (if v = w \<and> i = j then x else ld s (w + 4 * j))"
  using page_word_inj [OF assms] page_word [OF assms(1,3)] page_word [OF assms(2,4)]
  by (auto simp: ld_def st_def)

lemma page_word_bytes:
  assumes "page_ok e w" and "j < 1024" and "b < 4"
  shows "in_page w (4 * (V2P w div 4 + j) + b)"
proof -
  obtain k where "V2P w = 4096 * k" using page_ok_index [OF assms(1)] by blast
  with assms(2,3) show ?thesis by (auto simp: in_page_def PGSIZE_def)
qed

lemma ld_cong:
  assumes "page_ok e w" and "j < 1024" and "\<And>a. in_page w a \<Longrightarrow> mem t a = mem s a"
  shows "ld t (w + 4 * j) = ld s (w + 4 * j)"
  using assms(3) [OF page_word_bytes [OF assms(1,2), of 0]] assms(3) [OF page_word_bytes [OF assms(1,2), of 1]]
    assms(3) [OF page_word_bytes [OF assms(1,2), of 2]] assms(3) [OF page_word_bytes [OF assms(1,2), of 3]]
  by (simp add: ld_def page_word [OF assms(1,2)] get_uint_def)

lemma ld_zero_page:
  assumes "page_ok e v" and "page_ok e w" and "j < 1024"
  shows "ld (zero_page v s) (w + 4 * j) = (if v = w then 0 else ld s (w + 4 * j))"
proof (cases "v = w")
  case True
  have "mem (zero_page v s) a = 0" if "in_page w a" for a
    using that True by (auto simp: zero_page_def memset_blit blit_def in_page_def)
  from this [OF page_word_bytes [OF assms(2,3), of 0]] this [OF page_word_bytes [OF assms(2,3), of 1]]
    this [OF page_word_bytes [OF assms(2,3), of 2]] this [OF page_word_bytes [OF assms(2,3), of 3]]
  show ?thesis using True by (simp add: ld_def page_word [OF assms(2,3)] get_uint_def)
next
  case False
  have "ld (zero_page v s) (w + 4 * j) = ld s (w + 4 * j)"
    by (rule ld_cong [OF assms(2,3)])
      (use in_page_disjoint [OF assms(2,1)] False in \<open>auto simp: zero_page_def memset_page_frame\<close>)
  with False show ?thesis by simp
qed

section \<open>Entries\<close>

lemma PTE_ADDR_mk:
  assumes "k < 2 ^ 20" and "perm AND NOT 0xFFF = 0"
  shows "PTE_ADDR (of_nat (4096 * k) OR perm) = 4096 * k"
proof -
  have "(of_nat (4096 * k) :: u32) AND NOT 0xFFF = of_nat (4096 * k)"
  proof (rule bit_word_eqI)
    fix n assume n: "n < LENGTH(32)"
    have m: "(0xFFF :: u32) = mask 12" by (simp add: mask_eq_exp_minus_1)
    have p: "(of_nat (4096 * k) :: u32) = push_bit 12 (of_nat k)"
      by (simp add: push_bit_eq_mult)
    show "bit ((of_nat (4096 * k) :: u32) AND NOT 0xFFF) n = bit (of_nat (4096 * k) :: u32) n"
      using n unfolding m p by (auto simp: bit_simps)
  qed
  then have "(of_nat (4096 * k) OR perm) AND NOT 0xFFF = (of_nat (4096 * k) :: u32)"
    using assms(2) by (simp only: word_ao_dist) simp
  moreover have "unat (of_nat (4096 * k) :: u32) = 4096 * k"
    using assms(1) by (subst unat_of_nat) simp
  ultimately show ?thesis by (simp only: PTE_ADDR_def)
qed

lemma present_or: "(w OR PTE_P) AND PTE_P \<noteq> 0"
proof -
  have "bit ((w OR PTE_P) AND PTE_P) 0" by (simp add: PTE_P_def bit_simps)
  then show ?thesis by auto
qed

section \<open>Well-formed page tables\<close>

definition has_table :: "'a kmem_scheme \<Rightarrow> nat \<Rightarrow> nat \<Rightarrow> bool" where
  "has_table s pgdir i \<longleftrightarrow> ld s (pgdir + 4 * i) AND PTE_P \<noteq> 0"

definition table_at :: "'a kmem_scheme \<Rightarrow> nat \<Rightarrow> nat \<Rightarrow> nat" where
  "table_at s pgdir i = P2V (PTE_ADDR (ld s (pgdir + 4 * i)))"

text \<open>The entry that the hardware finds for a virtual address, \<open>0\<close> when there is no table.\<close>

definition lookup_pte :: "'a kmem_scheme \<Rightarrow> nat \<Rightarrow> nat \<Rightarrow> u32" where
  "lookup_pte s pgdir va =
     (if has_table s pgdir (PDX va) then ld s (table_at s pgdir (PDX va) + 4 * PTX va) else 0)"

definition same_page :: "nat \<Rightarrow> nat \<Rightarrow> bool" where
  "same_page va vb \<longleftrightarrow> PDX va = PDX vb \<and> PTX va = PTX vb"

text \<open>The directory and its tables are different pages, none of them free.\<close>

definition pt_wf :: "'a kmem_scheme \<Rightarrow> nat \<Rightarrow> nat list \<Rightarrow> bool" where
  "pt_wf s pgdir ps \<longleftrightarrow> page_ok (kend s) pgdir \<and> pgdir \<notin> set ps
     \<and> (\<forall>i < 1024. has_table s pgdir i \<longrightarrow>
          page_ok (kend s) (table_at s pgdir i) \<and> table_at s pgdir i \<notin> set ps
          \<and> table_at s pgdir i \<noteq> pgdir)
     \<and> (\<forall>i < 1024. \<forall>j < 1024. has_table s pgdir i \<and> has_table s pgdir j
          \<and> table_at s pgdir i = table_at s pgdir j \<longrightarrow> i = j)"

lemma PDX_lt [simp]: "PDX va < 1024" and PTX_lt [simp]: "PTX va < 1024"
  by (simp_all add: PDX_def PTX_def)

lemma st_frame:
  assumes "page_ok e v" and "i < 1024" and "\<not> in_page v a"
  shows "mem (st (v + 4 * i) x s) a = mem s a"
proof -
  have "a div 4 \<noteq> V2P v div 4 + i"
  proof
    assume "a div 4 = V2P v div 4 + i"
    then have "a = 4 * (V2P v div 4 + i) + a mod 4" using mult_div_mod_eq [of 4 a] by simp
    moreover have "in_page v (4 * (V2P v div 4 + i) + a mod 4)"
      by (rule page_word_bytes [OF assms(1,2)]) simp
    ultimately show False using assms(3) by simp
  qed
  then show ?thesis by (simp add: st_def page_word [OF assms(1,2)] put_uint_frame)
qed

lemma zero_page_frame: "\<not> in_page v a \<Longrightarrow> mem (zero_page v s) a = mem s a"
  by (simp add: zero_page_def memset_page_frame)

lemma pool_frame:
  assumes "pool s ps" and "\<And>p a. p \<in> set ps \<Longrightarrow> in_page p a \<Longrightarrow> mem t a = mem s a"
    and "freelist t = freelist s" and "kend t = kend s" and "held t = held s"
  shows "pool t ps"
  using pool_mem_cong [OF assms(1), of "mem t"] assms by (auto simp: pool_def)

lemma pool_st:
  assumes "pool s ps" and "page_ok (kend s) v" and "v \<notin> set ps" and "i < 1024"
  shows "pool (st (v + 4 * i) x s) ps"
proof (rule pool_frame [OF assms(1)])
  fix p a assume p: "p \<in> set ps" "in_page p a"
  then have "\<not> in_page v a"
    using in_page_disjoint [of "kend s" p v a] assms by (auto simp: pool_def)
  then show "mem (st (v + 4 * i) x s) a = mem s a" by (rule st_frame [OF assms(2,4)])
qed simp_all

lemma pool_zero_page:
  assumes "pool s ps" and "page_ok (kend s) v" and "v \<notin> set ps"
  shows "pool (zero_page v s) ps"
proof (rule pool_frame [OF assms(1)])
  fix p a assume p: "p \<in> set ps" "in_page p a"
  then have "\<not> in_page v a"
    using in_page_disjoint [of "kend s" p v a] assms by (auto simp: pool_def)
  then show "mem (zero_page v s) a = mem s a" by (rule zero_page_frame)
qed simp_all

lemma walk_hit:
  "has_table s pgdir (PDX va) \<Longrightarrow>
     walkpgdir pgdir va alloc s = Ok (table_at s pgdir (PDX va) + 4 * PTX va) s"
  by (simp add: walkpgdir_def has_table_def table_at_def Let_def)

lemma walk_miss: "\<not> has_table s pgdir (PDX va) \<Longrightarrow> walkpgdir pgdir va False s = Ok 0 s"
  by (simp add: walkpgdir_def has_table_def Let_def)

lemma walk_no_memory:
  "\<not> has_table s pgdir (PDX va) \<Longrightarrow> pool s [] \<Longrightarrow> walkpgdir pgdir va True s = Ok 0 s"
  by (simp add: walkpgdir_def has_table_def Let_def kalloc_empty)

definition new_table :: "nat \<Rightarrow> nat \<Rightarrow> nat \<Rightarrow> 'a kmem_scheme \<Rightarrow> 'a kmem_scheme" where
  "new_table pgdir va p s =
     st (pgdir + 4 * PDX va) (of_nat (V2P p) OR PTE_P OR PTE_W OR PTE_U)
       (zero_page p (s\<lparr>freelist := run_next (mem s) p\<rparr>))"

lemma walk_new:
  "\<not> has_table s pgdir (PDX va) \<Longrightarrow> pool s (p # ps) \<Longrightarrow>
     walkpgdir pgdir va True s = Ok (p + 4 * PTX va) (new_table pgdir va p s)"
  using kalloc_pool(1) [of s p ps] page_ok_nonzero
  by (auto simp: walkpgdir_def has_table_def Let_def new_table_def pool_def)

lemma new_entry:
  assumes "page_ok e p"
  shows "(of_nat (V2P p) OR PTE_P OR PTE_W OR PTE_U) AND PTE_P \<noteq> (0 :: u32)"
    and "P2V (PTE_ADDR (of_nat (V2P p) OR PTE_P OR PTE_W OR PTE_U)) = p"
proof -
  have "(of_nat (V2P p) OR PTE_P OR PTE_W OR PTE_U :: u32) = (of_nat (V2P p) OR PTE_W OR PTE_U) OR PTE_P"
    by (simp only: ac_simps)
  then show "(of_nat (V2P p) OR PTE_P OR PTE_W OR PTE_U) AND PTE_P \<noteq> (0 :: u32)"
    by (simp only: present_or not_False_eq_True)
  obtain k where k: "V2P p = 4096 * k" "p = KERNBASE + 4096 * k" "k < 57344"
    using page_ok_index [OF assms] by blast
  have "PTE_ADDR (of_nat (4096 * k) OR (PTE_P OR PTE_W OR PTE_U)) = 4096 * k"
    using k(3) by (intro PTE_ADDR_mk) (simp_all add: kconst)
  with k show "P2V (PTE_ADDR (of_nat (V2P p) OR PTE_P OR PTE_W OR PTE_U)) = p"
    by (simp only: ac_simps) (simp add: P2V_def uadd_id kconst)
qed

lemma ld_freelist [simp]: "ld (s\<lparr>freelist := x\<rparr>) a = ld s a"
  by (simp add: ld_def)

lemma new_table_facts:
  assumes wf: "pt_wf s pgdir (p # ps)" and pl: "pool s (p # ps)" and nt: "\<not> has_table s pgdir (PDX va)"
  shows "pool (new_table pgdir va p s) ps"
    and "i < 1024 \<Longrightarrow> has_table (new_table pgdir va p s) pgdir i \<longleftrightarrow> has_table s pgdir i \<or> i = PDX va"
    and "i < 1024 \<Longrightarrow> table_at (new_table pgdir va p s) pgdir i =
           (if i = PDX va then p else table_at s pgdir i)"
    and "j < 1024 \<Longrightarrow> page_ok (kend s) w \<Longrightarrow> w \<noteq> pgdir \<Longrightarrow>
           ld (new_table pgdir va p s) (w + 4 * j) = (if w = p then 0 else ld s (w + 4 * j))"
proof -
  let ?s0 = "s\<lparr>freelist := run_next (mem s) p\<rparr>"
  have p: "page_ok (kend s) p" "p \<notin> set ps" and d: "page_ok (kend s) pgdir" "pgdir \<noteq> p" "pgdir \<notin> set ps"
    using wf pl by (auto simp: pt_wf_def pool_def)
  have pool0: "pool (zero_page p ?s0) ps"
    using pool_zero_page [OF kalloc_pool(2) [OF pl], of p] p by simp
  show "pool (new_table pgdir va p s) ps"
    unfolding new_table_def using d by (intro pool_st [OF pool0]) simp_all
  note e = new_entry [OF p(1)]
  have ld: "ld (new_table pgdir va p s) (pgdir + 4 * i) =
      (if i = PDX va then of_nat (V2P p) OR PTE_P OR PTE_W OR PTE_U else ld s (pgdir + 4 * i))"
    if "i < 1024" for i
    using d(2) by (simp add: new_table_def ld_st [OF d(1) d(1) PDX_lt that] ld_zero_page [OF p(1) d(1) that])
  show "has_table (new_table pgdir va p s) pgdir i \<longleftrightarrow> has_table s pgdir i \<or> i = PDX va" if "i < 1024" for i
    using ld [OF that] e(1) nt by (auto simp: has_table_def)
  show "table_at (new_table pgdir va p s) pgdir i = (if i = PDX va then p else table_at s pgdir i)"
    if "i < 1024" for i
    using ld [OF that] e(2) by (simp add: table_at_def)
  show "ld (new_table pgdir va p s) (w + 4 * j) = (if w = p then 0 else ld s (w + 4 * j))"
    if "j < 1024" "page_ok (kend s) w" "w \<noteq> pgdir" for j w
    using that(3) by (simp add: new_table_def ld_st [OF d(1) that(2) PDX_lt that(1)] ld_zero_page [OF p(1) that(2,1)])
qed

lemma new_table_sel [simp]: "kend (new_table pgdir va p s) = kend s"
  by (simp add: new_table_def)

lemma new_table_wf:
  assumes wf: "pt_wf s pgdir (p # ps)" and pl: "pool s (p # ps)" and nt: "\<not> has_table s pgdir (PDX va)"
  shows "pt_wf (new_table pgdir va p s) pgdir ps"
    and "lookup_pte (new_table pgdir va p s) pgdir vb = lookup_pte s pgdir vb"
proof -
  note f = new_table_facts [OF wf pl nt]
  have p: "page_ok (kend s) p" "p \<notin> set ps" using pl by (auto simp: pool_def)
  have w: "page_ok (kend s) (table_at s pgdir i)" "table_at s pgdir i \<notin> set (p # ps)"
      "table_at s pgdir i \<noteq> pgdir"
    if "i < 1024" "has_table s pgdir i" for i
    using wf that by (auto simp: pt_wf_def)
  show "pt_wf (new_table pgdir va p s) pgdir ps"
    unfolding pt_wf_def using wf w p nt by (auto simp: f(2,3) pt_wf_def)
  show "lookup_pte (new_table pgdir va p s) pgdir vb = lookup_pte s pgdir vb"
    using w [OF PDX_lt, of vb] p wf nt
    by (auto simp: lookup_pte_def f(2,3) f(4) pt_wf_def)
qed

lemma walk_alloc:
  assumes "pt_wf s pgdir ps" and "pool s ps"
  obtains (found) t qs where
      "walkpgdir pgdir va True s = Ok (table_at t pgdir (PDX va) + 4 * PTX va) t"
      "has_table t pgdir (PDX va)" "pt_wf t pgdir qs" "pool t qs" "kend t = kend s"
      "\<And>vb. lookup_pte t pgdir vb = lookup_pte s pgdir vb" "set qs \<subseteq> set ps"
  | (out_of_memory) "walkpgdir pgdir va True s = Ok 0 s" "ps = []"
proof (cases "has_table s pgdir (PDX va)")
  case True
  show ?thesis by (rule found [OF walk_hit [OF True] True assms]) simp_all
next
  case False
  show ?thesis
  proof (cases ps)
    case Nil
    with assms(2) False show ?thesis by (intro out_of_memory walk_no_memory) simp_all
  next
    case (Cons p qs)
    note wf = assms(1) [unfolded Cons] and pl = assms(2) [unfolded Cons]
    have "table_at (new_table pgdir va p s) pgdir (PDX va) = p" "has_table (new_table pgdir va p s) pgdir (PDX va)"
      using new_table_facts(2,3) [OF wf pl False PDX_lt] by simp_all
    with walk_new [OF False pl] new_table_wf [OF wf pl False] new_table_facts(1) [OF wf pl False] Cons
    show ?thesis by (intro found [of "new_table pgdir va p s" qs]) auto
  qed
qed

lemma table_nonzero:
  assumes "pt_wf s pgdir ps" and "has_table s pgdir (PDX va)"
  shows "table_at s pgdir (PDX va) + 4 * PTX va \<noteq> 0"
proof -
  have "page_ok (kend s) (table_at s pgdir (PDX va))" using assms PDX_lt by (simp add: pt_wf_def)
  then show ?thesis using page_ok_nonzero by simp
qed

definition set_pte :: "nat \<Rightarrow> nat \<Rightarrow> u32 \<Rightarrow> 'a kmem_scheme \<Rightarrow> 'a kmem_scheme" where
  "set_pte pgdir va x s = st (table_at s pgdir (PDX va) + 4 * PTX va) x s"

lemma set_pte_facts:
  assumes wf: "pt_wf s pgdir ps" and pl: "pool s ps" and ht: "has_table s pgdir (PDX va)"
  shows "pool (set_pte pgdir va x s) ps" and "pt_wf (set_pte pgdir va x s) pgdir ps"
    and "kend (set_pte pgdir va x s) = kend s"
    and "lookup_pte (set_pte pgdir va x s) pgdir vb = (if same_page va vb then x else lookup_pte s pgdir vb)"
proof -
  let ?T = "table_at s pgdir (PDX va)"
  have d: "page_ok (kend s) pgdir" and t: "page_ok (kend s) ?T" "?T \<notin> set ps" "?T \<noteq> pgdir"
    using wf ht by (auto simp: pt_wf_def)
  show k: "kend (set_pte pgdir va x s) = kend s" by (simp add: set_pte_def)
  show "pool (set_pte pgdir va x s) ps"
    unfolding set_pte_def by (rule pool_st [OF pl t(1,2) PTX_lt])
  have dir: "ld (set_pte pgdir va x s) (pgdir + 4 * i) = ld s (pgdir + 4 * i)" if "i < 1024" for i
    using t(3) by (simp add: set_pte_def ld_st [OF t(1) d PTX_lt that])
  then have ht': "i < 1024 \<Longrightarrow> has_table (set_pte pgdir va x s) pgdir i = has_table s pgdir i"
    and ta': "i < 1024 \<Longrightarrow> table_at (set_pte pgdir va x s) pgdir i = table_at s pgdir i" for i
    by (simp_all add: has_table_def table_at_def)
  show "pt_wf (set_pte pgdir va x s) pgdir ps"
    using wf k by (simp add: pt_wf_def ht' ta')
  have "ld (set_pte pgdir va x s) (table_at s pgdir (PDX vb) + 4 * PTX vb) =
      (if ?T = table_at s pgdir (PDX vb) \<and> PTX va = PTX vb then x else ld s (table_at s pgdir (PDX vb) + 4 * PTX vb))"
    if "has_table s pgdir (PDX vb)"
    unfolding set_pte_def using wf that by (intro ld_st [OF t(1)]) (auto simp: pt_wf_def)
  moreover have "?T = table_at s pgdir (PDX vb) \<longleftrightarrow> PDX va = PDX vb" if "has_table s pgdir (PDX vb)"
    using wf that ht PDX_lt unfolding pt_wf_def by metis
  ultimately show "lookup_pte (set_pte pgdir va x s) pgdir vb = (if same_page va vb then x else lookup_pte s pgdir vb)"
    using ht by (auto simp: lookup_pte_def ht' ta' same_page_def)
qed

lemma same_page_iff:
  assumes "va < 2 ^ 32" and "vb < 2 ^ 32"
  shows "same_page va vb \<longleftrightarrow> va div PGSIZE = vb div PGSIZE"
proof -
  have split: "v div PGSIZE = 1024 * PDX v + PTX v" if "v < 2 ^ 32" for v
  proof -
    have "v div 2 ^ 22 = v div 2 ^ 12 div 1024" by (simp add: div_mult2_eq [symmetric])
    moreover have "v div 2 ^ 12 div 1024 < 1024" using that by (simp add: div_less_iff_less_mult)
    ultimately show ?thesis by (simp add: PDX_def PTX_def PGSIZE_def)
  qed
  show ?thesis
  proof
    assume "same_page va vb"
    then show "va div PGSIZE = vb div PGSIZE"
      using split [OF assms(1)] split [OF assms(2)] by (simp add: same_page_def)
  next
    assume "va div PGSIZE = vb div PGSIZE"
    then have "(1024 * PDX va + PTX va) div 1024 = (1024 * PDX vb + PTX vb) div 1024"
      "(1024 * PDX va + PTX va) mod 1024 = (1024 * PDX vb + PTX vb) mod 1024"
      using split [OF assms(1)] split [OF assms(2)] by simp_all
    then show "same_page va vb" by (simp add: same_page_def)
  qed
qed

lemma page_range:
  assumes "a mod PGSIZE = 0" and "a < 2 ^ 32" and "vb < 2 ^ 32"
  shows "same_page a vb \<longleftrightarrow> a \<le> vb \<and> vb < a + PGSIZE" and "same_page a vb \<Longrightarrow> PGROUNDDOWN vb = a"
proof -
  obtain m where m: "a = PGSIZE * m" using assms(1) by auto
  have "a div PGSIZE = vb div PGSIZE \<longleftrightarrow> a \<le> vb \<and> vb < a + PGSIZE"
    using m by (auto simp: PGSIZE_def)
  then show "same_page a vb \<longleftrightarrow> a \<le> vb \<and> vb < a + PGSIZE" using same_page_iff [OF assms(2,3)] by simp
  show "PGROUNDDOWN vb = a" if "same_page a vb"
    using that same_page_iff [OF assms(2,3)] m by (simp add: PGROUNDDOWN_def PGSIZE_def)
qed

lemma lookup_found: "has_table t pgdir (PDX a) \<Longrightarrow> ld t (table_at t pgdir (PDX a) + 4 * PTX a) = lookup_pte t pgdir a"
  by (simp add: lookup_pte_def)

lemma mappages_step:
  assumes "walkpgdir pgdir a True s = Ok (table_at t pgdir (PDX a) + 4 * PTX a) t"
    and "has_table t pgdir (PDX a)" and "pt_wf t pgdir qs" and "lookup_pte t pgdir a AND PTE_P = 0"
  shows "mappages_loop (Suc n) pgdir a lst pa perm s =
    (let u = set_pte pgdir a (of_nat pa OR perm OR PTE_P) t
     in if a = lst then Ok 0 u else mappages_loop n pgdir (uadd a PGSIZE) lst (uadd pa PGSIZE) perm u)"
  unfolding mappages_loop.simps assms(1) kbind.simps lookup_found [OF assms(2)] assms(4) set_pte_def Let_def
  by (simp only: table_nonzero [OF assms(3,2)] simp_thms if_False)

definition mapped_as :: "'a kmem_scheme \<Rightarrow> 'a kmem_scheme \<Rightarrow> nat \<Rightarrow> nat \<Rightarrow> nat \<Rightarrow> nat \<Rightarrow> u32 \<Rightarrow> bool" where
  "mapped_as t s pgdir a len pa perm \<longleftrightarrow> (\<forall>vb < 2 ^ 32. lookup_pte t pgdir vb =
     (if a \<le> vb \<and> vb < a + len then of_nat (pa + (PGROUNDDOWN vb - a)) OR perm OR PTE_P
      else lookup_pte s pgdir vb))"

lemma mapped_as_one:
  assumes "pt_wf t pgdir qs" and "pool t qs" and "has_table t pgdir (PDX a)"
    and "\<And>vb. lookup_pte t pgdir vb = lookup_pte s pgdir vb" and "a mod PGSIZE = 0" and "a < 2 ^ 32"
  shows "mapped_as (set_pte pgdir a (of_nat pa OR perm OR PTE_P) t) s pgdir a PGSIZE pa perm"
  unfolding mapped_as_def
  using set_pte_facts(4) [OF assms(1-3)] assms(4) page_range [OF assms(5,6)] by auto

lemma mapped_as_trans:
  assumes "mapped_as u s pgdir a PGSIZE pa perm" and "mapped_as t u pgdir (a + PGSIZE) len (pa + PGSIZE) perm"
    and "a mod PGSIZE = 0"
  shows "mapped_as t s pgdir a (len + PGSIZE) pa perm"
  unfolding mapped_as_def
proof (intro allI impI)
  fix vb :: nat assume vb: "vb < 2 ^ 32"
  have r: "a + PGSIZE \<le> PGROUNDDOWN vb" if "a + PGSIZE \<le> vb"
  proof -
    obtain m where m: "a = PGSIZE * m" using assms(3) by auto
    have "(m + 1) \<le> vb div PGSIZE"
      using that m by (simp add: PGSIZE_def less_eq_div_iff_mult_less_eq)
    then show ?thesis using m by (simp add: PGROUNDDOWN_def algebra_simps PGSIZE_def)
  qed
  have u: "lookup_pte u pgdir vb =
      (if a \<le> vb \<and> vb < a + PGSIZE then of_nat (pa + (PGROUNDDOWN vb - a)) OR perm OR PTE_P
       else lookup_pte s pgdir vb)"
    and t: "lookup_pte t pgdir vb =
      (if a + PGSIZE \<le> vb \<and> vb < a + PGSIZE + len
       then of_nat (pa + PGSIZE + (PGROUNDDOWN vb - (a + PGSIZE))) OR perm OR PTE_P
       else lookup_pte u pgdir vb)"
    using assms(1,2) vb unfolding mapped_as_def by blast+
  show "lookup_pte t pgdir vb =
      (if a \<le> vb \<and> vb < a + (len + PGSIZE) then of_nat (pa + (PGROUNDDOWN vb - a)) OR perm OR PTE_P
       else lookup_pte s pgdir vb)"
  proof (cases "a + PGSIZE \<le> vb")
    case True
    with r have "pa + PGSIZE + (PGROUNDDOWN vb - (a + PGSIZE)) = pa + (PGROUNDDOWN vb - a)" by simp
    from t [unfolded this] u True show ?thesis by (auto simp: algebra_simps)
  next
    case False
    with t u show ?thesis by (auto simp: not_le)
  qed
qed

lemma mappages_loop_maps:
  assumes "pt_wf s pgdir ps" and "pool s ps" and "a mod PGSIZE = 0" and "a + k * PGSIZE < 2 ^ 32"
    and "pa + k * PGSIZE < 2 ^ 32" and "k < n"
    and "\<forall>j \<le> k. lookup_pte s pgdir (a + j * PGSIZE) AND PTE_P = 0"
  shows "(\<exists>t qs. mappages_loop n pgdir a (a + k * PGSIZE) pa perm s = Ok 0 t \<and> pt_wf t pgdir qs
           \<and> pool t qs \<and> kend t = kend s \<and> mapped_as t s pgdir a (k * PGSIZE + PGSIZE) pa perm)
     \<or> (\<exists>t. mappages_loop n pgdir a (a + k * PGSIZE) pa perm s = Ok (-1) t \<and> pt_wf t pgdir []
           \<and> pool t [] \<and> kend t = kend s)"
  using assms
proof (induction k arbitrary: a pa s ps n)
  case 0
  then obtain n' where n: "n = Suc n'" by (cases n) auto
  show ?case using 0(1,2)
  proof (cases rule: walk_alloc [of s pgdir ps a])
    case (found t qs)
    have "lookup_pte t pgdir a AND PTE_P = 0" using found(6) 0(7) by simp
    from mappages_step [OF found(1-3) this, of n' a pa perm] set_pte_facts(1-3) [OF found(3,4,2)]
      mapped_as_one [OF found(3,4,2,6) 0(3)] 0(4) found(5) n
    show ?thesis by (simp add: Let_def) blast
  next
    case out_of_memory
    with 0 n show ?thesis by auto
  qed
next
  case (Suc k)
  then obtain n' where n: "n = Suc n'" "k < n'" by (cases n) auto
  show ?case using Suc(2,3)
  proof (cases rule: walk_alloc [of s pgdir ps a])
    case (found t qs)
    let ?u = "set_pte pgdir a (of_nat pa OR perm OR PTE_P) t"
    have l: "lookup_pte t pgdir a AND PTE_P = 0" using found(6) Suc(8) by auto
    have a: "a < 2 ^ 32" "uadd a PGSIZE = a + PGSIZE" "uadd pa PGSIZE = pa + PGSIZE"
        "a + PGSIZE + k * PGSIZE = a + Suc k * PGSIZE" "a \<noteq> a + Suc k * PGSIZE"
      using Suc(5,6) by (auto simp: uadd_id PGSIZE_def)
    have one: "mapped_as ?u s pgdir a PGSIZE pa perm"
      by (rule mapped_as_one [OF found(3,4,2,6) Suc(4) a(1)])
    have "\<forall>j \<le> k. lookup_pte ?u pgdir (a + PGSIZE + j * PGSIZE) AND PTE_P = 0"
    proof (intro allI impI)
      fix j assume j: "j \<le> k"
      then have "a + PGSIZE + j * PGSIZE < 2 ^ 32" using Suc(5) by (simp add: PGSIZE_def)
      with one have "lookup_pte ?u pgdir (a + PGSIZE + j * PGSIZE) = lookup_pte s pgdir (a + Suc j * PGSIZE)"
        by (simp add: mapped_as_def algebra_simps)
      with Suc(8) j show "lookup_pte ?u pgdir (a + PGSIZE + j * PGSIZE) AND PTE_P = 0" by auto
    qed
    then have ih: "(\<exists>t qs. mappages_loop n' pgdir (a + PGSIZE) (a + PGSIZE + k * PGSIZE) (pa + PGSIZE) perm ?u = Ok 0 t
          \<and> pt_wf t pgdir qs \<and> pool t qs \<and> kend t = kend ?u
          \<and> mapped_as t ?u pgdir (a + PGSIZE) (k * PGSIZE + PGSIZE) (pa + PGSIZE) perm)
       \<or> (\<exists>t. mappages_loop n' pgdir (a + PGSIZE) (a + PGSIZE + k * PGSIZE) (pa + PGSIZE) perm ?u = Ok (-1) t
          \<and> pt_wf t pgdir [] \<and> pool t [] \<and> kend t = kend ?u)"
      using set_pte_facts(1,2) [OF found(3,4,2)] Suc(4-7) n(2)
      by (intro Suc(1)) (auto simp: algebra_simps)
    have eq: "mappages_loop n pgdir a (a + Suc k * PGSIZE) pa perm s =
        mappages_loop n' pgdir (a + PGSIZE) (a + PGSIZE + k * PGSIZE) (pa + PGSIZE) perm ?u"
      unfolding n(1) mappages_step [OF found(1-3) l] Let_def a(2-4) using a(5) by (simp only: if_False)
    have len: "Suc k * PGSIZE + PGSIZE = k * PGSIZE + PGSIZE + PGSIZE" by simp
    show ?thesis
      using ih mapped_as_trans [OF one _ Suc(4)] set_pte_facts(3) [OF found(3,4,2)] found(5)
      unfolding eq len by metis
  next
    case out_of_memory
    with Suc(2,3) n(1) show ?thesis by auto
  qed
qed

section \<open>User memory\<close>

definition user_ok :: "'a kmem_scheme \<Rightarrow> nat \<Rightarrow> nat \<Rightarrow> bool" where
  "user_ok s pgdir va \<longleftrightarrow> lookup_pte s pgdir va AND PTE_P \<noteq> 0 \<and> lookup_pte s pgdir va AND PTE_U \<noteq> 0"

definition frame_of :: "'a kmem_scheme \<Rightarrow> nat \<Rightarrow> nat \<Rightarrow> nat" where
  "frame_of s pgdir va = P2V (PTE_ADDR (lookup_pte s pgdir va))"

text \<open>The byte a user access to \<open>va\<close> reads.\<close>

definition uread :: "'a kmem_scheme \<Rightarrow> nat \<Rightarrow> nat \<Rightarrow> byte" where
  "uread s pgdir va = mem s (V2P (frame_of s pgdir va) + va mod PGSIZE)"

text \<open>User pages are backed by different frames, none of which is a page-table page.\<close>

definition as_wf :: "'a kmem_scheme \<Rightarrow> nat \<Rightarrow> bool" where
  "as_wf s pgdir \<longleftrightarrow> (\<forall>va < 2 ^ 32. user_ok s pgdir va \<longrightarrow>
     page_ok (kend s) (frame_of s pgdir va) \<and> frame_of s pgdir va \<noteq> pgdir
     \<and> (\<forall>i < 1024. has_table s pgdir i \<longrightarrow> frame_of s pgdir va \<noteq> table_at s pgdir i)
     \<and> (\<forall>vb < 2 ^ 32. user_ok s pgdir vb \<and> frame_of s pgdir vb = frame_of s pgdir va
          \<longrightarrow> vb div PGSIZE = va div PGSIZE))"

lemma as_wf_frame:
  assumes "as_wf s pgdir" and "user_ok s pgdir va" and "va < 2 ^ 32"
  shows "page_ok (kend s) (frame_of s pgdir va)" and "frame_of s pgdir va \<noteq> pgdir"
    and "i < 1024 \<Longrightarrow> has_table s pgdir i \<Longrightarrow> frame_of s pgdir va \<noteq> table_at s pgdir i"
  using assms unfolding as_wf_def by blast+

lemma as_wf_inj:
  assumes "as_wf s pgdir" and "user_ok s pgdir va" and "va < 2 ^ 32"
    and "user_ok s pgdir vb" and "vb < 2 ^ 32" and "frame_of s pgdir va = frame_of s pgdir vb"
  shows "vb div PGSIZE = va div PGSIZE"
  using assms unfolding as_wf_def by metis

definition put_frame :: "nat \<Rightarrow> nat \<Rightarrow> byte list \<Rightarrow> 'a kmem_scheme \<Rightarrow> 'a kmem_scheme" where
  "put_frame f off bs s = s\<lparr>mem := blit (mem s) (V2P (f + off)) bs\<rparr>"

lemma put_frame_mem:
  assumes "page_ok e f" and "off + length bs \<le> PGSIZE" and "bs \<noteq> []"
  shows "mem (put_frame f off bs s) a =
    (if V2P f + off \<le> a \<and> a < V2P f + off + length bs then bs ! (a - (V2P f + off)) else mem s a)"
    and "\<not> in_page f a \<Longrightarrow> mem (put_frame f off bs s) a = mem s a"
proof -
  have "off < PGSIZE" using assms(2,3) by (cases bs) auto
  then have "V2P (f + off) = V2P f + off"
    using assms(1) by (auto simp: page_ok_def V2P_def usub_id kconst)
  then show "mem (put_frame f off bs s) a =
      (if V2P f + off \<le> a \<and> a < V2P f + off + length bs then bs ! (a - (V2P f + off)) else mem s a)"
    "\<not> in_page f a \<Longrightarrow> mem (put_frame f off bs s) a = mem s a"
    using assms(2) by (auto simp: put_frame_def blit_def in_page_def)
qed

lemma lookup_cong:
  assumes wf: "pt_wf s pgdir ps" and "\<And>v j. j < 1024 \<Longrightarrow> page_ok (kend s) v \<Longrightarrow>
      v = pgdir \<or> (\<exists>i < 1024. has_table s pgdir i \<and> v = table_at s pgdir i) \<Longrightarrow> ld t (v + 4 * j) = ld s (v + 4 * j)"
  shows "i < 1024 \<Longrightarrow> has_table t pgdir i = has_table s pgdir i"
    and "i < 1024 \<Longrightarrow> table_at t pgdir i = table_at s pgdir i"
    and "lookup_pte t pgdir va = lookup_pte s pgdir va"
proof -
  have d: "ld t (pgdir + 4 * i) = ld s (pgdir + 4 * i)" if "i < 1024" for i
    using assms(2) [OF that, of pgdir] wf by (simp add: pt_wf_def)
  show ht: "has_table t pgdir i = has_table s pgdir i" if "i < 1024" for i
    using d [OF that] by (simp add: has_table_def)
  show ta: "table_at t pgdir i = table_at s pgdir i" if "i < 1024" for i
    using d [OF that] by (simp add: table_at_def)
  have "ld t (table_at s pgdir (PDX va) + 4 * PTX va) = ld s (table_at s pgdir (PDX va) + 4 * PTX va)"
    if "has_table s pgdir (PDX va)"
  proof (rule assms(2) [OF PTX_lt])
    show "page_ok (kend s) (table_at s pgdir (PDX va))" using wf that PDX_lt by (simp add: pt_wf_def)
    show "table_at s pgdir (PDX va) = pgdir
        \<or> (\<exists>i < 1024. has_table s pgdir i \<and> table_at s pgdir (PDX va) = table_at s pgdir i)"
      using that PDX_lt by blast
  qed
  then show "lookup_pte t pgdir va = lookup_pte s pgdir va"
    by (simp add: lookup_pte_def ht ta)
qed

lemma put_frame_keeps:
  assumes wf: "pt_wf s pgdir ps" and aw: "as_wf s pgdir" and u: "user_ok s pgdir va" "va < 2 ^ 32"
    and len: "off + length bs \<le> PGSIZE" "bs \<noteq> []"
  defines "t \<equiv> put_frame (frame_of s pgdir va) off bs s"
  shows "lookup_pte t pgdir vb = lookup_pte s pgdir vb" and "pt_wf t pgdir ps" and "as_wf t pgdir"
    and "kend t = kend s"
proof -
  let ?f = "frame_of s pgdir va"
  have f: "page_ok (kend s) ?f" "?f \<noteq> pgdir" "\<And>i. i < 1024 \<Longrightarrow> has_table s pgdir i \<Longrightarrow> ?f \<noteq> table_at s pgdir i"
    using as_wf_frame [OF aw u] by blast+
  show k: "kend t = kend s" by (simp add: t_def put_frame_def)
  have ld: "ld t (v + 4 * j) = ld s (v + 4 * j)" if "j < 1024" "page_ok (kend s) v" "v \<noteq> ?f" for v j
    using put_frame_mem(2) [OF f(1) len] in_page_disjoint [OF that(2) f(1) that(3)]
    unfolding t_def by (intro ld_cong [OF that(2,1)]) blast
  have ldc: "ld t (v + 4 * j) = ld s (v + 4 * j)" if "j < 1024" "page_ok (kend s) v"
      "v = pgdir \<or> (\<exists>i < 1024. has_table s pgdir i \<and> v = table_at s pgdir i)" for v j
  proof (rule ld [OF that(1,2)])
    show "v \<noteq> ?f" using that(3) f(2) f(3) by blast
  qed
  have h: "has_table t pgdir i = has_table s pgdir i" "table_at t pgdir i = table_at s pgdir i" if "i < 1024" for i
    by (rule lookup_cong(1) [OF wf _ that]; rule ldc; assumption)
      (rule lookup_cong(2) [OF wf _ that]; rule ldc; assumption)
  show l: "lookup_pte t pgdir vb = lookup_pte s pgdir vb" for vb
    by (rule lookup_cong(3) [OF wf]; rule ldc; assumption)
  show "pt_wf t pgdir ps" using wf unfolding pt_wf_def k by (simp add: h cong: imp_cong)
  have uf: "user_ok t pgdir v = user_ok s pgdir v" "frame_of t pgdir v = frame_of s pgdir v" for v
    by (simp_all add: user_ok_def frame_of_def l)
  have "(\<forall>i < 1024. has_table t pgdir i \<longrightarrow> x \<noteq> table_at t pgdir i) \<longleftrightarrow>
      (\<forall>i < 1024. has_table s pgdir i \<longrightarrow> x \<noteq> table_at s pgdir i)" for x
    by (simp add: h cong: imp_cong)
  with aw show "as_wf t pgdir" unfolding as_wf_def k uf by (simp only:)
qed

lemma put_frame_read:
  assumes wf: "pt_wf s pgdir ps" and aw: "as_wf s pgdir" and va: "user_ok s pgdir va" "va < 2 ^ 32"
    and vb: "user_ok s pgdir vb" "vb < 2 ^ 32" and len: "va mod PGSIZE + length bs \<le> PGSIZE" "bs \<noteq> []"
  shows "uread (put_frame (frame_of s pgdir va) (va mod PGSIZE) bs s) pgdir vb =
    (if va \<le> vb \<and> vb < va + length bs then bs ! (vb - va) else uread s pgdir vb)"
proof -
  let ?f = "frame_of s pgdir va" and ?g = "frame_of s pgdir vb"
  let ?t = "put_frame ?f (va mod PGSIZE) bs s"
  have fg: "page_ok (kend s) ?f" "page_ok (kend s) ?g"
    using as_wf_frame(1) [OF aw va] as_wf_frame(1) [OF aw vb] by blast+
  have g: "frame_of ?t pgdir vb = ?g"
    using put_frame_keeps(1) [OF wf aw va len] by (simp add: frame_of_def)
  show ?thesis
  proof (cases "?f = ?g")
    case True
    then have page: "vb div PGSIZE = va div PGSIZE" using as_wf_inj [OF aw va vb] by blast
    have d: "vb = va div PGSIZE * PGSIZE + vb mod PGSIZE" "va = va div PGSIZE * PGSIZE + va mod PGSIZE"
      using div_mult_mod_eq [of vb PGSIZE] div_mult_mod_eq [of va PGSIZE] page by simp_all
    have "V2P ?f + va mod PGSIZE \<le> V2P ?f + vb mod PGSIZE \<longleftrightarrow> va \<le> vb"
      "V2P ?f + vb mod PGSIZE < V2P ?f + va mod PGSIZE + length bs \<longleftrightarrow> vb < va + length bs"
      "V2P ?f + vb mod PGSIZE - (V2P ?f + va mod PGSIZE) = vb - va"
      using d by linarith+
    then show ?thesis
      unfolding uread_def g True [symmetric] put_frame_mem(1) [OF fg(1) len] by (simp only:)
  next
    case False
    have "\<not> in_page ?f (V2P ?g + vb mod PGSIZE)"
      by (rule in_page_disjoint [OF fg(2,1)]) (use False in \<open>auto simp: in_page_def PGSIZE_def\<close>)
    moreover have "\<not> (va \<le> vb \<and> vb < va + length bs)"
    proof
      assume r: "va \<le> vb \<and> vb < va + length bs"
      then have "va div PGSIZE * PGSIZE \<le> vb" "vb < va div PGSIZE * PGSIZE + PGSIZE"
        using len(1) div_mult_mod_eq [of va PGSIZE] by linarith+
      then have "va div PGSIZE = vb div PGSIZE" by (simp add: PGSIZE_def)
      with same_page_iff [OF va(2) vb(2)] have "same_page va vb" by simp
      then have "lookup_pte s pgdir va = lookup_pte s pgdir vb" by (simp add: lookup_pte_def same_page_def)
      with False show False by (simp add: frame_of_def)
    qed
    ultimately show ?thesis using g by (auto simp: uread_def put_frame_mem(2) [OF fg(1) len])
  qed
qed

lemma uva2ka_ok:
  assumes "pt_wf s pgdir ps" and "user_ok s pgdir va"
  shows "uva2ka pgdir va s = Ok (frame_of s pgdir va) s"
proof -
  have h: "has_table s pgdir (PDX va)"
    using assms(2) by (auto simp: user_ok_def lookup_pte_def split: if_splits)
  with assms table_nonzero [OF assms(1) h] show ?thesis
    by (auto simp: uva2ka_def walk_hit lookup_found user_ok_def frame_of_def)
qed

lemma user_ok_page:
  assumes "user_ok s pgdir va" and "va < 2 ^ 32"
  shows "user_ok s pgdir (PGROUNDDOWN va)" and "frame_of s pgdir (PGROUNDDOWN va) = frame_of s pgdir va"
proof -
  have "PGROUNDDOWN va < 2 ^ 32" using assms(2) PGROUNDDOWN_le [of va] by linarith
  then have "same_page (PGROUNDDOWN va) va"
    using same_page_iff [OF _ assms(2)] by (simp add: PGROUNDDOWN_def PGSIZE_def)
  then have "lookup_pte s pgdir (PGROUNDDOWN va) = lookup_pte s pgdir va"
    by (simp add: lookup_pte_def same_page_def)
  with assms(1) show "user_ok s pgdir (PGROUNDDOWN va)" and "frame_of s pgdir (PGROUNDDOWN va) = frame_of s pgdir va"
    by (simp_all add: user_ok_def frame_of_def)
qed

lemma copyout_step:
  assumes wf: "pt_wf s pgdir ps" and aw: "as_wf s pgdir" and u: "user_ok s pgdir va" "va < 2 ^ 32"
    and b: "buf \<noteq> []"
  defines "n \<equiv> min (PGSIZE - va mod PGSIZE) (length buf)"
  shows "copyout pgdir va buf s =
    copyout pgdir (uadd (PGROUNDDOWN va) PGSIZE) (drop n buf)
      (put_frame (frame_of s pgdir va) (va mod PGSIZE) (take n buf) s)"
proof -
  have "va - PGROUNDDOWN va = va mod PGSIZE" by (simp add: PGROUNDDOWN_def minus_div_mult_eq_mod)
  moreover have "frame_of s pgdir va \<noteq> 0" using as_wf_frame(1) [OF aw u] page_ok_nonzero by blast
  moreover have "uva2ka pgdir (PGROUNDDOWN va) s = Ok (frame_of s pgdir va) s"
    using uva2ka_ok [OF wf user_ok_page(1) [OF u]] user_ok_page(2) [OF u] by simp
  ultimately show ?thesis using b
    by (subst copyout.simps) (simp add: Let_def n_def put_frame_def)
qed

lemma chunk_read:
  assumes "n \<le> length buf"
  shows "(if va + n \<le> vb \<and> vb < va + n + length (drop n buf) then drop n buf ! (vb - (va + n))
      else if va \<le> vb \<and> vb < va + length (take n buf) then take n buf ! (vb - va) else x) =
    (if va \<le> vb \<and> vb < va + length buf then buf ! (vb - va) else x)"
proof (cases "va \<le> vb \<and> vb < va + length buf")
  case True
  then have "vb - va = n + (vb - (va + n))" if "va + n \<le> vb" using that by simp
  with True assms show ?thesis by (auto simp: nth_drop)
next
  case False
  with assms show ?thesis by auto
qed

lemma copyout_loop:
  assumes "pt_wf s pgdir ps" and "as_wf s pgdir" and "va + length buf \<le> 2 ^ 32"
    and "\<forall>k < length buf. user_ok s pgdir (va + k)"
  shows "\<exists>t. copyout pgdir va buf s = Ok 0 t \<and> (\<forall>vb. lookup_pte t pgdir vb = lookup_pte s pgdir vb)
    \<and> (\<forall>vb < 2 ^ 32. user_ok s pgdir vb \<longrightarrow> uread t pgdir vb =
         (if va \<le> vb \<and> vb < va + length buf then buf ! (vb - va) else uread s pgdir vb))"
  using assms
proof (induction "length buf" arbitrary: va buf s rule: less_induct)
  case less
  show ?case
  proof (cases "buf = []")
    case True
    then show ?thesis by (subst copyout.simps) auto
  next
    case False
    have u: "user_ok s pgdir va" using less(5) False by (metis add.right_neutral length_greater_0_conv)
    have va: "va < 2 ^ 32" using less(4) False by (cases buf) auto
    let ?o = "va mod PGSIZE" and ?n = "min (PGSIZE - va mod PGSIZE) (length buf)"
    let ?t = "put_frame (frame_of s pgdir va) ?o (take ?n buf) s"
    have o: "?o < PGSIZE" by (simp add: PGSIZE_def)
    have chunk: "?o + length (take ?n buf) \<le> PGSIZE" "take ?n buf \<noteq> []" using o False by auto
    note keep = put_frame_keeps [OF less(2,3) u va chunk]
    note rd = put_frame_read [OF less(2,3) u va _ _ chunk]
    have uo: "user_ok ?t pgdir vb = user_ok s pgdir vb" for vb by (simp add: user_ok_def keep(1))
    have d: "va = PGROUNDDOWN va + ?o" by (simp add: PGROUNDDOWN_def)
    show ?thesis
    proof (cases "length buf \<le> PGSIZE - ?o")
      case True
      then have all: "take ?n buf = buf" "drop ?n buf = []" by simp_all
      have "copyout pgdir va buf s = Ok 0 ?t"
        unfolding copyout_step [OF less(2,3) u va False] all by (subst copyout.simps) simp
      then show ?thesis using keep(1) rd unfolding all by blast
    next
      case long: False
      let ?b = "drop ?n buf" and ?v = "uadd (PGROUNDDOWN va) PGSIZE"
      have n: "?n = PGSIZE - ?o" and nv: "va + ?n = PGROUNDDOWN va + PGSIZE" using long d o by auto
      have lb: "length ?b = length buf - ?n" "length ?b < length buf" using long o by auto
      have v: "?v = va + ?n" using nv less(4) long by (simp add: uadd_id n)
      have "\<exists>t. copyout pgdir ?v ?b ?t = Ok 0 t \<and> (\<forall>vb. lookup_pte t pgdir vb = lookup_pte ?t pgdir vb)
        \<and> (\<forall>vb < 2 ^ 32. user_ok ?t pgdir vb \<longrightarrow> uread t pgdir vb =
           (if ?v \<le> vb \<and> vb < ?v + length ?b then ?b ! (vb - ?v) else uread ?t pgdir vb))"
      proof (rule less(1) [OF lb(2) keep(2,3)])
        have "va + ?n + length ?b = va + length buf" by simp
        then show "?v + length ?b \<le> 2 ^ 32" unfolding v using less(4) by (simp only:)
        show "\<forall>k < length ?b. user_ok ?t pgdir (?v + k)"
        proof (intro allI impI)
          fix k assume "k < length ?b"
          then have "?n + k < length buf" by simp
          then have "user_ok s pgdir (va + (?n + k))" using less(5) by blast
          then show "user_ok ?t pgdir (?v + k)" unfolding uo v add.assoc .
        qed
      qed
      then obtain t where t: "copyout pgdir va buf s = Ok 0 t" "\<And>vb. lookup_pte t pgdir vb = lookup_pte s pgdir vb"
          "\<And>vb. vb < 2 ^ 32 \<Longrightarrow> user_ok s pgdir vb \<Longrightarrow> uread t pgdir vb =
           (if va + ?n \<le> vb \<and> vb < va + ?n + length ?b then ?b ! (vb - (va + ?n)) else uread ?t pgdir vb)"
        unfolding copyout_step [OF less(2,3) u va False] uo keep(1) unfolding v by blast
      have "uread t pgdir vb = (if va \<le> vb \<and> vb < va + length buf then buf ! (vb - va) else uread s pgdir vb)"
        if "vb < 2 ^ 32" "user_ok s pgdir vb" for vb
        unfolding t(3) [OF that] rd [OF that(2,1)] by (rule chunk_read) simp
      with t(1,2) show ?thesis by blast
    qed
  qed
qed

section \<open>A small page table\<close>

text \<open>A directory with one table that maps the user page at \<open>0x1000\<close>, and two free pages.\<close>

definition vm_base :: kmem where
  "vm_base = two_pages\<lparr>mem := set_run_next zero_bytes (KERNBASE + 4096) (KERNBASE + 8192)\<rparr>"

definition small_dir :: nat where "small_dir = KERNBASE + 12288"
definition small_table :: nat where "small_table = KERNBASE + 16384"
definition small_frame :: nat where "small_frame = KERNBASE + 20480"

definition small_vm :: kmem where
  "small_vm = st (small_table + 4 * 1) (of_nat (V2P small_frame) OR PTE_P OR PTE_W OR PTE_U)
     (st (small_dir + 4 * 0) (of_nat (V2P small_table) OR PTE_P OR PTE_W OR PTE_U) vm_base)"

lemma small_pages:
  "page_ok (kend vm_base) small_dir" "page_ok (kend vm_base) small_table"
  "page_ok (kend vm_base) small_frame" "kend small_vm = kend vm_base"
  by (simp_all add: page_ok_def small_dir_def small_table_def small_frame_def small_vm_def vm_base_def
      two_pages_def kbase.defs kconst)

lemma vm_base_ld:
  assumes "page_ok (kend vm_base) v" and "v \<noteq> KERNBASE + 4096" and "i < 1024"
  shows "ld vm_base (v + 4 * i) = 0"
proof -
  have p: "page_ok (kend vm_base) (KERNBASE + 4096)"
    by (simp add: page_ok_def vm_base_def two_pages_def kbase.defs kconst)
  have "ld vm_base (v + 4 * i) = ld (st (KERNBASE + 4096 + 4 * 0) (of_nat (KERNBASE + 8192)) (vm_base\<lparr>mem := zero_bytes\<rparr>)) (v + 4 * i)"
    by (simp add: vm_base_def st_def ld_def set_run_next_def)
  also have "\<dots> = 0"
    using assms(2) unfolding ld_st [OF p assms(1) zero_less_numeral assms(3)] by (auto simp: ld_def)
  finally show ?thesis .
qed

lemma small_ld:
  assumes "i < 1024"
  shows "ld small_vm (small_dir + 4 * i) = (if i = 0 then of_nat (V2P small_table) OR PTE_P OR PTE_W OR PTE_U else 0)"
    and "ld small_vm (small_table + 4 * i) = (if i = 1 then of_nat (V2P small_frame) OR PTE_P OR PTE_W OR PTE_U else 0)"
proof -
  have ne: "small_table \<noteq> small_dir" "small_dir \<noteq> KERNBASE + 4096" "small_table \<noteq> KERNBASE + 4096"
    by (simp_all add: small_dir_def small_table_def)
  have one: "(1::nat) < 1024" and zero: "(0::nat) < 1024" by simp_all
  show "ld small_vm (small_dir + 4 * i) = (if i = 0 then of_nat (V2P small_table) OR PTE_P OR PTE_W OR PTE_U else 0)"
    unfolding small_vm_def ld_st [OF small_pages(2,1) one assms] ld_st [OF small_pages(1,1) zero assms]
      vm_base_ld [OF small_pages(1) ne(2) assms] using ne by auto
  show "ld small_vm (small_table + 4 * i) = (if i = 1 then of_nat (V2P small_frame) OR PTE_P OR PTE_W OR PTE_U else 0)"
    unfolding small_vm_def ld_st [OF small_pages(2,2) one assms] ld_st [OF small_pages(1,2) zero assms]
      vm_base_ld [OF small_pages(2) ne(3) assms] using ne by auto
qed

lemma small_tables:
  assumes "i < 1024"
  shows "has_table small_vm small_dir i \<longleftrightarrow> i = 0" and "i = 0 \<Longrightarrow> table_at small_vm small_dir i = small_table"
  using small_ld(1) [OF assms] new_entry [OF small_pages(2)]
  by (auto simp: has_table_def table_at_def)

lemma small_lookup:
  "lookup_pte small_vm small_dir va =
     (if PDX va = 0 \<and> PTX va = 1 then of_nat (V2P small_frame) OR PTE_P OR PTE_W OR PTE_U else 0)"
  using small_tables [OF PDX_lt, of va] small_ld(2) [OF PTX_lt, of va] by (auto simp: lookup_pte_def)

lemma small_user:
  "user_ok small_vm small_dir va \<longleftrightarrow> PDX va = 0 \<and> PTX va = 1"
  "user_ok small_vm small_dir va \<Longrightarrow> frame_of small_vm small_dir va = small_frame"
proof -
  let ?w = "of_nat (V2P small_frame) OR PTE_P OR PTE_W OR PTE_U :: u32"
  have "?w AND PTE_U \<noteq> 0"
  proof -
    have "?w = (of_nat (V2P small_frame) OR PTE_P OR PTE_W) OR PTE_U" by (simp only: ac_simps)
    then have "?w AND PTE_U = PTE_U" by (simp only: word_ao_absorbs)
    then show ?thesis by (simp add: PTE_U_def)
  qed
  then show "user_ok small_vm small_dir va \<longleftrightarrow> PDX va = 0 \<and> PTX va = 1"
    using new_entry(1) [OF small_pages(3)] by (simp add: user_ok_def small_lookup)
  then show "user_ok small_vm small_dir va \<Longrightarrow> frame_of small_vm small_dir va = small_frame"
    using new_entry(2) [OF small_pages(3)] by (simp add: frame_of_def small_lookup)
qed

lemma small_wf: "pt_wf small_vm small_dir [KERNBASE + 4096, KERNBASE + 8192]" "as_wf small_vm small_dir"
  "pool small_vm [KERNBASE + 4096, KERNBASE + 8192]"
proof -
  have ne: "small_table \<noteq> small_dir" "small_frame \<noteq> small_dir" "small_frame \<noteq> small_table"
      "small_dir \<notin> set [KERNBASE + 4096, KERNBASE + 8192]" "small_table \<notin> set [KERNBASE + 4096, KERNBASE + 8192]"
    by (simp_all add: small_dir_def small_table_def small_frame_def)
  show "pt_wf small_vm small_dir [KERNBASE + 4096, KERNBASE + 8192]"
    unfolding pt_wf_def using small_tables small_pages ne by auto
  have "va div PGSIZE = vb div PGSIZE"
    if "user_ok small_vm small_dir va" "user_ok small_vm small_dir vb" "va < 2 ^ 32" "vb < 2 ^ 32" for va vb
    using that same_page_iff [OF that(3,4)] by (simp add: small_user(1) same_page_def)
  then show "as_wf small_vm small_dir"
    unfolding as_wf_def using small_tables small_user(2) small_pages ne by metis
  have "pool vm_base [KERNBASE + 4096, KERNBASE + 8192]"
    using two_pages_pool by (simp add: vm_base_def two_pages_def kbase.defs)
  then show "pool small_vm [KERNBASE + 4096, KERNBASE + 8192]"
    unfolding small_vm_def using small_pages ne by (intro pool_st) simp_all
qed

section \<open>Properties\<close>

text \<open>C7: \<open>mappages\<close> on a range of unmapped pages either maps exactly the pages that the range
  touches, in order, to consecutive frames with the given permissions and leaves every other
  translation alone, or fails with \<open>-1\<close>, and then no free page is left. The page table stays
  well formed, and the page pool with it.\<close>

theorem mappages_maps:
  assumes "pt_wf s pgdir ps" and "pool s ps" and "0 < len" and "va + len \<le> 2 ^ 32"
    and "pa + (PGROUNDDOWN (va + len - 1) - PGROUNDDOWN va) < 2 ^ 32"
    and "\<forall>vb. PGROUNDDOWN va \<le> vb \<and> vb < va + len \<longrightarrow> lookup_pte s pgdir vb AND PTE_P = 0"
  shows "(\<exists>t qs. mappages pgdir va len pa perm s = Ok 0 t \<and> pt_wf t pgdir qs \<and> pool t qs
           \<and> (\<forall>vb < 2 ^ 32. lookup_pte t pgdir vb =
                (if PGROUNDDOWN va \<le> PGROUNDDOWN vb \<and> PGROUNDDOWN vb \<le> PGROUNDDOWN (va + len - 1)
                 then of_nat (pa + (PGROUNDDOWN vb - PGROUNDDOWN va)) OR perm OR PTE_P
                 else lookup_pte s pgdir vb)))
     \<or> (\<exists>t. mappages pgdir va len pa perm s = Ok (-1) t \<and> pt_wf t pgdir [] \<and> pool t [])"
proof -
  let ?a = "PGROUNDDOWN va" and ?l = "PGROUNDDOWN (va + len - 1)"
  let ?k = "(va + len - 1) div PGSIZE - va div PGSIZE"
  have le: "va div PGSIZE \<le> (va + len - 1) div PGSIZE" using assms(3) by (intro div_le_mono) simp
  then have l: "?l = ?a + ?k * PGSIZE" by (simp add: PGROUNDDOWN_def flip: distrib_right)
  have lt: "?l < 2 ^ 32" using PGROUNDDOWN_le [of "va + len - 1"] assms(3,4) by linarith
  have k: "?k < 2 ^ 20"
    using lt l by (simp add: PGSIZE_def)
  have last: "PGROUNDDOWN (usub (uadd va len) 1) = ?l"
  proof (cases "va + len = 2 ^ 32")
    case True
    then show ?thesis by (simp add: uadd_def usub_def)
  next
    case False
    then show ?thesis using assms(3,4) by (simp add: uadd_id usub_id)
  qed
  have free: "\<forall>j \<le> ?k. lookup_pte s pgdir (?a + j * PGSIZE) AND PTE_P = 0"
  proof (intro allI impI)
    fix j assume "j \<le> ?k"
    then have "?a + j * PGSIZE \<le> ?l" using l by (simp add: PGSIZE_def)
    then have "?a + j * PGSIZE < va + len" using PGROUNDDOWN_le [of "va + len - 1"] assms(3) by linarith
    then show "lookup_pte s pgdir (?a + j * PGSIZE) AND PTE_P = 0" using assms(6) by simp
  qed
  have r: "?a \<le> vb \<and> vb < ?a + (?k * PGSIZE + PGSIZE) \<longleftrightarrow> ?a \<le> PGROUNDDOWN vb \<and> PGROUNDDOWN vb \<le> ?l" for vb
  proof -
    have "?a \<le> PGROUNDDOWN vb \<longleftrightarrow> ?a \<le> vb" by (auto simp: PGROUNDDOWN_def PGSIZE_def)
    moreover have "PGROUNDDOWN vb \<le> ?l \<longleftrightarrow> vb < ?l + PGSIZE" by (auto simp: PGROUNDDOWN_def PGSIZE_def)
    ultimately show ?thesis using l by (simp add: add.assoc)
  qed
  show ?thesis
    using mappages_loop_maps [OF assms(1,2) PGROUNDDOWN_mod, of va ?k pa "2 ^ 20" perm] lt l assms(5) k free
    unfolding mappages_def last mapped_as_def r by auto
qed

theorem mappages_maps_witness:
  "\<exists>t r. mappages small_dir 0x2000 0x1001 0x300000 (PTE_W OR PTE_U) small_vm = Ok r t
     \<and> (r = 0 \<longrightarrow> lookup_pte t small_dir 0x3000 = 0x301007)"
proof -
  have "lookup_pte small_vm small_dir vb AND PTE_P = 0" if "0x2000 \<le> vb" "vb < 0x3001" for vb
  proof -
    have "PTX vb \<noteq> 1" using that by (auto simp: PTX_def)
    then show ?thesis by (simp add: small_lookup)
  qed
  then have free: "\<forall>vb. PGROUNDDOWN 0x2000 \<le> vb \<and> vb < 0x2000 + 0x1001 \<longrightarrow> lookup_pte small_vm small_dir vb AND PTE_P = 0"
    by (simp add: PGROUNDDOWN_def PGSIZE_def)
  have "((0x300000 + 0x1000) OR (PTE_W OR PTE_U) OR PTE_P :: u32) = 0x301007" by (simp add: kconst)
  with mappages_maps [OF small_wf(1,3) _ _ _ free, of "0x300000" "PTE_W OR PTE_U"] show ?thesis
    by (auto simp: PGROUNDDOWN_def PGSIZE_def)
qed

text \<open>C8: \<open>copyout\<close> to a range of user addresses that is mapped and user accessible succeeds,
  across page boundaries; afterwards user reads in the range give the copied bytes, user reads
  elsewhere are unchanged, and no translation changes.\<close>

theorem copyout_correct:
  assumes "pt_wf s pgdir ps" and "as_wf s pgdir" and "va + length buf \<le> 2 ^ 32"
    and "\<forall>k < length buf. user_ok s pgdir (va + k)"
  shows "\<exists>t. copyout pgdir va buf s = Ok 0 t \<and> (\<forall>vb. lookup_pte t pgdir vb = lookup_pte s pgdir vb)
    \<and> (\<forall>vb < 2 ^ 32. user_ok s pgdir vb \<longrightarrow> uread t pgdir vb =
         (if va \<le> vb \<and> vb < va + length buf then buf ! (vb - va) else uread s pgdir vb))"
  by (rule copyout_loop [OF assms])

theorem copyout_correct_witness:
  "\<exists>t. copyout small_dir 0x1005 [1, 2, 3] small_vm = Ok 0 t \<and> uread t small_dir 0x1006 = 2"
proof -
  have u: "user_ok small_vm small_dir (0x1005 + k)" if "k < 100" for k
    using that by (simp add: small_user(1) PDX_def PTX_def)
  then have "\<forall>k < length [1, 2, 3 :: byte]. user_ok small_vm small_dir (0x1005 + k)" by simp
  with copyout_correct [OF small_wf(1,2), of "0x1005" "[1, 2, 3]"] u [of 1] show ?thesis by auto
qed

end
