(* ===== verification/Umem.thy ===== *)
theory Umem
  imports Vm
begin

text \<open>
  Kernel accesses to user addresses of the running process: the hardware translates through
  the page table of the process. A read of a page that is not present, or a write to one that
  is not writable, traps in kernel mode, which \<open>trap\<close> answers with a panic.
\<close>

definition cur_pgdir :: "'a kmem_scheme \<Rightarrow> nat" where
  "cur_pgdir s = (case curproc s of None \<Rightarrow> kpgdir s | Some p \<Rightarrow> p_pgdir (the_proc s p))"

definition user_addr :: "'a kmem_scheme \<Rightarrow> nat \<Rightarrow> nat" where
  "user_addr s va = PTE_ADDR (lookup_pte s (cur_pgdir s) va) + va mod PGSIZE"

fun load_user :: "nat \<Rightarrow> nat \<Rightarrow> 'a kmem_scheme \<Rightarrow> (byte list, 'a kmem_scheme) kres" where
  "load_user va 0 s = Ok [] s"
| "load_user va (Suc n) s =
     (if lookup_pte s (cur_pgdir s) va AND PTE_P = 0 then panic ''trap''
      else kbind (load_user (uadd va 1) n s) (\<lambda>bs s. Ok (mem s (user_addr s va) # bs) s))"

fun store_user :: "nat \<Rightarrow> byte list \<Rightarrow> 'a kmem_scheme \<Rightarrow> (unit, 'a kmem_scheme) kres" where
  "store_user va [] s = Ok () s"
| "store_user va (b # bs) s =
     (if lookup_pte s (cur_pgdir s) va AND PTE_P = 0 \<or> lookup_pte s (cur_pgdir s) va AND PTE_W = 0
      then panic ''trap''
      else store_user (uadd va 1) bs (s\<lparr>mem := (mem s)(user_addr s va := b)\<rparr>))"

text \<open>A word in memory order, and back.\<close>

definition word_bytes :: "u32 \<Rightarrow> byte list" where
  "word_bytes w = [ucast w, ucast (drop_bit 8 w), ucast (drop_bit 16 w), ucast (drop_bit 24 w)]"

definition bytes_word :: "byte list \<Rightarrow> u32" where
  "bytes_word bs = ucast (bs ! 0) OR push_bit 8 (ucast (bs ! 1)) OR push_bit 16 (ucast (bs ! 2))
     OR push_bit 24 (ucast (bs ! 3))"

lemma bytes_word_bytes [simp]: "bytes_word (word_bytes w) = w"
  by (simp add: bytes_word_def word_bytes_def uint_bytes_join)

end
