(* ===== verification/Proc_Ops.thy ===== *)
theory Proc_Ops
  imports Sched Umem File
begin

text \<open>
  Processes and threads (\<open>proc.c\<close>): creation, fork, exit, wait, thread creation, exit and
  join. A thread is a process-table entry that shares the page table of its mother.
\<close>

section \<open>Data\<close>

record ksys = kfile +
  first_ret :: bool

definition wakeup1_opt :: "nat option \<Rightarrow> 'a kbase_scheme \<Rightarrow> 'a kbase_scheme" where
  "wakeup1_opt p s = (case p of None \<Rightarrow> s | Some i \<Rightarrow> wakeup1 (ChProc i) s)"

definition with_cur ::
    "'a kbase_scheme \<Rightarrow> (nat \<Rightarrow> ('b, 'a kbase_scheme) kres) \<Rightarrow> ('b, 'a kbase_scheme) kres" where
  "with_cur s f = (case curproc s of None \<Rightarrow> Fault (Undefined ''no current process'') | Some p \<Rightarrow> f p)"

text \<open>\<open>safestrcpy\<close> between two name arrays of 16 bytes.\<close>

definition copy_name :: "byte list \<Rightarrow> byte list \<Rightarrow> byte list" where
  "copy_name s t =
     (let w = takeWhile (\<lambda>b. b \<noteq> 0) (take 15 t);
          w = (if length w < 15 then w @ [0, 0] else w @ [0])
      in w @ drop (length w) s)"

section \<open>Allocation\<close>

definition proc_free :: "proc \<Rightarrow> bool" where
  "proc_free p \<longleftrightarrow> p_state p = UNUSED"

definition fresh_proc :: "int \<Rightarrow> proc \<Rightarrow> proc" where
  "fresh_proc pid p = p\<lparr>p_state := EMBRYO, p_pid := pid, p_tick := 0, p_MLFQ_lv := HIGH,
     p_proc_mode := MLFQ, p_CPU_SHARE := 0, p_PASS := 0, p_hasthread := False, p_isthread := False,
     p_exiting := False, p_CPU_share_Stride := 0, p_PASS_MLFQ := 0, p_PASS_Stride := 0,
     p_max_stride_thread_pass := 0, p_total_ticks_MLFQ := 0, p_CPU_S := 0, p_m_tick := 0,
     p_m_MLFQ_lv := HIGH\<rparr>"

definition allocproc :: "'a kmem_scheme \<Rightarrow> (nat option, 'a kmem_scheme) kres" where
  "allocproc s =
     kbind (acquire PtableLock s) (\<lambda>_ s.
       case claim_first proc_free (fresh_proc (nextpid s)) (ptable s) of
         None \<Rightarrow> kbind (release PtableLock s) (\<lambda>_ s. Ok None s)
       | Some (i, ps) \<Rightarrow>
           kbind (release PtableLock (s\<lparr>ptable := ps, nextpid := wrap32 (nextpid s + 1)\<rparr>)) (\<lambda>_ s.
           kbind (kalloc s) (\<lambda>k s.
             let s = upd_proc i (p_kstack_update (\<lambda>_. k)) s
             in if k = 0 then Ok None (upd_proc i (p_state_update (\<lambda>_. UNUSED)) s)
                else Ok (Some i) (upd_proc i (p_context_update (\<lambda>_. ForkretContext)) s))))"

text \<open>\<open>SEG_UCODE << 3 | DPL_USER\<close>, \<open>SEG_UDATA << 3 | DPL_USER\<close> and the interrupt flag.\<close>

definition user_cs :: u32 where [kconst]: "user_cs = push_bit 3 3 OR 3"
definition user_ds :: u32 where [kconst]: "user_ds = push_bit 3 4 OR 3"
definition FL_IF :: u32 where [kconst]: "FL_IF = 0x200"

definition initcode_name :: "byte list" where
  "initcode_name = [105, 110, 105, 116, 99, 111, 100, 101]"

definition userinit ::
    "'a kfile_scheme devsw \<Rightarrow> byte list \<Rightarrow> 'a kfile_scheme \<Rightarrow> (unit, 'a kfile_scheme) kres" where
  "userinit dv initcode s =
     kbind (allocproc (s\<lparr>total_ticks_MLFQ := 0, CPU_share_Stride := 0, PASS_MLFQ := 0, PASS_Stride := 0\<rparr>))
       (\<lambda>r s. case r of
          None \<Rightarrow> Fault (Undefined ''userinit: no process'')
        | Some p \<Rightarrow>
            kbind (setupkvm (s\<lparr>initproc := Some p\<rparr>)) (\<lambda>pg s.
              let s = upd_proc p (p_pgdir_update (\<lambda>_. pg)) s
              in if pg = 0 then panic ''userinit: out of memory?''
                 else
                   kbind (inituvm pg initcode s) (\<lambda>_ s.
                     let s = upd_proc p (\<lambda>x. x\<lparr>p_sz := PGSIZE,
                           p_tf := zero_tf\<lparr>tf_cs := user_cs, tf_ds := user_ds, tf_es := user_ds,
                             tf_ss := user_ds, tf_eflags := FL_IF, tf_esp := of_nat PGSIZE, tf_eip := 0\<rparr>,
                           p_name := copy_name (p_name x) initcode_name\<rparr>) s
                     in kbind (namei dv [SLASH] s) (\<lambda>d s.
                          let s = upd_proc p (p_cwd_update (\<lambda>_. d)) s
                          in kbind (acquire PtableLock s) (\<lambda>_ s.
                             release PtableLock (upd_proc p (p_state_update (\<lambda>_. RUNNABLE)) s))))))"

definition growproc :: "int \<Rightarrow> 'a kmem_scheme \<Rightarrow> (int, 'a kmem_scheme) kres" where
  "growproc n s =
     with_cur s (\<lambda>p.
       let sz = p_sz (the_proc s p); pg = p_pgdir (the_proc s p);
           newsz = nat ((int sz + n) mod 2 ^ 32)
       in kbind (if n > 0 then allocuvm pg sz newsz s
                 else if n < 0 then deallocuvm pg sz newsz s else Ok sz s) (\<lambda>r s.
            if n \<noteq> 0 \<and> r = 0 then Ok (-1) s
            else kbind (switchuvm p (upd_proc p (p_sz_update (\<lambda>_. r)) s)) (\<lambda>_ s. Ok 0 s)))"

section \<open>Fork\<close>

text \<open>\<open>for(i = 0; i < NOFILE; i++) if(curproc->ofile[i]) np->ofile[i] = filedup(curproc->ofile[i])\<close>\<close>

fun dup_files :: "nat \<Rightarrow> nat \<Rightarrow> nat \<Rightarrow> nat \<Rightarrow> 'a kfile_scheme \<Rightarrow> (unit, 'a kfile_scheme) kres" where
  "dup_files cur np i 0 s = Ok () s"
| "dup_files cur np i (Suc k) s =
     (case p_ofile (the_proc s cur) ! i of
        None \<Rightarrow> dup_files cur np (i + 1) k s
      | Some f \<Rightarrow> kbind (filedup f s) (\<lambda>f s.
          dup_files cur np (i + 1) k (upd_proc np (\<lambda>x. x\<lparr>p_ofile := (p_ofile x)[i := Some f]\<rparr>) s)))"

text \<open>The tail that \<open>fork\<close> and \<open>thread_create\<close> share: files, working directory, name.\<close>

definition inherit :: "nat \<Rightarrow> nat \<Rightarrow> 'a kfile_scheme \<Rightarrow> (unit, 'a kfile_scheme) kres" where
  "inherit cur np s =
     kbind (dup_files cur np 0 NOFILE s) (\<lambda>_ s.
       case p_cwd (the_proc s cur) of
         None \<Rightarrow> Fault (Undefined ''idup of a null pointer'')
       | Some d \<Rightarrow> kbind (idup d s) (\<lambda>d s.
           Ok () (upd_proc np (\<lambda>x. x\<lparr>p_cwd := Some d,
             p_name := copy_name (p_name x) (p_name (the_proc s cur))\<rparr>) s)))"

text \<open>
  \<open>fork_child\<close> counts the entries whose parent is \<open>old\<close>; with one of them, its second loop
  assigns \<open>p = oldthreads[i]\<close> from an array that nothing has set, and everything after is
  undefined. \<open>fork\<close> has just made \<open>np\<close> such an entry.
\<close>

definition fork_child :: "nat \<Rightarrow> nat \<Rightarrow> 'a kbase_scheme \<Rightarrow> (int, 'a kbase_scheme) kres" where
  "fork_child new old s =
     (if length (filter (\<lambda>p. p_parent p = Some old) (ptable s)) = 0 then Ok 0 s
      else Fault (Undefined ''fork_child reads oldthreads, which is not set''))"

definition fork :: "'a kfile_scheme \<Rightarrow> (int, 'a kfile_scheme) kres" where
  "fork s =
     with_cur s (\<lambda>cur.
     kbind (allocproc s) (\<lambda>r s.
       case r of
         None \<Rightarrow> Ok (-1) s
       | Some np \<Rightarrow>
           kbind (copyuvm (p_pgdir (the_proc s cur)) (p_sz (the_proc s cur)) s) (\<lambda>pg s.
             let s = upd_proc np (p_pgdir_update (\<lambda>_. pg)) s
             in if pg = 0 then
                  kbind (kfree (p_kstack (the_proc s np)) s) (\<lambda>_ s.
                    Ok (-1) (upd_proc np (\<lambda>x. x\<lparr>p_kstack := 0, p_state := UNUSED\<rparr>) s))
                else
                  let s = upd_proc np (\<lambda>x. x\<lparr>p_sz := p_sz (the_proc s cur), p_parent := Some cur,
                        p_tf := (p_tf (the_proc s cur))\<lparr>tf_eax := 0\<rparr>\<rparr>) s
                  in kbind (inherit cur np s) (\<lambda>_ s.
                       let pid = p_pid (the_proc s np)
                       in kbind (acquire PtableLock s) (\<lambda>_ s.
                            let s = upd_proc np (p_state_update (\<lambda>_. RUNNABLE)) s
                            in if p_hasthread (the_proc s cur) then
                                 kbind (fork_child np cur s) (\<lambda>r s.
                                   if r = -1 then Ok (-1) s
                                   else kbind (release PtableLock s) (\<lambda>_ s. Ok pid s))
                               else kbind (release PtableLock s) (\<lambda>_ s. Ok pid s))))))"

section \<open>Threads\<close>

definition join_clean :: "nat option \<Rightarrow> nat \<Rightarrow> proc \<Rightarrow> proc" where
  "join_clean init sz p = p\<lparr>p_kstack := 0, p_sz := sz, p_pid := 0, p_parent := None,
     p_name := (p_name p)[0 := 0], p_killed := False, p_state := UNUSED, p_tick := 0, p_MLFQ_lv := HIGH,
     p_proc_mode := MLFQ, p_CPU_SHARE := 0, p_PASS := 0, p_ret_val := 0, p_thread_num := -1,
     p_isthread := False, p_mother := init\<rparr>"

text \<open>
  \<open>thread_join\<close> from the head of its loop on, \<open>ptable.lock\<close> held. \<open>retval\<close> is a user address, or
  \<open>None\<close> for the local variable that \<open>exit\<close> passes. Without such a thread it sleeps. A child
  that is not a thread has no thread number of its own.
\<close>

definition thread_join_test :: "int \<Rightarrow> nat option \<Rightarrow> 'a kmem_scheme \<Rightarrow> (int, 'a kmem_scheme) kres" where
  "thread_join_test tid retval s =
     with_cur s (\<lambda>cur.
       case first_index (\<lambda>p. p_parent p = Some cur \<and> p_pid p = tid \<and> p_state p = ZOMBIE) (ptable s) of
         Some i \<Rightarrow>
           kbind (case retval of None \<Rightarrow> Ok () s | Some va \<Rightarrow> store_user va (word_bytes (p_ret_val (the_proc s i))) s)
             (\<lambda>_ s. kbind (kfree (p_kstack (the_proc s i)) s) (\<lambda>_ s.
                if p_thread_num (the_proc s i) < 0 \<or> p_thread_num (the_proc s i) \<ge> int NTHREAD
                then Fault (Undefined ''thread_join: thread number outside ex_thread'')
                else
                let s = upd_proc cur (\<lambda>x. x\<lparr>p_ex_thread := (p_ex_thread x)[nat (p_thread_num (the_proc s i)) := False]\<rparr>) s;
                    s = upd_proc i (join_clean (initproc s) (p_sz (the_proc s cur))) s
                in kbind (release PtableLock s) (\<lambda>_ s. Ok 0 s)))
       | None \<Rightarrow> sleep (ChProc cur) PtableLock s)"

definition thread_join :: "int \<Rightarrow> nat option \<Rightarrow> 'a kmem_scheme \<Rightarrow> (int, 'a kmem_scheme) kres" where
  "thread_join tid retval s = kbind (acquire PtableLock s) (\<lambda>_ s. thread_join_test tid retval s)"

definition thread_join_resume :: "int \<Rightarrow> nat option \<Rightarrow> 'a kmem_scheme \<Rightarrow> (int, 'a kmem_scheme) kres" where
  "thread_join_resume tid retval s =
     kbind (sleep_resume PtableLock s) (\<lambda>_ s. thread_join_test tid retval s)"

text \<open>
  The stack of a new thread: the first slot that no thread uses, with three pages allocated
  above the one before when it never had a stack. When every slot is in use nothing is
  assigned, and \<open>np->sz\<close> keeps what the entry held before. \<open>Ok None\<close>: no memory, and
  \<open>ptable.lock\<close> is still held.
\<close>

definition thread_stack :: "nat \<Rightarrow> nat \<Rightarrow> 'a kmem_scheme \<Rightarrow> (unit option, 'a kmem_scheme) kres" where
  "thread_stack cur np s =
     (case first_index (\<lambda>e. \<not> e) (p_ex_thread (the_proc s cur)) of
        None \<Rightarrow> Ok (Some ()) s
      | Some i \<Rightarrow>
          let x = the_proc s cur;
              sz = (if i = 0 then p_sz x else uadd (p_sz_thread x ! (i - 1)) PGSIZE);
              claim = (\<lambda>s. let s = upd_proc np (\<lambda>y. y\<lparr>p_sz := p_sz_thread (the_proc s cur) ! i\<rparr>) s;
                             s = upd_proc cur (\<lambda>y. y\<lparr>p_ex_thread := (p_ex_thread y)[i := True]\<rparr>) s
                         in upd_proc np (p_thread_num_update (\<lambda>_. int i)) s)
          in if p_sz_thread x ! i = 0 then
               kbind (acquire PtableLock s) (\<lambda>_ s.
               kbind (allocuvm (p_pgdir x) sz (uadd sz (3 * PGSIZE)) s) (\<lambda>r s.
                 if r = 0 then Ok None s
                 else kbind (release PtableLock s) (\<lambda>_ s.
                   Ok (Some ()) (claim (upd_proc cur (\<lambda>y. y\<lparr>p_sz_thread := (p_sz_thread y)[i := usub r PGSIZE]\<rparr>) s)))))
             else Ok (Some ()) (claim s))"

definition thread_create ::
    "nat \<Rightarrow> nat \<Rightarrow> u32 \<Rightarrow> 'a kfile_scheme \<Rightarrow> (int, 'a kfile_scheme) kres" where
  "thread_create thread start_routine arg s =
     with_cur s (\<lambda>cur.
       let s = (if p_hasthread (the_proc s cur) then s
                else upd_proc cur (\<lambda>x. x\<lparr>p_sz_thread := replicate NTHREAD 0,
                       p_ex_thread := replicate NTHREAD False, p_hasthread := True\<rparr>) s)
       in kbind (allocproc s) (\<lambda>r s.
            case r of
              None \<Rightarrow> Ok (-1) s
            | Some np \<Rightarrow>
                let s = upd_proc np (\<lambda>x. x\<lparr>p_pgdir := p_pgdir (the_proc s cur), p_tf := p_tf (the_proc s cur)\<rparr>) s
                in kbind (thread_stack cur np s) (\<lambda>r s.
                     case r of
                       None \<Rightarrow> Ok (-1) s
                     | Some _ \<Rightarrow>
                         let sp = usub (p_sz (the_proc s np)) 16;
                             ustack = word_bytes 0xffffffff @ word_bytes arg @ word_bytes 0 @ word_bytes arg
                         in kbind (copyout (p_pgdir (the_proc s np)) sp ustack s) (\<lambda>r s.
                              if r < 0 then Ok (-1) s
                              else
                                let s = upd_proc np (\<lambda>x. x\<lparr>p_tf := (p_tf x)\<lparr>tf_esp := of_nat sp,
                                      tf_eip := of_nat start_routine, tf_eax := 0\<rparr>\<rparr>) s
                                in kbind (store_user thread (word_bytes (of_int (p_pid (the_proc s np)))) s) (\<lambda>_ s.
                                     let s = upd_proc np (\<lambda>x. x\<lparr>p_isthread := True, p_ret_val := 0,
                                           p_parent := Some cur,
                                           p_mother := (if p_hasthread (the_proc s cur) then Some cur
                                                        else p_mother (the_proc s cur))\<rparr>) s
                                     in kbind (inherit cur np s) (\<lambda>_ s.
                                        kbind (acquire PtableLock s) (\<lambda>_ s.
                                        kbind (release PtableLock (upd_proc np (p_state_update (\<lambda>_. RUNNABLE)) s)) (\<lambda>_ s.
                                          Ok 0 s))))))))"

section \<open>Exit and wait\<close>

text \<open>The loop that passes children to init.\<close>

fun reparent :: "nat \<Rightarrow> nat \<Rightarrow> nat \<Rightarrow> 'a kbase_scheme \<Rightarrow> 'a kbase_scheme" where
  "reparent cur i 0 s = s"
| "reparent cur i (Suc k) s =
     reparent cur (i + 1) k
       (if p_parent (the_proc s i) = Some cur then
          let s = upd_proc i (p_parent_update (\<lambda>_. initproc s)) s
          in if p_state (the_proc s i) = ZOMBIE then wakeup1_opt (initproc s) s else s
        else s)"

text \<open>The end of \<open>exit\<close> and \<open>thread_exit\<close>: drop the working directory, then become a zombie.\<close>

definition drop_cwd :: "nat \<Rightarrow> 'a kfile_scheme \<Rightarrow> (unit, 'a kfile_scheme) kres" where
  "drop_cwd cur s =
     kbind (begin_op s) (\<lambda>_ s.
       case p_cwd (the_proc s cur) of
         None \<Rightarrow> Fault (Undefined ''iput of a null pointer'')
       | Some d \<Rightarrow>
           kbind (iput d s) (\<lambda>_ s.
           kbind (end_op s) (\<lambda>_ s. Ok () (upd_proc cur (p_cwd_update (\<lambda>_. None)) s))))"

definition become_zombie :: "nat \<Rightarrow> (proc \<Rightarrow> proc) \<Rightarrow> 'a kbase_scheme \<Rightarrow> (unit, 'a kbase_scheme) kres" where
  "become_zombie cur f s =
     kbind (acquire PtableLock s) (\<lambda>_ s.
       let s = reparent cur 0 (length (ptable s)) s;
           s = upd_proc cur (\<lambda>x. f (x\<lparr>p_state := ZOMBIE\<rparr>)) s
       in sched (wakeup1_opt (p_parent (the_proc s cur)) s))"

definition thread_exit :: "u32 \<Rightarrow> 'a kfile_scheme \<Rightarrow> (unit, 'a kfile_scheme) kres" where
  "thread_exit retval s =
     with_cur s (\<lambda>cur.
       if Some cur = initproc s then panic ''init exiting''
       else kbind (drop_cwd cur s) (\<lambda>_ s. become_zombie cur (p_ret_val_update (\<lambda>_. retval)) s))"

fun close_files :: "nat \<Rightarrow> nat \<Rightarrow> nat \<Rightarrow> 'a kfile_scheme \<Rightarrow> (unit, 'a kfile_scheme) kres" where
  "close_files cur fd 0 s = Ok () s"
| "close_files cur fd (Suc k) s =
     (case p_ofile (the_proc s cur) ! fd of
        None \<Rightarrow> close_files cur (fd + 1) k s
      | Some f \<Rightarrow> kbind (fileclose f s) (\<lambda>_ s.
          close_files cur (fd + 1) k (upd_proc cur (\<lambda>x. x\<lparr>p_ofile := (p_ofile x)[fd := None]\<rparr>) s)))"

text \<open>
  The first loop after label \<open>RE\<close> in \<open>exit\<close>: children that are zombies are joined, the others are
  marked killed. It runs without \<open>ptable.lock\<close>.
\<close>

fun reap_pass :: "nat \<Rightarrow> nat \<Rightarrow> nat \<Rightarrow> 'a kmem_scheme \<Rightarrow> (unit, 'a kmem_scheme) kres" where
  "reap_pass cur i 0 s = Ok () s"
| "reap_pass cur i (Suc k) s =
     (if p_parent (the_proc s i) \<noteq> Some cur then reap_pass cur (i + 1) k s
      else if p_state (the_proc s i) = ZOMBIE then
        kbind (thread_join (p_pid (the_proc s i)) None s) (\<lambda>_ s. reap_pass cur (i + 1) k s)
      else reap_pass cur (i + 1) k (wakeup1 (ChProc i) (upd_proc i (p_killed_update (\<lambda>_. True)) s)))"

text \<open>\<open>Retry\<close>: a child is left, so the process goes back to \<open>RE\<close>; others run in between.\<close>

datatype exit_result = Retry | Gone

definition exit_rest :: "nat \<Rightarrow> 'a kfile_scheme \<Rightarrow> (exit_result, 'a kfile_scheme) kres" where
  "exit_rest cur s =
     kbind (if p_isthread (the_proc s cur) then
              case p_parent (the_proc s cur) of
                None \<Rightarrow> Fault (Undefined ''thread without a parent'')
              | Some m \<Rightarrow>
                  if \<not> p_exiting (the_proc s m) then
                    kbind (acquire PtableLock s) (\<lambda>_ s.
                      release PtableLock (upd_proc m (\<lambda>x. x\<lparr>p_killed := True, p_exiting := True\<rparr>) s))
                  else Ok () s
            else Ok () s) (\<lambda>_ s.
       kbind (close_files cur 0 NOFILE (release_share cur s)) (\<lambda>_ s.
       kbind (drop_cwd cur s) (\<lambda>_ s.
       kbind (become_zombie cur (\<lambda>x. x) s) (\<lambda>_ s. Ok Gone s))))"

definition exit :: "'a kfile_scheme \<Rightarrow> (exit_result, 'a kfile_scheme) kres" where
  "exit s =
     with_cur s (\<lambda>cur.
       if Some cur = initproc s then panic ''init exiting''
       else if p_hasthread (the_proc s cur) then
         kbind (reap_pass cur 0 (length (ptable s)) (upd_proc cur (p_exiting_update (\<lambda>_. True)) s)) (\<lambda>_ s.
           if \<exists>p \<in> set (ptable s). p_parent p = Some cur then Ok Retry s else exit_rest cur s)
       else exit_rest cur s)"

definition wait_clean :: "proc \<Rightarrow> proc" where
  "wait_clean p = p\<lparr>p_pid := 0, p_parent := None, p_name := (p_name p)[0 := 0], p_killed := False,
     p_state := UNUSED\<rparr>"

definition wait_test :: "'a kmem_scheme \<Rightarrow> (int, 'a kmem_scheme) kres" where
  "wait_test s =
     with_cur s (\<lambda>cur.
       case first_index (\<lambda>p. p_parent p = Some cur \<and> p_state p = ZOMBIE) (ptable s) of
         Some i \<Rightarrow>
           let pid = p_pid (the_proc s i)
           in kbind (kfree (p_kstack (the_proc s i)) s) (\<lambda>_ s.
              kbind (freevm (p_pgdir (the_proc s i)) (upd_proc i (p_kstack_update (\<lambda>_. 0)) s)) (\<lambda>_ s.
              kbind (release PtableLock (upd_proc i wait_clean s)) (\<lambda>_ s. Ok pid s)))
       | None \<Rightarrow>
           if (\<forall>p \<in> set (ptable s). p_parent p \<noteq> Some cur) \<or> p_killed (the_proc s cur)
           then kbind (release PtableLock s) (\<lambda>_ s. Ok (-1) s)
           else sleep (ChProc cur) PtableLock s)"

definition wait :: "'a kmem_scheme \<Rightarrow> (int, 'a kmem_scheme) kres" where
  "wait s = kbind (acquire PtableLock s) (\<lambda>_ s. wait_test s)"

definition wait_resume :: "'a kmem_scheme \<Rightarrow> (int, 'a kmem_scheme) kres" where
  "wait_resume s = kbind (sleep_resume PtableLock s) (\<lambda>_ s. wait_test s)"

section \<open>First return\<close>

definition forkret :: "'a ksys_scheme \<Rightarrow> (unit, 'a ksys_scheme) kres" where
  "forkret s =
     kbind (release PtableLock s) (\<lambda>_ s.
       if first_ret s then
         kbind (iinit ROOTDEV (s\<lparr>first_ret := False\<rparr>)) (\<lambda>_ s. initlog ROOTDEV s)
       else Ok () s)"

end
