(* ===== verification/Syscall.thy ===== *)
theory Syscall
  imports Proc_Ops
begin

text \<open>
  System call arguments (\<open>syscall.c\<close>): words, pointers and strings fetched from the user stack
  of the running process, checked against its size. \<open>None\<close> is the return value \<open>-1\<close>. A string is
  delivered as its bytes: the kernel reads it in place, and on one CPU nothing changes it before
  the call ends.
\<close>

definition fetchint :: "nat \<Rightarrow> 'a kmem_scheme \<Rightarrow> (u32 option, 'a kmem_scheme) kres" where
  "fetchint addr s =
     with_cur s (\<lambda>p.
       if addr \<ge> p_sz (the_proc s p) \<or> uadd addr 4 > p_sz (the_proc s p) then Ok None s
       else kbind (load_user addr 4 s) (\<lambda>bs s. Ok (Some (bytes_word bs)) s))"

text \<open>The loop of \<open>fetchstr\<close> over the \<open>k\<close> bytes from \<open>va\<close> to the end of the process.\<close>

fun fetchstr_loop :: "nat \<Rightarrow> nat \<Rightarrow> 'a kmem_scheme \<Rightarrow> (byte list option, 'a kmem_scheme) kres" where
  "fetchstr_loop va 0 s = Ok None s"
| "fetchstr_loop va (Suc k) s =
     kbind (load_user va 1 s) (\<lambda>bs s.
       if hd bs = 0 then Ok (Some []) s
       else kbind (fetchstr_loop (va + 1) k s) (\<lambda>r s. Ok (map_option ((#) (hd bs)) r) s))"

definition fetchstr :: "nat \<Rightarrow> 'a kmem_scheme \<Rightarrow> (byte list option, 'a kmem_scheme) kres" where
  "fetchstr addr s =
     with_cur s (\<lambda>p.
       if addr \<ge> p_sz (the_proc s p) then Ok None s
       else fetchstr_loop addr (p_sz (the_proc s p) - addr) s)"

definition argword :: "nat \<Rightarrow> 'a kmem_scheme \<Rightarrow> (u32 option, 'a kmem_scheme) kres" where
  "argword n s = with_cur s (\<lambda>p. fetchint (uadd (unat (tf_esp (p_tf (the_proc s p)))) (4 + 4 * n)) s)"

definition argint :: "nat \<Rightarrow> 'a kmem_scheme \<Rightarrow> (int option, 'a kmem_scheme) kres" where
  "argint n s = kbind (argword n s) (\<lambda>r s. Ok (map_option sint r) s)"

definition argptr :: "nat \<Rightarrow> int \<Rightarrow> 'a kmem_scheme \<Rightarrow> (nat option, 'a kmem_scheme) kres" where
  "argptr n len s =
     with_cur s (\<lambda>p.
     kbind (argword n s) (\<lambda>r s.
       case r of
         None \<Rightarrow> Ok None s
       | Some i \<Rightarrow>
           if len < 0 \<or> unat i \<ge> p_sz (the_proc s p) \<or> uadd (unat i) (nat len) > p_sz (the_proc s p)
           then Ok None s else Ok (Some (unat i)) s))"

definition argstr :: "nat \<Rightarrow> 'a kmem_scheme \<Rightarrow> (byte list option, 'a kmem_scheme) kres" where
  "argstr n s =
     kbind (argword n s) (\<lambda>r s. case r of None \<Rightarrow> Ok None s | Some a \<Rightarrow> fetchstr (unat a) s)"

text \<open>\<open>if(... < 0) return -1;\<close> around an argument.\<close>

definition or_fail :: "('b option, 's) kres \<Rightarrow> ('b \<Rightarrow> 's \<Rightarrow> (int, 's) kres) \<Rightarrow> (int, 's) kres" where
  "or_fail m f = kbind m (\<lambda>r s. case r of None \<Rightarrow> Ok (-1) s | Some x \<Rightarrow> f x s)"

end
