(* ===== verification/Sysproc.thy ===== *)
theory Sysproc
  imports Syscall Sync
begin

text \<open>
  The system calls of \<open>sysproc.c\<close> and \<open>prac_syscall.c\<close>. A call that gives up the CPU ends in the
  state the scheduler gets; its rest is the \<open>_resume\<close> operation of what it called. The text that
  \<open>my_syscall\<close> prints is not part of the state.
\<close>

datatype outcome = Ret int | Yielded | Leaving exit_result

section \<open>Processes\<close>

definition sys_fork :: "'a kfile_scheme \<Rightarrow> (int, 'a kfile_scheme) kres" where
  "sys_fork s = fork s"

definition sys_exit :: "'a kfile_scheme \<Rightarrow> (outcome, 'a kfile_scheme) kres" where
  "sys_exit s = kbind (exit s) (\<lambda>r s. Ok (Leaving r) s)"

definition sys_wait :: "'a kmem_scheme \<Rightarrow> (int, 'a kmem_scheme) kres" where
  "sys_wait s = wait s"

definition sys_kill :: "'a kmem_scheme \<Rightarrow> (int, 'a kmem_scheme) kres" where
  "sys_kill s = or_fail (argint 0 s) (\<lambda>pid s. kill pid s)"

definition sys_getpid :: "'a kbase_scheme \<Rightarrow> (int, 'a kbase_scheme) kres" where
  "sys_getpid s = with_cur s (\<lambda>p. Ok (p_pid (the_proc s p)) s)"

definition sys_getppid :: "'a kbase_scheme \<Rightarrow> (int, 'a kbase_scheme) kres" where
  "sys_getppid s =
     with_cur s (\<lambda>p. case p_parent (the_proc s p) of
       None \<Rightarrow> Fault (Undefined ''process without a parent'') | Some q \<Rightarrow> Ok (p_pid (the_proc s q)) s)"

text \<open>A thread's \<open>sbrk\<close> moves its \<open>sz\<close> and allocates nothing.\<close>

definition sys_sbrk :: "'a kmem_scheme \<Rightarrow> (int, 'a kmem_scheme) kres" where
  "sys_sbrk s =
     or_fail (argint 0 s) (\<lambda>n s.
     with_cur s (\<lambda>p.
       let addr = p_sz (the_proc s p)
       in if p_isthread (the_proc s p)
          then Ok (wrap32 (int addr)) (upd_proc p (p_sz_update (\<lambda>z. nat ((int z + n) mod 2 ^ 32))) s)
          else kbind (growproc n s) (\<lambda>r s. if r < 0 then Ok (-1) s else Ok (wrap32 (int addr)) s)))"

text \<open>
  \<open>sys_sleep\<close> from the test of its loop on, \<open>tickslock\<close> held. The comparison is unsigned.
\<close>

definition sys_sleep_test :: "nat \<Rightarrow> int \<Rightarrow> 'a kbase_scheme \<Rightarrow> (int, 'a kbase_scheme) kres" where
  "sys_sleep_test ticks0 n s =
     (if int (usub (ticks s) ticks0) < n mod 2 ^ 32 then
        with_cur s (\<lambda>p.
          if p_killed (the_proc s p) then kbind (release TicksLock s) (\<lambda>_ s. Ok (-1) s)
          else sleep ChTicks TicksLock s)
      else kbind (release TicksLock s) (\<lambda>_ s. Ok 0 s))"

definition sys_sleep :: "'a kmem_scheme \<Rightarrow> (int, 'a kmem_scheme) kres" where
  "sys_sleep s =
     or_fail (argint 0 s) (\<lambda>n s.
     kbind (acquire TicksLock s) (\<lambda>_ s. sys_sleep_test (ticks s) n s))"

definition sys_sleep_resume :: "nat \<Rightarrow> int \<Rightarrow> 'a kbase_scheme \<Rightarrow> (int, 'a kbase_scheme) kres" where
  "sys_sleep_resume ticks0 n s = kbind (sleep_resume TicksLock s) (\<lambda>_ s. sys_sleep_test ticks0 n s)"

definition sys_uptime :: "'a kbase_scheme \<Rightarrow> (int, 'a kbase_scheme) kres" where
  "sys_uptime s =
     kbind (acquire TicksLock s) (\<lambda>_ s.
       let x = ticks s in kbind (release TicksLock s) (\<lambda>_ s. Ok (wrap32 (int x)) s))"

section \<open>Scheduling\<close>

definition my_yield :: "int \<Rightarrow> 'a kbase_scheme \<Rightarrow> (unit, 'a kbase_scheme) kres" where
  "my_yield num s = yield s"

definition my_yield_resume :: "'a kbase_scheme \<Rightarrow> (int, 'a kbase_scheme) kres" where
  "my_yield_resume s = kbind (yield_resume s) (\<lambda>_ s. Ok (wrap32 0xABCDABCD) s)"

definition sys_my_yield :: "'a kmem_scheme \<Rightarrow> (outcome, 'a kmem_scheme) kres" where
  "sys_my_yield s =
     kbind (argint 0 s) (\<lambda>r s.
       case r of None \<Rightarrow> Ok (Ret (-1)) s | Some num \<Rightarrow> kbind (my_yield num s) (\<lambda>_ s. Ok Yielded s))"

definition sys_yield :: "'a kbase_scheme \<Rightarrow> (outcome, 'a kbase_scheme) kres" where
  "sys_yield s = kbind (yield s) (\<lambda>_ s. Ok Yielded s)"

definition sys_getlev :: "'a kbase_scheme \<Rightarrow> (int, 'a kbase_scheme) kres" where
  "sys_getlev s = getlev s"

definition sys_set_cpu_share :: "'a kmem_scheme \<Rightarrow> (int, 'a kmem_scheme) kres" where
  "sys_set_cpu_share s = or_fail (argint 0 s) (\<lambda>num s. set_cpu_share num s)"

section \<open>Threads\<close>

definition sys_thread_create :: "'a kfile_scheme \<Rightarrow> (int, 'a kfile_scheme) kres" where
  "sys_thread_create s =
     or_fail (argptr 0 4 s) (\<lambda>thread s.
     or_fail (argptr 1 4 s) (\<lambda>start_routine s.
     or_fail (argptr 2 4 s) (\<lambda>arg s. thread_create thread start_routine (of_nat arg) s)))"

definition sys_thread_exit :: "'a kfile_scheme \<Rightarrow> (outcome, 'a kfile_scheme) kres" where
  "sys_thread_exit s =
     kbind (argptr 0 4 s) (\<lambda>r s.
       case r of
         None \<Rightarrow> Ok (Ret (-1)) s
       | Some retval \<Rightarrow> kbind (thread_exit (of_nat retval) s) (\<lambda>_ s. Ok (Leaving Gone) s))"

definition sys_thread_join :: "'a kmem_scheme \<Rightarrow> (int, 'a kmem_scheme) kres" where
  "sys_thread_join s =
     or_fail (argint 0 s) (\<lambda>thread s.
     or_fail (argptr 1 4 s) (\<lambda>retval s. thread_join thread (Some retval) s))"

section \<open>Semaphores and read-write locks in user memory\<close>

text \<open>
  \<open>xchg\<close> on a word of the process; one round of \<open>xem_wait\<close> and \<open>xem_unlock\<close>, which yield and try
  again when the word was not what they wait for.
\<close>

definition xchg_user :: "nat \<Rightarrow> u32 \<Rightarrow> 'a kmem_scheme \<Rightarrow> (u32, 'a kmem_scheme) kres" where
  "xchg_user va new s =
     kbind (load_user va 4 s) (\<lambda>bs s.
     kbind (store_user va (word_bytes new) s) (\<lambda>_ s. Ok (bytes_word bs) s))"

definition sys_xem_init :: "'a kmem_scheme \<Rightarrow> (int, 'a kmem_scheme) kres" where
  "sys_xem_init s =
     or_fail (argptr 0 4 s) (\<lambda>xem s. kbind (store_user xem (word_bytes 1) s) (\<lambda>_ s. Ok 0 s))"

definition xem_try :: "u32 \<Rightarrow> u32 \<Rightarrow> nat \<Rightarrow> 'a kmem_scheme \<Rightarrow> (outcome, 'a kmem_scheme) kres" where
  "xem_try new want va s =
     kbind (xchg_user va new s) (\<lambda>old s.
       if old = want then Ok (Ret 0) s else kbind (yield s) (\<lambda>_ s. Ok Yielded s))"

definition sys_xem_wait :: "'a kmem_scheme \<Rightarrow> (outcome, 'a kmem_scheme) kres" where
  "sys_xem_wait s =
     kbind (argptr 0 4 s) (\<lambda>r s. case r of None \<Rightarrow> Ok (Ret (-1)) s | Some xem \<Rightarrow> xem_try 0 1 xem s)"

definition sys_xem_unlock :: "'a kmem_scheme \<Rightarrow> (outcome, 'a kmem_scheme) kres" where
  "sys_xem_unlock s =
     kbind (argptr 0 4 s) (\<lambda>r s. case r of None \<Rightarrow> Ok (Ret (-1)) s | Some xem \<Rightarrow> xem_try 1 0 xem s)"

text \<open>\<open>rwlock_t\<close>: the semaphores \<open>lock\<close> and \<open>writelock\<close>, then \<open>readers\<close>; 12 bytes, of which 4 are checked.\<close>

definition sys_rwlock_init :: "'a kmem_scheme \<Rightarrow> (int, 'a kmem_scheme) kres" where
  "sys_rwlock_init s =
     or_fail (argptr 0 4 s) (\<lambda>rw s.
     kbind (store_user (uadd rw 8) (word_bytes 0) s) (\<lambda>_ s.
     kbind (store_user rw (word_bytes 1) s) (\<lambda>_ s.
     kbind (store_user (uadd rw 4) (word_bytes 1) s) (\<lambda>_ s. Ok 0 s))))"

definition sys_rwlock_acquire_writelock :: "'a kmem_scheme \<Rightarrow> (outcome, 'a kmem_scheme) kres" where
  "sys_rwlock_acquire_writelock s =
     kbind (argptr 0 4 s) (\<lambda>r s.
       case r of None \<Rightarrow> Ok (Ret (-1)) s | Some rw \<Rightarrow> xem_try 0 1 (uadd rw 4) s)"

definition sys_rwlock_release_writelock :: "'a kmem_scheme \<Rightarrow> (outcome, 'a kmem_scheme) kres" where
  "sys_rwlock_release_writelock s =
     kbind (argptr 0 4 s) (\<lambda>r s.
       case r of None \<Rightarrow> Ok (Ret (-1)) s | Some rw \<Rightarrow> xem_try 1 0 (uadd rw 4) s)"

text \<open>
  The read side runs the steps of \<open>Sync\<close> on the lock in memory, from program point \<open>pc\<close> to \<open>fin\<close>, at
  most four of them. A step that leaves the point unchanged is a failed \<open>xchg\<close>: the process
  yields, and goes on from that point.
\<close>

definition load_rwlock :: "nat \<Rightarrow> 'a kmem_scheme \<Rightarrow> (rwlock, 'a kmem_scheme) kres" where
  "load_rwlock va s =
     kbind (load_user va 12 s) (\<lambda>bs s.
       Ok \<lparr>rw_lock = unat (bytes_word bs), rw_writelock = unat (bytes_word (drop 4 bs)),
           rw_readers = sint (bytes_word (drop 8 bs))\<rparr> s)"

definition store_rwlock :: "nat \<Rightarrow> rwlock \<Rightarrow> 'a kmem_scheme \<Rightarrow> (unit, 'a kmem_scheme) kres" where
  "store_rwlock va rw s =
     store_user va (word_bytes (of_nat (rw_lock rw)) @ word_bytes (of_nat (rw_writelock rw))
       @ word_bytes (of_int (rw_readers rw))) s"

fun rwlock_run ::
    "nat \<Rightarrow> (rwpc \<Rightarrow> rwlock \<Rightarrow> rwpc \<times> rwlock) \<Rightarrow> rwpc \<Rightarrow> rwpc \<Rightarrow> nat
      \<Rightarrow> 'a kmem_scheme \<Rightarrow> (outcome, 'a kmem_scheme) kres" where
  "rwlock_run 0 step pc fin va s = (if pc = fin then Ok (Ret 0) s else Fault Diverges)"
| "rwlock_run (Suc n) step pc fin va s =
     (if pc = fin then Ok (Ret 0) s
      else kbind (load_rwlock va s) (\<lambda>rw s.
        let (pc', rw') = step pc rw
        in kbind (store_rwlock va rw' s) (\<lambda>_ s.
             if pc' = pc then kbind (yield s) (\<lambda>_ s. Ok Yielded s)
             else rwlock_run n step pc' fin va s)))"

definition sys_rwlock_acquire_readlock :: "'a kmem_scheme \<Rightarrow> (outcome, 'a kmem_scheme) kres" where
  "sys_rwlock_acquire_readlock s =
     kbind (argptr 0 4 s) (\<lambda>r s.
       case r of None \<Rightarrow> Ok (Ret (-1)) s
       | Some rw \<Rightarrow> rwlock_run 4 acquire_readlock_step AR1 Reading rw s)"

definition sys_rwlock_release_readlock :: "'a kmem_scheme \<Rightarrow> (outcome, 'a kmem_scheme) kres" where
  "sys_rwlock_release_readlock s =
     kbind (argptr 0 4 s) (\<lambda>r s.
       case r of None \<Rightarrow> Ok (Ret (-1)) s
       | Some rw \<Rightarrow> rwlock_run 4 release_readlock_step RR1 Idle rw s)"

section \<open>A call that prints\<close>

definition my_syscall :: "byte list \<Rightarrow> int" where
  "my_syscall str = wrap32 0xABCDABCD"

definition sys_my_syscall :: "'a kmem_scheme \<Rightarrow> (int, 'a kmem_scheme) kres" where
  "sys_my_syscall s = or_fail (argstr 0 s) (\<lambda>str s. Ok (my_syscall str) s)"

end
