(* ===== verification/Sysfile.thy ===== *)
theory Sysfile
  imports Syscall
begin

text \<open>
  The file system calls (\<open>sysfile.c\<close>). A file descriptor is an index into the open files of the
  running process. \<open>dv\<close> is the device table.
\<close>

section \<open>Descriptors\<close>

definition argfd :: "nat \<Rightarrow> 'a kfile_scheme \<Rightarrow> ((nat \<times> nat) option, 'a kfile_scheme) kres" where
  "argfd n s =
     with_cur s (\<lambda>p.
     kbind (argint n s) (\<lambda>r s.
       case r of
         None \<Rightarrow> Ok None s
       | Some fd \<Rightarrow>
           if fd < 0 \<or> fd \<ge> int NOFILE then Ok None s
           else case p_ofile (the_proc s p) ! nat fd of
             None \<Rightarrow> Ok None s
           | Some f \<Rightarrow> Ok (Some (nat fd, f)) s))"

definition fd_free :: "nat option \<Rightarrow> bool" where
  "fd_free e \<longleftrightarrow> e = None"

definition set_ofile :: "nat \<Rightarrow> nat \<Rightarrow> nat option \<Rightarrow> 'a kbase_scheme \<Rightarrow> 'a kbase_scheme" where
  "set_ofile p fd e s = upd_proc p (\<lambda>x. x\<lparr>p_ofile := (p_ofile x)[fd := e]\<rparr>) s"

definition fdalloc :: "nat \<Rightarrow> 'a kbase_scheme \<Rightarrow> (int, 'a kbase_scheme) kres" where
  "fdalloc f s =
     with_cur s (\<lambda>p.
       case claim_first fd_free (\<lambda>_. Some f) (p_ofile (the_proc s p)) of
         None \<Rightarrow> Ok (-1) s
       | Some (fd, fs) \<Rightarrow> Ok (int fd) (upd_proc p (p_ofile_update (\<lambda>_. fs)) s))"

definition sys_dup :: "'a kfile_scheme \<Rightarrow> (int, 'a kfile_scheme) kres" where
  "sys_dup s =
     or_fail (argfd 0 s) (\<lambda>(_, f) s.
     kbind (fdalloc f s) (\<lambda>fd s.
       if fd < 0 then Ok (-1) s else kbind (filedup f s) (\<lambda>_ s. Ok fd s)))"

definition sys_close :: "'a kfile_scheme \<Rightarrow> (int, 'a kfile_scheme) kres" where
  "sys_close s =
     or_fail (argfd 0 s) (\<lambda>(fd, f) s.
     with_cur s (\<lambda>p. kbind (fileclose f (set_ofile p fd None s)) (\<lambda>_ s. Ok 0 s)))"

section \<open>Reading and writing\<close>

text \<open>
  The bytes a read delivers are stored where the argument points; the bytes of a write are
  loaded before it starts.
\<close>

definition rw_args ::
    "'a kfile_scheme \<Rightarrow> ((nat \<times> int \<times> nat) option, 'a kfile_scheme) kres" where
  "rw_args s =
     kbind (argfd 0 s) (\<lambda>f s. case f of None \<Rightarrow> Ok None s | Some (_, f) \<Rightarrow>
     kbind (argint 2 s) (\<lambda>n s. case n of None \<Rightarrow> Ok None s | Some n \<Rightarrow>
     kbind (argptr 1 n s) (\<lambda>p s. case p of None \<Rightarrow> Ok None s | Some p \<Rightarrow> Ok (Some (f, n, p)) s)))"

definition sys_read :: "'a kfile_scheme devsw \<Rightarrow> 'a kfile_scheme \<Rightarrow> (int, 'a kfile_scheme) kres" where
  "sys_read dv s =
     or_fail (rw_args s) (\<lambda>(f, n, p) s.
     kbind (fileread dv f (nat n) s) (\<lambda>(bs, r) s.
     kbind (store_user p bs s) (\<lambda>_ s. Ok r s)))"

definition sys_write :: "'a kfile_scheme devsw \<Rightarrow> 'a kfile_scheme \<Rightarrow> (int, 'a kfile_scheme) kres" where
  "sys_write dv s =
     or_fail (rw_args s) (\<lambda>(f, n, p) s.
       if \<not> f_writable (the_file s f) then Ok (-1) s
       else kbind (load_user p (nat n) s) (\<lambda>bs s. filewrite dv f bs s))"

definition sys_pread :: "'a kfile_scheme devsw \<Rightarrow> 'a kfile_scheme \<Rightarrow> (int, 'a kfile_scheme) kres" where
  "sys_pread dv s =
     or_fail (rw_args s) (\<lambda>(f, n, p) s.
     or_fail (argword 3 s) (\<lambda>off s.
     kbind (filepread dv f (nat n) (unat off) s) (\<lambda>(bs, r) s.
     kbind (store_user p bs s) (\<lambda>_ s. Ok r s))))"

definition sys_pwrite :: "'a kfile_scheme devsw \<Rightarrow> 'a kfile_scheme \<Rightarrow> (int, 'a kfile_scheme) kres" where
  "sys_pwrite dv s =
     or_fail (rw_args s) (\<lambda>(f, n, p) s.
     or_fail (argword 3 s) (\<lambda>off s.
       if \<not> f_writable (the_file s f) then Ok (-1) s
       else kbind (load_user p (nat n) s) (\<lambda>bs s. filepwrite dv f bs (unat off) s)))"

text \<open>\<open>struct stat\<close> in memory: \<open>type\<close> at 0, \<open>dev\<close> at 4, \<open>ino\<close> at 8, \<open>nlink\<close> at 12, \<open>size\<close> at 16.\<close>

definition short_bytes :: "int \<Rightarrow> byte list" where
  "short_bytes v = take 2 (word_bytes (of_int v))"

definition store_stat :: "nat \<Rightarrow> stat \<Rightarrow> 'a kmem_scheme \<Rightarrow> (unit, 'a kmem_scheme) kres" where
  "store_stat va x s =
     kbind (store_user va (short_bytes (st_type x)) s) (\<lambda>_ s.
     kbind (store_user (uadd va 4) (word_bytes (of_nat (st_dev x))) s) (\<lambda>_ s.
     kbind (store_user (uadd va 8) (word_bytes (of_nat (st_ino x))) s) (\<lambda>_ s.
     kbind (store_user (uadd va 12) (short_bytes (st_nlink x)) s) (\<lambda>_ s.
     store_user (uadd va 16) (word_bytes (of_nat (st_size x))) s))))"

definition sys_fstat :: "'a kfile_scheme \<Rightarrow> (int, 'a kfile_scheme) kres" where
  "sys_fstat s =
     or_fail (argfd 0 s) (\<lambda>(_, f) s.
     or_fail (argptr 1 20 s) (\<lambda>st s.
     kbind (filestat f s) (\<lambda>r s.
       case r of None \<Rightarrow> Ok (-1) s | Some x \<Rightarrow> kbind (store_stat st x s) (\<lambda>_ s. Ok 0 s))))"

section \<open>Links\<close>

text \<open>The 16-bit \<open>nlink\<close>, and the end of a call that fails inside its transaction.\<close>

definition add_nlink :: "nat \<Rightarrow> int \<Rightarrow> 'a kfs_scheme \<Rightarrow> 'a kfs_scheme" where
  "add_nlink ip k s = upd_inode ip (\<lambda>x. x\<lparr>i_nlink := sint (of_int (i_nlink x + k) :: 16 word)\<rparr>) s"

definition fail_op :: "'a kfs_scheme \<Rightarrow> (int, 'a kfs_scheme) kres" where
  "fail_op s = kbind (end_op s) (\<lambda>_ s. Ok (-1) s)"

definition link_bad :: "nat \<Rightarrow> 'a kfs_scheme \<Rightarrow> (int, 'a kfs_scheme) kres" where
  "link_bad ip s =
     kbind (ilock ip s) (\<lambda>_ s.
     kbind (iupdate ip (add_nlink ip (-1) s)) (\<lambda>_ s.
     kbind (iunlockput ip s) (\<lambda>_ s. fail_op s)))"

definition sys_link :: "'a kfile_scheme devsw \<Rightarrow> 'a kfile_scheme \<Rightarrow> (int, 'a kfile_scheme) kres" where
  "sys_link dv s =
     or_fail (argstr 0 s) (\<lambda>old s.
     or_fail (argstr 1 s) (\<lambda>new s.
     kbind (begin_op s) (\<lambda>_ s.
     kbind (namei dv old s) (\<lambda>r s.
       case r of
         None \<Rightarrow> fail_op s
       | Some ip \<Rightarrow>
           kbind (ilock ip s) (\<lambda>_ s.
             if i_type (the_inode s ip) = T_DIR then kbind (iunlockput ip s) (\<lambda>_ s. fail_op s)
             else
               kbind (iupdate ip (add_nlink ip 1 s)) (\<lambda>_ s.
               kbind (iunlock ip s) (\<lambda>_ s.
               kbind (nameiparent dv new s) (\<lambda>r s.
                 case r of
                   None \<Rightarrow> link_bad ip s
                 | Some (dp, name) \<Rightarrow>
                     kbind (ilock dp s) (\<lambda>_ s.
                     kbind (if i_dev (the_inode s dp) \<noteq> i_dev (the_inode s ip) then Ok (-1) s
                            else dirlink dv dp name (i_inum (the_inode s ip)) s) (\<lambda>r s.
                       if r < 0 then kbind (iunlockput dp s) (\<lambda>_ s. link_bad ip s)
                       else
                         kbind (iunlockput dp s) (\<lambda>_ s.
                         kbind (iput ip s) (\<lambda>_ s.
                         kbind (end_op s) (\<lambda>_ s. Ok 0 s)))))))))))))"

text \<open>\<open>isdirempty\<close> from offset \<open>off\<close> on.\<close>

function isdirempty_loop ::
    "'a kfs_scheme devsw \<Rightarrow> nat \<Rightarrow> nat \<Rightarrow> nat \<Rightarrow> 'a kfs_scheme \<Rightarrow> (bool, 'a kfs_scheme) kres" where
  "isdirempty_loop dv dp sz off s =
     (if off < sz then
        kbind (readi dv dp off DIRENT s) (\<lambda>(de, r) s.
          if r \<noteq> int DIRENT then panic ''isdirempty: readi''
          else if de_inum de \<noteq> 0 then Ok False s
          else isdirempty_loop dv dp sz (off + DIRENT) s)
      else Ok True s)"
  by pat_completeness auto
termination
  by (relation "measure (\<lambda>(dv, dp, sz, off, s). sz - off)") (auto simp: DIRENT_def)

declare isdirempty_loop.simps [simp del]

definition isdirempty :: "'a kfs_scheme devsw \<Rightarrow> nat \<Rightarrow> 'a kfs_scheme \<Rightarrow> (bool, 'a kfs_scheme) kres" where
  "isdirempty dv dp s = isdirempty_loop dv dp (i_size (the_inode s dp)) (2 * DIRENT) s"

definition DOT :: "byte list" where "DOT = [46]"
definition DOTDOT :: "byte list" where "DOTDOT = [46, 46]"

definition unlink_bad :: "nat \<Rightarrow> 'a kfs_scheme \<Rightarrow> (int, 'a kfs_scheme) kres" where
  "unlink_bad dp s = kbind (iunlockput dp s) (\<lambda>_ s. fail_op s)"

definition sys_unlink :: "'a kfile_scheme devsw \<Rightarrow> 'a kfile_scheme \<Rightarrow> (int, 'a kfile_scheme) kres" where
  "sys_unlink dv s =
     or_fail (argstr 0 s) (\<lambda>path s.
     kbind (begin_op s) (\<lambda>_ s.
     kbind (nameiparent dv path s) (\<lambda>r s.
       case r of
         None \<Rightarrow> fail_op s
       | Some (dp, name) \<Rightarrow>
           kbind (ilock dp s) (\<lambda>_ s.
             if namecmp name DOT = 0 \<or> namecmp name DOTDOT = 0 then unlink_bad dp s
             else
               kbind (dirlookup dv dp name s) (\<lambda>r s.
                 case r of
                   None \<Rightarrow> unlink_bad dp s
                 | Some (ip, off) \<Rightarrow>
                     kbind (ilock ip s) (\<lambda>_ s.
                       if i_nlink (the_inode s ip) < 1 then panic ''unlink: nlink < 1''
                       else
                         kbind (if i_type (the_inode s ip) = T_DIR then isdirempty dv ip s else Ok True s) (\<lambda>e s.
                           if \<not> e then kbind (iunlockput ip s) (\<lambda>_ s. unlink_bad dp s)
                           else
                             kbind (writei dv dp (replicate DIRENT 0) off s) (\<lambda>r s.
                               if r \<noteq> int DIRENT then panic ''unlink: writei''
                               else
                                 kbind (if i_type (the_inode s ip) = T_DIR
                                        then iupdate dp (add_nlink dp (-1) s) else Ok () s) (\<lambda>_ s.
                                 kbind (iunlockput dp s) (\<lambda>_ s.
                                 kbind (iupdate ip (add_nlink ip (-1) s)) (\<lambda>_ s.
                                 kbind (iunlockput ip s) (\<lambda>_ s.
                                 kbind (end_op s) (\<lambda>_ s. Ok 0 s)))))))))))))"

section \<open>Creating and opening\<close>

text \<open>\<open>create\<close> delivers the inode locked.\<close>

definition create ::
    "'a kfs_scheme devsw \<Rightarrow> byte list \<Rightarrow> int \<Rightarrow> int \<Rightarrow> int \<Rightarrow> 'a kfs_scheme \<Rightarrow> (nat option, 'a kfs_scheme) kres" where
  "create dv path ty major minor s =
     kbind (nameiparent dv path s) (\<lambda>r s.
       case r of
         None \<Rightarrow> Ok None s
       | Some (dp, name) \<Rightarrow>
           kbind (ilock dp s) (\<lambda>_ s.
           kbind (dirlookup dv dp name s) (\<lambda>r s.
             case r of
               Some (ip, _) \<Rightarrow>
                 kbind (iunlockput dp s) (\<lambda>_ s.
                 kbind (ilock ip s) (\<lambda>_ s.
                   if ty = T_FILE \<and> i_type (the_inode s ip) = T_FILE then Ok (Some ip) s
                   else kbind (iunlockput ip s) (\<lambda>_ s. Ok None s)))
             | None \<Rightarrow>
                 kbind (ialloc (i_dev (the_inode s dp)) ty s) (\<lambda>ip s.
                 kbind (ilock ip s) (\<lambda>_ s.
                 kbind (iupdate ip (upd_inode ip (\<lambda>x. x\<lparr>i_major := major, i_minor := minor, i_nlink := 1\<rparr>) s)) (\<lambda>_ s.
                 kbind (if ty = T_DIR then
                          kbind (iupdate dp (add_nlink dp 1 s)) (\<lambda>_ s.
                          kbind (dirlink dv ip DOT (i_inum (the_inode s ip)) s) (\<lambda>r s.
                            if r < 0 then panic ''create dots''
                            else kbind (dirlink dv ip DOTDOT (i_inum (the_inode s dp)) s) (\<lambda>r s.
                              if r < 0 then panic ''create dots'' else Ok () s)))
                        else Ok () s) (\<lambda>_ s.
                 kbind (dirlink dv dp name (i_inum (the_inode s ip)) s) (\<lambda>r s.
                   if r < 0 then panic ''create: dirlink''
                   else kbind (iunlockput dp s) (\<lambda>_ s. Ok (Some ip) s)))))))))"

definition O_RDONLY :: int where [kconst]: "O_RDONLY = 0"
definition O_WRONLY :: int where [kconst]: "O_WRONLY = 1"
definition O_RDWR :: int where [kconst]: "O_RDWR = 2"
definition O_CREATE :: int where [kconst]: "O_CREATE = 0x200"

text \<open>The part of \<open>sys_open\<close> that finds the inode and leaves it locked; \<open>None\<close>: the call fails.\<close>

definition open_inode ::
    "'a kfs_scheme devsw \<Rightarrow> byte list \<Rightarrow> int \<Rightarrow> 'a kfs_scheme \<Rightarrow> (nat option, 'a kfs_scheme) kres" where
  "open_inode dv path omode s =
     (if omode AND O_CREATE \<noteq> 0 then create dv path T_FILE 0 0 s
      else
        kbind (namei dv path s) (\<lambda>r s.
          case r of
            None \<Rightarrow> Ok None s
          | Some ip \<Rightarrow>
              kbind (ilock ip s) (\<lambda>_ s.
                if i_type (the_inode s ip) = T_DIR \<and> omode \<noteq> O_RDONLY
                then kbind (iunlockput ip s) (\<lambda>_ s. Ok None s)
                else Ok (Some ip) s)))"

definition sys_open :: "'a kfile_scheme devsw \<Rightarrow> 'a kfile_scheme \<Rightarrow> (int, 'a kfile_scheme) kres" where
  "sys_open dv s =
     or_fail (argstr 0 s) (\<lambda>path s.
     or_fail (argint 1 s) (\<lambda>omode s.
     kbind (begin_op s) (\<lambda>_ s.
     kbind (open_inode dv path omode s) (\<lambda>r s.
       case r of
         None \<Rightarrow> fail_op s
       | Some ip \<Rightarrow>
           kbind (filealloc s) (\<lambda>f s.
             case f of
               None \<Rightarrow> kbind (iunlockput ip s) (\<lambda>_ s. fail_op s)
             | Some f \<Rightarrow>
                 kbind (fdalloc f s) (\<lambda>fd s.
                   if fd < 0 then
                     kbind (fileclose f s) (\<lambda>_ s. kbind (iunlockput ip s) (\<lambda>_ s. fail_op s))
                   else
                     kbind (iunlock ip s) (\<lambda>_ s.
                     kbind (end_op s) (\<lambda>_ s.
                       Ok fd (upd_file f (\<lambda>x. x\<lparr>f_type := FD_INODE, f_ip := ip, f_off := 0,
                         f_readable := (omode AND O_WRONLY = 0),
                         f_writable := (omode AND O_WRONLY \<noteq> 0 \<or> omode AND O_RDWR \<noteq> 0)\<rparr>) s)))))))))"

section \<open>Directories and devices\<close>

text \<open>The end of \<open>sys_mkdir\<close> and \<open>sys_mknod\<close>.\<close>

definition made :: "nat option \<Rightarrow> 'a kfs_scheme \<Rightarrow> (int, 'a kfs_scheme) kres" where
  "made r s =
     (case r of
        None \<Rightarrow> fail_op s
      | Some ip \<Rightarrow> kbind (iunlockput ip s) (\<lambda>_ s. kbind (end_op s) (\<lambda>_ s. Ok 0 s)))"

definition sys_mkdir :: "'a kfile_scheme devsw \<Rightarrow> 'a kfile_scheme \<Rightarrow> (int, 'a kfile_scheme) kres" where
  "sys_mkdir dv s =
     kbind (begin_op s) (\<lambda>_ s.
     kbind (argstr 0 s) (\<lambda>r s.
       case r of
         None \<Rightarrow> fail_op s
       | Some path \<Rightarrow> kbind (create dv path T_DIR 0 0 s) (\<lambda>r s. made r s)))"

definition to_short :: "int \<Rightarrow> int" where
  "to_short v = sint (of_int v :: 16 word)"

definition sys_mknod :: "'a kfile_scheme devsw \<Rightarrow> 'a kfile_scheme \<Rightarrow> (int, 'a kfile_scheme) kres" where
  "sys_mknod dv s =
     kbind (begin_op s) (\<lambda>_ s.
     kbind (argstr 0 s) (\<lambda>r s. case r of None \<Rightarrow> fail_op s | Some path \<Rightarrow>
     kbind (argint 1 s) (\<lambda>r s. case r of None \<Rightarrow> fail_op s | Some major \<Rightarrow>
     kbind (argint 2 s) (\<lambda>r s. case r of None \<Rightarrow> fail_op s | Some minor \<Rightarrow>
     kbind (create dv path T_DEV (to_short major) (to_short minor) s) (\<lambda>r s. made r s)))))"

definition sys_chdir :: "'a kfile_scheme devsw \<Rightarrow> 'a kfile_scheme \<Rightarrow> (int, 'a kfile_scheme) kres" where
  "sys_chdir dv s =
     with_cur s (\<lambda>p.
     kbind (begin_op s) (\<lambda>_ s.
     kbind (argstr 0 s) (\<lambda>r s. case r of None \<Rightarrow> fail_op s | Some path \<Rightarrow>
     kbind (namei dv path s) (\<lambda>r s. case r of None \<Rightarrow> fail_op s | Some ip \<Rightarrow>
     kbind (ilock ip s) (\<lambda>_ s.
       if i_type (the_inode s ip) \<noteq> T_DIR then kbind (iunlockput ip s) (\<lambda>_ s. fail_op s)
       else
         kbind (iunlock ip s) (\<lambda>_ s.
           case p_cwd (the_proc s p) of
             None \<Rightarrow> Fault (Undefined ''iput of a null pointer'')
           | Some d \<Rightarrow>
               kbind (iput d s) (\<lambda>_ s.
               kbind (end_op s) (\<lambda>_ s. Ok 0 (upd_proc p (p_cwd_update (\<lambda>_. Some ip)) s)))))))))"

definition sys_pipe :: "'a kfile_scheme \<Rightarrow> (int, 'a kfile_scheme) kres" where
  "sys_pipe s =
     or_fail (argptr 0 8 s) (\<lambda>fd s.
     or_fail (pipealloc s) (\<lambda>(rf, wf) s.
     with_cur s (\<lambda>p.
     kbind (fdalloc rf s) (\<lambda>fd0 s.
     kbind (if fd0 < 0 then Ok (-1) s else fdalloc wf s) (\<lambda>fd1 s.
       if fd0 < 0 \<or> fd1 < 0 then
         let s = (if fd0 \<ge> 0 then set_ofile p (nat fd0) None s else s)
         in kbind (fileclose rf s) (\<lambda>_ s. kbind (fileclose wf s) (\<lambda>_ s. Ok (-1) s))
       else
         kbind (store_user fd (word_bytes (of_int fd0)) s) (\<lambda>_ s.
         kbind (store_user (uadd fd 4) (word_bytes (of_int fd1)) s) (\<lambda>_ s. Ok 0 s)))))))"

end
