(* ===== verification/Exec.thy ===== *)
theory Exec
  imports Sysfile
begin

text \<open>
  Loading a program (\<open>exec.c\<close>, \<open>loaduvm\<close> of \<open>vm.c\<close>) and the call \<open>sys_exec\<close>. The structures read
  from the file are byte lists, their fields little-endian words at the offsets of \<open>elf.h\<close>.
\<close>

definition MAXARG :: nat where [kconst]: "MAXARG = 32"
definition ELF_MAGIC :: nat where [kconst]: "ELF_MAGIC = 0x464C457F"
definition ELF_PROG_LOAD :: nat where [kconst]: "ELF_PROG_LOAD = 1"

definition le32 :: "nat \<Rightarrow> byte list \<Rightarrow> nat" where
  "le32 k bs = unat (bytes_word (take 4 (drop k bs)))"

definition le16 :: "nat \<Rightarrow> byte list \<Rightarrow> nat" where
  "le16 k bs = unat (bs ! k) + 256 * unat (bs ! (k + 1))"

record elfhdr =
  e_magic :: nat
  e_entry :: nat
  e_phoff :: nat
  e_phnum :: nat

definition ELFHDR :: nat where [kconst]: "ELFHDR = 52"

definition elfhdr_of :: "byte list \<Rightarrow> elfhdr" where
  "elfhdr_of bs = \<lparr>e_magic = le32 0 bs, e_entry = le32 24 bs, e_phoff = le32 28 bs, e_phnum = le16 44 bs\<rparr>"

record proghdr =
  ph_type :: nat
  ph_off :: nat
  ph_vaddr :: nat
  ph_filesz :: nat
  ph_memsz :: nat

definition PROGHDR :: nat where [kconst]: "PROGHDR = 32"

definition proghdr_of :: "byte list \<Rightarrow> proghdr" where
  "proghdr_of bs = \<lparr>ph_type = le32 0 bs, ph_off = le32 4 bs, ph_vaddr = le32 8 bs,
     ph_filesz = le32 16 bs, ph_memsz = le32 20 bs\<rparr>"

section \<open>loaduvm\<close>

text \<open>The unsigned counter \<open>i\<close> wraps, and the loop starts over, when \<open>sz\<close> ends in the last page.\<close>

function loaduvm_loop ::
    "'a kfs_scheme devsw \<Rightarrow> nat \<Rightarrow> nat \<Rightarrow> nat \<Rightarrow> nat \<Rightarrow> nat \<Rightarrow> nat \<Rightarrow> 'a kfs_scheme \<Rightarrow> (int, 'a kfs_scheme) kres" where
  "loaduvm_loop dv pgdir addr ip offset sz i s =
     (if i < sz then
        if i \<ge> 2 ^ 32 then Fault Diverges
        else kbind (walkpgdir pgdir (uadd addr i) False s) (\<lambda>pte s.
          if pte = 0 then panic ''loaduvm: address should exist''
          else
            let pa = PTE_ADDR (ld s pte); n = (if sz - i < PGSIZE then sz - i else PGSIZE)
            in kbind (readi dv ip (uadd offset i) n s) (\<lambda>(bs, r) s.
                 let s = s\<lparr>mem := blit (mem s) pa bs\<rparr>
                 in if r \<noteq> int n then Ok (-1) s
                    else loaduvm_loop dv pgdir addr ip offset sz (i + PGSIZE) s))
      else if i \<ge> 2 ^ 32 then Fault Diverges
      else Ok 0 s)"
  by pat_completeness auto
termination
  by (relation "measure (\<lambda>(dv, pgdir, addr, ip, offset, sz, i, s). sz - i)") (auto simp: PGSIZE_def)

declare loaduvm_loop.simps [simp del]

definition loaduvm ::
    "'a kfs_scheme devsw \<Rightarrow> nat \<Rightarrow> nat \<Rightarrow> nat \<Rightarrow> nat \<Rightarrow> nat \<Rightarrow> 'a kfs_scheme \<Rightarrow> (int, 'a kfs_scheme) kres" where
  "loaduvm dv pgdir addr ip offset sz s =
     (if addr mod PGSIZE \<noteq> 0 then panic ''loaduvm: addr must be page aligned''
      else loaduvm_loop dv pgdir addr ip offset sz 0 s)"

section \<open>exec\<close>

text \<open>The loop over the program headers, \<open>k\<close> of them left; \<open>None\<close> is \<open>goto bad\<close>.\<close>

fun load_segments ::
    "'a kfs_scheme devsw \<Rightarrow> nat \<Rightarrow> nat \<Rightarrow> nat \<Rightarrow> nat \<Rightarrow> nat \<Rightarrow> 'a kfs_scheme \<Rightarrow> (nat option, 'a kfs_scheme) kres" where
  "load_segments dv ip pgdir off 0 sz s = Ok (Some sz) s"
| "load_segments dv ip pgdir off (Suc k) sz s =
     kbind (readi dv ip off PROGHDR s) (\<lambda>(bs, r) s.
       if r \<noteq> int PROGHDR then Ok None s
       else
         let ph = proghdr_of bs; off' = uadd off PROGHDR
         in if ph_type ph \<noteq> ELF_PROG_LOAD then load_segments dv ip pgdir off' k sz s
            else if ph_memsz ph < ph_filesz ph then Ok None s
            else if uadd (ph_vaddr ph) (ph_memsz ph) < ph_vaddr ph then Ok None s
            else kbind (allocuvm pgdir sz (uadd (ph_vaddr ph) (ph_memsz ph)) s) (\<lambda>sz s.
              if sz = 0 then Ok None s
              else if ph_vaddr ph mod PGSIZE \<noteq> 0 then Ok None s
              else kbind (loaduvm dv pgdir (ph_vaddr ph) ip (ph_off ph) (ph_filesz ph) s) (\<lambda>r s.
                if r < 0 then Ok None s else load_segments dv ip pgdir off' k sz s)))"

text \<open>The loop that pushes the arguments; it delivers the stack pointer and their addresses.\<close>

fun push_args ::
    "nat \<Rightarrow> nat \<Rightarrow> nat \<Rightarrow> byte list list \<Rightarrow> 'a kmem_scheme \<Rightarrow> ((nat \<times> nat list) option, 'a kmem_scheme) kres" where
  "push_args pgdir argc sp [] s = Ok (Some (sp, [])) s"
| "push_args pgdir argc sp (a # argv) s =
     (if argc \<ge> MAXARG then Ok None s
      else
        let sp = usub sp (length a + 1) div 4 * 4
        in kbind (copyout pgdir sp (a @ [0]) s) (\<lambda>r s.
             if r < 0 then Ok None s
             else kbind (push_args pgdir (argc + 1) sp argv s) (\<lambda>r s.
               Ok (map_option (\<lambda>(sp', ps). (sp', sp # ps)) r) s)))"

definition last_elem :: "byte list \<Rightarrow> byte list" where
  "last_elem path = rev (takeWhile (\<lambda>c. c \<noteq> SLASH) (rev path))"

definition exec_bad :: "nat \<Rightarrow> nat option \<Rightarrow> 'a kfs_scheme \<Rightarrow> (int, 'a kfs_scheme) kres" where
  "exec_bad pgdir ip s =
     kbind (if pgdir \<noteq> 0 then freevm pgdir s else Ok () s) (\<lambda>_ s.
     kbind (case ip of None \<Rightarrow> Ok () s | Some ip \<Rightarrow> kbind (iunlockput ip s) (\<lambda>_ s. end_op s)) (\<lambda>_ s.
     Ok (-1) s))"

text \<open>From the allocation of the stack on; \<open>lwp\<close> is \<open>islwpgroup\<close>.\<close>

definition exec_commit ::
    "nat \<Rightarrow> bool \<Rightarrow> byte list \<Rightarrow> byte list list \<Rightarrow> nat \<Rightarrow> nat \<Rightarrow> nat \<Rightarrow> 'a kfs_scheme \<Rightarrow> (int, 'a kfs_scheme) kres" where
  "exec_commit cur lwp path argv entry pgdir sz s =
     kbind (allocuvm pgdir (PGROUNDUP sz) (uadd (PGROUNDUP sz) (2 * PGSIZE)) s) (\<lambda>sz s.
       if sz = 0 then exec_bad pgdir None s
       else
         kbind (clearpteu pgdir (usub sz (2 * PGSIZE)) s) (\<lambda>_ s.
         kbind (push_args pgdir 0 sz argv s) (\<lambda>r s.
           case r of
             None \<Rightarrow> exec_bad pgdir None s
           | Some (sp, ps) \<Rightarrow>
               let argc = length argv;
                   ustack = [0xffffffff, argc, usub sp ((argc + 1) * 4)] @ ps @ [0];
                   sp = usub sp ((3 + argc + 1) * 4)
               in kbind (copyout pgdir sp (concat (map (\<lambda>w. word_bytes (of_nat w)) ustack)) s) (\<lambda>r s.
                    if r < 0 then exec_bad pgdir None s
                    else
                      let oldpgdir = p_pgdir (the_proc s cur);
                          s = upd_proc cur (\<lambda>x. x\<lparr>p_name := copy_name (p_name x) (last_elem path),
                                p_pgdir := pgdir, p_sz := sz,
                                p_tf := (p_tf x)\<lparr>tf_eip := of_nat entry, tf_esp := of_nat sp\<rparr>\<rparr>) s
                      in kbind (switchuvm cur s) (\<lambda>_ s.
                         kbind (if lwp then Ok () s else freevm oldpgdir s) (\<lambda>_ s. Ok 0 s))))))"

definition exec ::
    "'a kfs_scheme devsw \<Rightarrow> byte list \<Rightarrow> byte list list \<Rightarrow> 'a kfs_scheme \<Rightarrow> (int, 'a kfs_scheme) kres" where
  "exec dv path argv s =
     with_cur s (\<lambda>cur.
     let lwp = p_isthread (the_proc s cur)
     in kbind (if lwp then
                 case p_mother (the_proc s cur) of
                   None \<Rightarrow> Fault (Undefined ''thread without a mother'')
                 | Some m \<Rightarrow> kbind (kill_lwpgroup (p_pid (the_proc s m)) cur s) (\<lambda>_ s. Ok () s)
               else Ok () s) (\<lambda>_ s.
        kbind (begin_op s) (\<lambda>_ s.
        kbind (namei dv path s) (\<lambda>r s.
          case r of
            None \<Rightarrow> fail_op s
          | Some ip \<Rightarrow>
              kbind (ilock ip s) (\<lambda>_ s.
              kbind (readi dv ip 0 ELFHDR s) (\<lambda>(bs, r) s.
                if r \<noteq> int ELFHDR then exec_bad 0 (Some ip) s
                else
                  let elf = elfhdr_of bs
                  in if e_magic elf \<noteq> ELF_MAGIC then exec_bad 0 (Some ip) s
                     else
                       kbind (setupkvm s) (\<lambda>pgdir s.
                         if pgdir = 0 then exec_bad 0 (Some ip) s
                         else
                           kbind (load_segments dv ip pgdir (e_phoff elf) (e_phnum elf) 0 s) (\<lambda>r s.
                             case r of
                               None \<Rightarrow> exec_bad pgdir (Some ip) s
                             | Some sz \<Rightarrow>
                                 kbind (iunlockput ip s) (\<lambda>_ s.
                                 kbind (end_op s) (\<lambda>_ s.
                                   exec_commit cur lwp path argv (e_entry elf) pgdir sz s))))))))))"

section \<open>sys_exec\<close>

text \<open>The loop over \<open>argv\<close>, \<open>k\<close> entries of the array left.\<close>

fun fetch_args :: "nat \<Rightarrow> nat \<Rightarrow> nat \<Rightarrow> 'a kmem_scheme \<Rightarrow> (byte list list option, 'a kmem_scheme) kres" where
  "fetch_args uargv i 0 s = Ok None s"
| "fetch_args uargv i (Suc k) s =
     kbind (fetchint (uadd uargv (4 * i)) s) (\<lambda>r s.
       case r of
         None \<Rightarrow> Ok None s
       | Some uarg \<Rightarrow>
           if uarg = 0 then Ok (Some []) s
           else kbind (fetchstr (unat uarg) s) (\<lambda>r s.
             case r of
               None \<Rightarrow> Ok None s
             | Some a \<Rightarrow> kbind (fetch_args uargv (i + 1) k s) (\<lambda>r s. Ok (map_option ((#) a) r) s)))"

definition sys_exec :: "'a kfile_scheme devsw \<Rightarrow> 'a kfile_scheme \<Rightarrow> (int, 'a kfile_scheme) kres" where
  "sys_exec dv s =
     or_fail (argstr 0 s) (\<lambda>path s.
     or_fail (argword 1 s) (\<lambda>uargv s.
     or_fail (fetch_args (unat uargv) 0 MAXARG s) (\<lambda>argv s. exec dv path argv s)))"

end
