(* ===== verification/Console.thy ===== *)
theory Console
  imports Exec
begin

text \<open>
  The console (\<open>console.c\<close>), the keyboard (\<open>kbd.c\<close>, \<open>kbd.h\<close>) and the serial line (\<open>uart.c\<close>): line
  editing in a ring of \<open>INPUT_BUF\<close> bytes between the read, write and edit counters, the text
  screen, and number formatting. Bytes that the hardware delivers are arguments, characters sent
  to the serial port are recorded in \<open>uart_out\<close>, the last one first.
\<close>

section \<open>Data\<close>

definition INPUT_BUF :: nat where [kconst]: "INPUT_BUF = 128"
definition BACKSPACE :: nat where [kconst]: "BACKSPACE = 0x100"
definition CONSOLE :: int where [kconst]: "CONSOLE = 1"
definition NEWLINE :: byte where [kconst]: "NEWLINE = 10"
definition CTRL_D :: byte where [kconst]: "CTRL_D = 4"

record kcons = ksys +
  in_buf :: "byte list"
  in_r :: u32
  in_w :: u32
  in_e :: u32
  crt :: "nat \<Rightarrow> 16 word"
  crt_pos :: nat
  uart_out :: "byte list"
  kbd_shift :: byte

section \<open>Keyboard\<close>

definition CTL :: byte where [kconst]: "CTL = 2"
definition SHIFT :: byte where [kconst]: "SHIFT = 1"
definition ALT :: byte where [kconst]: "ALT = 4"
definition CAPSLOCK :: byte where [kconst]: "CAPSLOCK = 8"
definition NUMLOCK :: byte where [kconst]: "NUMLOCK = 16"
definition SCROLLLOCK :: byte where [kconst]: "SCROLLLOCK = 32"
definition E0ESC :: byte where [kconst]: "E0ESC = 64"

definition shiftcode :: "nat \<Rightarrow> byte" where
  "shiftcode d =
     (case map_of [(0x1D, CTL), (0x2A, SHIFT), (0x36, SHIFT), (0x38, ALT), (0x9D, CTL), (0xB8, ALT)] d of
        None \<Rightarrow> 0 | Some c \<Rightarrow> c)"

definition togglecode :: "nat \<Rightarrow> byte" where
  "togglecode d =
     (case map_of [(0x3A, CAPSLOCK), (0x45, NUMLOCK), (0x46, SCROLLLOCK)] d of None \<Rightarrow> 0 | Some c \<Rightarrow> c)"

definition normalmap :: "nat list" where
  "normalmap =
     [0, 27, 49, 50, 51, 52, 53, 54, 55, 56, 57, 48, 45, 61, 8, 9,
      113, 119, 101, 114, 116, 121, 117, 105, 111, 112, 91, 93, 10, 0, 97, 115,
      100, 102, 103, 104, 106, 107, 108, 59, 39, 96, 0, 92, 122, 120, 99, 118,
      98, 110, 109, 44, 46, 47, 0, 42, 0, 32, 0, 0, 0, 0, 0, 0,
      0, 0, 0, 0, 0, 0, 0, 55, 56, 57, 45, 52, 53, 54, 43, 49,
      50, 51, 48, 46, 0, 0, 0, 0]"

definition shiftmap :: "nat list" where
  "shiftmap =
     [0, 27, 33, 64, 35, 36, 37, 94, 38, 42, 40, 41, 95, 43, 8, 9,
      81, 87, 69, 82, 84, 89, 85, 73, 79, 80, 123, 125, 10, 0, 65, 83,
      68, 70, 71, 72, 74, 75, 76, 58, 34, 126, 0, 124, 90, 88, 67, 86,
      66, 78, 77, 60, 62, 63, 0, 42, 0, 32, 0, 0, 0, 0, 0, 0,
      0, 0, 0, 0, 0, 0, 0, 55, 56, 57, 45, 52, 53, 54, 43, 49,
      50, 51, 48, 46, 0, 0, 0, 0]"

definition ctlmap :: "nat list" where
  "ctlmap =
     [0, 0, 0, 0, 0, 0, 0, 0, 0, 0, 0, 0, 0, 0, 0, 0,
      17, 23, 5, 18, 20, 25, 21, 9, 15, 16, 0, 0, 13, 0, 1, 19,
      4, 6, 7, 8, 10, 11, 12, 0, 0, 0, 0, 28, 26, 24, 3, 22,
      2, 14, 13, 0, 0, 239, 0, 0]"

definition keypad :: "(nat \<times> nat) list" where
  "keypad = [(156, 10), (181, 47), (200, 226), (208, 227), (201, 230), (209, 231), (203, 228), (205, 229), (151, 224), (207, 225), (210, 232), (211, 233)]"

definition ctl_keypad :: "(nat \<times> nat) list" where
  "ctl_keypad = [(156, 13), (181, 239), (200, 226), (208, 227), (201, 230), (209, 231), (203, 228), (205, 229), (151, 224), (207, 225), (210, 232), (211, 233)]"

definition charcode :: "byte \<Rightarrow> nat \<Rightarrow> nat" where
  "charcode sh d =
     (let (base, ext) = (if sh AND CTL \<noteq> 0 then (ctlmap, ctl_keypad)
                         else if sh AND SHIFT \<noteq> 0 then (shiftmap, keypad) else (normalmap, keypad))
      in if d < length base then base ! d else case map_of ext d of None \<Rightarrow> 0 | Some c \<Rightarrow> c)"

text \<open>\<open>kbdgetc\<close> after it has found a byte of data: the character and the new modifier state.\<close>

definition kbdgetc :: "byte \<Rightarrow> byte \<Rightarrow> nat \<times> byte" where
  "kbdgetc shift data =
     (if data = 0xE0 then (0, shift OR E0ESC)
      else if data AND 0x80 \<noteq> 0 then
        let data = (if shift AND E0ESC \<noteq> 0 then data else data AND 0x7F)
        in (0, shift AND NOT (shiftcode (unat data) OR E0ESC))
      else
        let (data, shift) = (if shift AND E0ESC \<noteq> 0 then (data OR 0x80, shift AND NOT E0ESC) else (data, shift));
            shift = shift OR shiftcode (unat data);
            shift = shift XOR togglecode (unat data);
            c = charcode shift (unat data);
            c = (if shift AND CAPSLOCK \<noteq> 0 then
                   if 97 \<le> c \<and> c \<le> 122 then c - 32 else if 65 \<le> c \<and> c \<le> 90 then c + 32 else c
                 else c)
        in (c, shift))"

fun kbd_chars :: "byte \<Rightarrow> byte list \<Rightarrow> nat list \<times> byte" where
  "kbd_chars shift [] = ([], shift)"
| "kbd_chars shift (d # ds) =
     (let (c, shift) = kbdgetc shift d; (cs, shift) = kbd_chars shift ds in (c # cs, shift))"

section \<open>Output\<close>

text \<open>\<open>cgaputc\<close>: the cursor position is read from the controller, whose registers hold 16 bits.\<close>

definition cga_move :: "nat \<Rightarrow> 'a kcons_scheme \<Rightarrow> 'a kcons_scheme" where
  "cga_move c s =
     (let pos = crt_pos s
      in if c = 10 then s\<lparr>crt_pos := pos + (80 - pos mod 80)\<rparr>
         else if c = BACKSPACE then s\<lparr>crt_pos := pos - 1\<rparr>
         else s\<lparr>crt := (crt s)(pos := of_nat (c mod 256) OR 0x0700), crt_pos := pos + 1\<rparr>)"

definition cga_scroll :: "'a kcons_scheme \<Rightarrow> 'a kcons_scheme" where
  "cga_scroll s =
     (if crt_pos s div 80 \<ge> 24 then
        let m = (\<lambda>i. if i < 23 * 80 then crt s (i + 80) else crt s i);
            pos = crt_pos s - 80;
            m = (\<lambda>i. if pos \<le> i \<and> i < 24 * 80 then 0 else m i)
        in s\<lparr>crt := m, crt_pos := pos\<rparr>
      else s)"

definition cgaputc :: "nat \<Rightarrow> 'a kcons_scheme \<Rightarrow> (unit, 'a kcons_scheme) kres" where
  "cgaputc c s =
     (let s = cga_move c s
      in if crt_pos s > 25 * 80 then panic ''pos under/overflow''
         else
           let s = cga_scroll s
           in Ok () (s\<lparr>crt := (crt s)(crt_pos s := 32 OR 0x0700)\<rparr>))"

definition uartputc :: "byte \<Rightarrow> 'a kcons_scheme \<Rightarrow> 'a kcons_scheme" where
  "uartputc c s = s\<lparr>uart_out := c # uart_out s\<rparr>"

definition consputc :: "nat \<Rightarrow> 'a kcons_scheme \<Rightarrow> (unit, 'a kcons_scheme) kres" where
  "consputc c s =
     cgaputc c (if c = BACKSPACE then uartputc 8 (uartputc 32 (uartputc 8 s)) else uartputc (of_nat c) s)"

fun consputs :: "nat list \<Rightarrow> 'a kcons_scheme \<Rightarrow> (unit, 'a kcons_scheme) kres" where
  "consputs [] s = Ok () s"
| "consputs (c # cs) s = kbind (consputc c s) (\<lambda>_ s. consputs cs s)"

section \<open>Formatting\<close>

text \<open>The characters \<open>printint\<close> prints: the digits of the 32-bit number, most significant first.\<close>

definition digit :: "nat \<Rightarrow> nat" where
  "digit k = (if k < 10 then 48 + k else 87 + k)"

function digits :: "nat \<Rightarrow> nat \<Rightarrow> nat list" where
  "digits base x =
     (if base < 2 then [] else if x div base = 0 then [digit (x mod base)]
      else digits base (x div base) @ [digit (x mod base)])"
  by pat_completeness auto
termination
  by (relation "measure (\<lambda>(base, x). x)") (auto simp: div_eq_0_iff)

declare digits.simps [simp del]

definition printint :: "u32 \<Rightarrow> nat \<Rightarrow> bool \<Rightarrow> nat list" where
  "printint xx base sg =
     (if sg \<and> sint xx < 0 then 45 # digits base (unat (- xx)) else digits base (unat xx))"

datatype farg = Word u32 | Str "byte list option"

text \<open>
  \<open>cprintf\<close>: the characters printed for a format and the arguments that follow it; \<open>None\<close> when
  the format asks for an argument that was not passed.
\<close>

definition emit :: "nat list \<Rightarrow> nat list option \<Rightarrow> nat list option" where
  "emit cs r = map_option ((@) cs) r"

fun cprintf :: "nat list \<Rightarrow> farg list \<Rightarrow> nat list option" where
  "cprintf [] args = Some []"
| "cprintf [c] args = (if c = 37 then Some [] else Some [c])"
| "cprintf (c # d # fmt) args =
     (if c \<noteq> 37 then emit [c] (cprintf (d # fmt) args)
      else if d = 100 then
        case args of Word w # as \<Rightarrow> emit (printint w 10 True) (cprintf fmt as) | _ \<Rightarrow> None
      else if d = 120 \<or> d = 112 then
        case args of Word w # as \<Rightarrow> emit (printint w 16 False) (cprintf fmt as) | _ \<Rightarrow> None
      else if d = 115 then
        case args of
          Str None # as \<Rightarrow> emit [40, 110, 117, 108, 108, 41] (cprintf fmt as)
        | Str (Some x) # as \<Rightarrow> emit (map unat x) (cprintf fmt as)
        | _ \<Rightarrow> None
      else if d = 37 then emit [37] (cprintf fmt args)
      else emit [37, d] (cprintf fmt args))"

section \<open>Input\<close>

text \<open>How many characters control-U erases.\<close>

function kill_count :: "byte list \<Rightarrow> u32 \<Rightarrow> u32 \<Rightarrow> nat" where
  "kill_count buf e w =
     (if e \<noteq> w \<and> buf ! (unat (e - 1) mod INPUT_BUF) \<noteq> NEWLINE then Suc (kill_count buf (e - 1) w) else 0)"
  by pat_completeness auto
termination
proof (relation "measure (\<lambda>(buf, e, w). unat (e - w))", goal_cases)
  case (2 buf e w)
  then have "e - w \<noteq> 0" by simp
  then have "unat (e - w - 1) < unat (e - w)" by (simp add: unat_minus_one unat_gt_0)
  then show ?case by (simp add: algebra_simps)
qed simp

declare kill_count.simps [simp del]

fun erase :: "nat \<Rightarrow> 'a kcons_scheme \<Rightarrow> (unit, 'a kcons_scheme) kres" where
  "erase 0 s = Ok () s"
| "erase (Suc n) s = kbind (consputc BACKSPACE (s\<lparr>in_e := in_e s - 1\<rparr>)) (\<lambda>_ s. erase n s)"

definition input_char :: "byte \<Rightarrow> 'a kcons_scheme \<Rightarrow> (unit, 'a kcons_scheme) kres" where
  "input_char c s =
     (if c \<noteq> 0 \<and> unat (in_e s - in_r s) < INPUT_BUF then
        let c = (if c = 13 then NEWLINE else c);
            s = s\<lparr>in_buf := (in_buf s)[unat (in_e s) mod INPUT_BUF := c], in_e := in_e s + 1\<rparr>
        in kbind (consputc (unat c) s) (\<lambda>_ s.
             if c = NEWLINE \<or> c = CTRL_D \<or> in_e s = in_r s + of_nat INPUT_BUF
             then wakeup ChInput (s\<lparr>in_w := in_e s\<rparr>) else Ok () s)
      else Ok () s)"

text \<open>One round of the loop of \<open>consoleintr\<close>. Control-P only prints a process listing.\<close>

definition console_char :: "nat \<Rightarrow> 'a kcons_scheme \<Rightarrow> (unit, 'a kcons_scheme) kres" where
  "console_char c s =
     (if c = 16 then Ok () s
      else if c = 21 then erase (kill_count (in_buf s) (in_e s) (in_w s)) s
      else if c = 8 \<or> c = 127 then if in_e s \<noteq> in_w s then erase 1 s else Ok () s
      else input_char (of_nat c) s)"

fun console_chars :: "nat list \<Rightarrow> 'a kcons_scheme \<Rightarrow> (unit, 'a kcons_scheme) kres" where
  "console_chars [] s = Ok () s"
| "console_chars (c # cs) s = kbind (console_char c s) (\<lambda>_ s. console_chars cs s)"

definition consoleintr :: "nat list \<Rightarrow> 'a kcons_scheme \<Rightarrow> (unit, 'a kcons_scheme) kres" where
  "consoleintr cs s =
     kbind (acquire ConsLock s) (\<lambda>_ s. kbind (console_chars cs s) (\<lambda>_ s. release ConsLock s))"

definition kbdintr :: "byte list \<Rightarrow> 'a kcons_scheme \<Rightarrow> (unit, 'a kcons_scheme) kres" where
  "kbdintr ds s =
     (let (cs, shift) = kbd_chars (kbd_shift s) ds in consoleintr cs (s\<lparr>kbd_shift := shift\<rparr>))"

definition uartintr :: "byte list \<Rightarrow> 'a kcons_scheme \<Rightarrow> (unit, 'a kcons_scheme) kres" where
  "uartintr ds s = consoleintr (map unat ds) s"

section \<open>The device\<close>

text \<open>
  \<open>consoleread\<close> from the head of its loop on, the lock held, with \<open>n\<close> bytes wanted and \<open>acc\<close>
  delivered.
\<close>

definition cons_done :: "nat \<Rightarrow> byte list \<Rightarrow> int \<Rightarrow> 'a kcons_scheme \<Rightarrow> (byte list \<times> int, 'a kcons_scheme) kres" where
  "cons_done ip acc r s =
     kbind (release ConsLock s) (\<lambda>_ s. kbind (ilock ip s) (\<lambda>_ s. Ok (acc, r) s))"

fun cons_read_loop ::
    "nat \<Rightarrow> nat \<Rightarrow> nat \<Rightarrow> byte list \<Rightarrow> 'a kcons_scheme \<Rightarrow> (byte list \<times> int, 'a kcons_scheme) kres" where
  "cons_read_loop ip target 0 acc s = cons_done ip acc (int target) s"
| "cons_read_loop ip target (Suc n) acc s =
     (if in_r s = in_w s then
        with_cur s (\<lambda>p.
          if p_killed (the_proc s p) then cons_done ip acc (-1) s else sleep ChInput ConsLock s)
      else
        let c = in_buf s ! (unat (in_r s) mod INPUT_BUF)
        in if c = CTRL_D then
             cons_done ip acc (int target - int (Suc n))
               (if Suc n < target then s else s\<lparr>in_r := in_r s + 1\<rparr>)
           else if c = NEWLINE then
             cons_done ip (acc @ [c]) (int target - int n) (s\<lparr>in_r := in_r s + 1\<rparr>)
           else cons_read_loop ip target n (acc @ [c]) (s\<lparr>in_r := in_r s + 1\<rparr>))"

definition consoleread :: "nat \<Rightarrow> nat \<Rightarrow> 'a kcons_scheme \<Rightarrow> (byte list \<times> int, 'a kcons_scheme) kres" where
  "consoleread ip n s =
     kbind (iunlock ip s) (\<lambda>_ s. kbind (acquire ConsLock s) (\<lambda>_ s. cons_read_loop ip n n [] s))"

definition consoleread_resume ::
    "nat \<Rightarrow> nat \<Rightarrow> nat \<Rightarrow> byte list \<Rightarrow> 'a kcons_scheme \<Rightarrow> (byte list \<times> int, 'a kcons_scheme) kres" where
  "consoleread_resume ip target n acc s =
     kbind (sleep_resume ConsLock s) (\<lambda>_ s. cons_read_loop ip target n acc s)"

definition consolewrite :: "nat \<Rightarrow> byte list \<Rightarrow> 'a kcons_scheme \<Rightarrow> (int, 'a kcons_scheme) kres" where
  "consolewrite ip buf s =
     kbind (iunlock ip s) (\<lambda>_ s.
     kbind (acquire ConsLock s) (\<lambda>_ s.
     kbind (consputs (map unat buf) s) (\<lambda>_ s.
     kbind (release ConsLock s) (\<lambda>_ s.
     kbind (ilock ip s) (\<lambda>_ s. Ok (int (length buf)) s)))))"

text \<open>The device table after \<open>consoleinit\<close>.\<close>

definition console_devsw :: "'a kcons_scheme devsw" where
  "console_devsw =
     \<lparr>dev_read = (\<lambda>m. if m = CONSOLE then Some consoleread else None),
      dev_write = (\<lambda>m. if m = CONSOLE then Some consolewrite else None)\<rparr>"

end
