(* ===== verification/Trap.thy ===== *)
theory Trap
  imports Sysproc Console
begin

text \<open>
  Dispatch of system calls (\<open>syscall\<close> of \<open>syscall.c\<close>) and of traps (\<open>trap.c\<close>). The bytes that the
  keyboard and the serial port hold when they interrupt, and the number of the CPU, are arguments.
\<close>

section \<open>System calls\<close>

definition ret :: "('s \<Rightarrow> (int, 's) kres) \<Rightarrow> 's \<Rightarrow> (outcome, 's) kres" where
  "ret f s = kbind (f s) (\<lambda>r s. Ok (Ret r) s)"

definition syscalls ::
    "(int \<times> ('a kcons_scheme \<Rightarrow> (outcome, 'a kcons_scheme) kres)) list" where
  "syscalls =
     [(1, ret sys_fork), (2, sys_exit), (3, ret sys_wait), (4, ret sys_pipe),
      (5, ret (sys_read console_devsw)), (6, ret sys_kill), (7, ret (sys_exec console_devsw)),
      (8, ret sys_fstat), (9, ret (sys_chdir console_devsw)), (10, ret sys_dup), (11, ret sys_getpid),
      (12, ret sys_sbrk), (13, ret sys_sleep), (14, ret sys_uptime), (15, ret (sys_open console_devsw)),
      (16, ret (sys_write console_devsw)), (17, ret (sys_mknod console_devsw)),
      (18, ret (sys_unlink console_devsw)), (19, ret (sys_link console_devsw)),
      (20, ret (sys_mkdir console_devsw)), (21, ret sys_close), (22, ret sys_my_syscall),
      (23, ret sys_getppid), (24, sys_my_yield), (25, sys_yield), (26, ret sys_getlev),
      (27, ret sys_set_cpu_share), (28, ret sys_thread_create), (29, sys_thread_exit),
      (30, ret sys_thread_join), (31, ret sys_xem_init), (32, sys_xem_wait), (33, sys_xem_unlock),
      (34, ret sys_rwlock_init), (35, sys_rwlock_acquire_readlock), (36, sys_rwlock_release_readlock),
      (37, sys_rwlock_acquire_writelock), (38, sys_rwlock_release_writelock),
      (39, ret (sys_pwrite console_devsw)), (40, ret (sys_pread console_devsw))]"

definition set_eax :: "nat \<Rightarrow> int \<Rightarrow> 'a kbase_scheme \<Rightarrow> 'a kbase_scheme" where
  "set_eax p v s = upd_proc p (\<lambda>x. x\<lparr>p_tf := (p_tf x)\<lparr>tf_eax := of_int v\<rparr>\<rparr>) s"

definition syscall :: "'a kcons_scheme \<Rightarrow> (outcome, 'a kcons_scheme) kres" where
  "syscall s =
     with_cur s (\<lambda>p.
       let num = sint (tf_eax (p_tf (the_proc s p)))
       in case map_of syscalls num of
            None \<Rightarrow> Ok (Ret (-1)) (set_eax p (-1) s)
          | Some f \<Rightarrow> kbind (f s) (\<lambda>r s.
              case r of Ret v \<Rightarrow> Ok r (set_eax p v s) | _ \<Rightarrow> Ok r s))"

section \<open>Traps\<close>

text \<open>\<open>Back\<close>: \<open>trap\<close> returns to what it interrupted. \<open>Away\<close>: the process gave up the CPU inside it.\<close>

datatype trapend = Back | Away outcome

record hardware =
  hw_cpu :: nat
  hw_kbd :: "byte list"
  hw_uart :: "byte list"

definition T_SYSCALL :: nat where [kconst]: "T_SYSCALL = 64"
definition T_IRQ0 :: nat where [kconst]: "T_IRQ0 = 32"

definition exit_if_killed :: "bool \<Rightarrow> 'a kfile_scheme \<Rightarrow> (trapend, 'a kfile_scheme) kres" where
  "exit_if_killed user s =
     (case curproc s of
        None \<Rightarrow> Ok Back s
      | Some p \<Rightarrow>
          if p_killed (the_proc s p) \<and> user then kbind (exit s) (\<lambda>r s. Ok (Away (Leaving r)) s)
          else Ok Back s)"

text \<open>\<open>ideintr\<close> of \<open>memide.c\<close> does nothing.\<close>

definition ideintr :: "'a kbio_scheme \<Rightarrow> (unit, 'a kbio_scheme) kres" where
  "ideintr s = Ok () s"

definition timer_tick :: "nat \<Rightarrow> 'a kbase_scheme \<Rightarrow> (unit, 'a kbase_scheme) kres" where
  "timer_tick cpu s =
     (if cpu = 0 then
        kbind (acquire TicksLock s) (\<lambda>_ s.
        kbind (wakeup ChTicks (s\<lparr>ticks := uadd (ticks s) 1\<rparr>)) (\<lambda>_ s. release TicksLock s))
      else Ok () s)"

text \<open>The \<open>switch\<close> over the trap number, with \<open>lapiceoi\<close> left out.\<close>

definition trap_device :: "hardware \<Rightarrow> trapframe \<Rightarrow> 'a kcons_scheme \<Rightarrow> (unit, 'a kcons_scheme) kres" where
  "trap_device hw tf s =
     (let no = unat (tf_trapno tf)
      in if no = T_IRQ0 then timer_tick (hw_cpu hw) s
         else if no = T_IRQ0 + 14 then ideintr s
         else if no = T_IRQ0 + 15 then Ok () s
         else if no = T_IRQ0 + 1 then kbdintr (hw_kbd hw) s
         else if no = T_IRQ0 + 4 then uartintr (hw_uart hw) s
         else if no = T_IRQ0 + 7 \<or> no = T_IRQ0 + 31 then Ok () s
         else case curproc s of
           None \<Rightarrow> panic ''trap''
         | Some p \<Rightarrow>
             if tf_cs tf AND 3 = 0 then panic ''trap''
             else Ok () (upd_proc p (p_killed_update (\<lambda>_. True)) s))"

text \<open>The end of \<open>trap\<close>, which is also where a preempted process goes on.\<close>

definition trap_resume :: "trapframe \<Rightarrow> 'a kfile_scheme \<Rightarrow> (trapend, 'a kfile_scheme) kres" where
  "trap_resume tf s = kbind (yield_resume s) (\<lambda>_ s. exit_if_killed (tf_cs tf AND 3 = 3) s)"

definition trap_syscall :: "trapframe \<Rightarrow> 'a kcons_scheme \<Rightarrow> (trapend, 'a kcons_scheme) kres" where
  "trap_syscall tf s =
     with_cur s (\<lambda>p.
     kbind (exit_if_killed True s) (\<lambda>r s.
       case r of
         Away o1 \<Rightarrow> Ok r s
       | Back \<Rightarrow>
           kbind (syscall (upd_proc p (p_tf_update (\<lambda>_. tf)) s)) (\<lambda>r s.
             case r of Ret _ \<Rightarrow> exit_if_killed True s | _ \<Rightarrow> Ok (Away r) s)))"

definition trap :: "hardware \<Rightarrow> trapframe \<Rightarrow> 'a kcons_scheme \<Rightarrow> (trapend, 'a kcons_scheme) kres" where
  "trap hw tf s =
     (if unat (tf_trapno tf) = T_SYSCALL then trap_syscall tf s
      else
        kbind (trap_device hw tf s) (\<lambda>_ s.
        kbind (exit_if_killed (tf_cs tf AND 3 = 3) s) (\<lambda>r s.
          case r of
            Away o1 \<Rightarrow> Ok r s
          | Back \<Rightarrow>
              if (case curproc s of None \<Rightarrow> False | Some p \<Rightarrow> p_state (the_proc s p) = RUNNING)
                 \<and> unat (tf_trapno tf) = T_IRQ0
              then kbind (yield s) (\<lambda>_ s. Ok (Away Yielded) s)
              else exit_if_killed (tf_cs tf AND 3 = 3) s)))"

end
