(* ===== verification/Grep.thy ===== *)
theory Grep
  imports Xv6_Prelude
begin

text \<open>
  The \<open>grep\<close> command (\<open>grep.c\<close>): the regular expression matcher, against a declarative meaning of
  patterns, and the loop that splits the input into lines. A C string is the list of its
  characters before the terminating zero.
\<close>

abbreviation NUL :: char where "NUL \<equiv> CHR 0x00"

abbreviation NL :: char where "NL \<equiv> CHR 0x0A"

section \<open>Matcher\<close>

text \<open>
  \<open>matchhere\<close> and the loop of \<open>matchstar\<close>, which tries the rest of the pattern at every position
  that the starred character lets it reach.
\<close>

fun matchhere :: "string \<Rightarrow> string \<Rightarrow> bool" and matchstar :: "char \<Rightarrow> string \<Rightarrow> string \<Rightarrow> bool" where
  "matchhere re tx =
     (case re of
        [] \<Rightarrow> True
      | c # re1 \<Rightarrow>
          if re1 \<noteq> [] \<and> hd re1 = CHR ''*'' then matchstar c (tl re1) tx
          else if c = CHR ''$'' \<and> re1 = [] then tx = []
          else
            case tx of
              [] \<Rightarrow> False
            | x # tx1 \<Rightarrow> if c = CHR ''.'' \<or> c = x then matchhere re1 tx1 else False)"
| "matchstar c re tx =
     (if matchhere re tx then True
      else
        case tx of
          [] \<Rightarrow> False
        | x # tx1 \<Rightarrow> if x = c \<or> c = CHR ''.'' then matchstar c re tx1 else False)"

declare matchhere.simps [simp del] matchstar.simps [simp del]

text \<open>The \<open>do\<close> loop of \<open>match\<close>, which also looks at the empty string.\<close>

fun match_from :: "string \<Rightarrow> string \<Rightarrow> bool" where
  "match_from re [] = matchhere re []"
| "match_from re (x # tx) = (if matchhere re (x # tx) then True else match_from re tx)"

definition match :: "string \<Rightarrow> string \<Rightarrow> bool" where
  "match re tx =
     (case re of
        c # re1 \<Rightarrow> if c = CHR ''^'' then matchhere re1 tx else match_from re tx
      | [] \<Rightarrow> match_from re tx)"

section \<open>Lines\<close>

text \<open>
  \<open>strchr(p, '\n')\<close> on a buffer whose bytes are \<open>p\<close>, followed by a zero: the characters before the
  first newline and those behind it, unless a zero comes first.
\<close>

fun split_line :: "string \<Rightarrow> (string \<times> string) option" where
  "split_line [] = None"
| "split_line (x # p) =
     (if x = NUL then None
      else if x = NL then Some ([], p)
      else case split_line p of None \<Rightarrow> None | Some (l, r) \<Rightarrow> Some (x # l, r))"

lemma split_line_append: "split_line p = Some (l, r) \<Longrightarrow> p = l @ NL # r \<and> NL \<notin> set l"
  by (induction p arbitrary: l r) (auto split: if_splits option.splits)

text \<open>The inner loop: what is written, and the tail of the buffer behind the last line.\<close>

function grep_lines :: "string \<Rightarrow> string \<Rightarrow> string \<times> string" where
  "grep_lines pat p =
     (case split_line p of
        None \<Rightarrow> ([], p)
      | Some (l, r) \<Rightarrow>
          let (out, rest) = grep_lines pat r
          in ((if match pat l then l @ [NL] else []) @ out, rest))"
  by pat_completeness auto
termination
  by (relation "measure (\<lambda>(pat, p). length p)") (auto dest: split_line_append)

declare grep_lines.simps [simp del]

text \<open>
  The outer loop over the successive results of \<open>read\<close>, with \<open>m\<close> bytes in the buffer. When the
  buffer held no complete line its content is dropped.
\<close>

fun grep :: "string \<Rightarrow> string \<Rightarrow> string list \<Rightarrow> string" where
  "grep pat m [] = []"
| "grep pat m (d # ds) =
     (if d = [] then []
      else
        let (out, rest) = grep_lines pat (m @ d)
        in out @ grep pat (if rest = m @ d then [] else rest) ds)"

section \<open>Meaning of patterns\<close>

datatype item = One char | Rep char | Eol

text \<open>A star binds to the character before it; a dollar sign is special only at the end.\<close>

fun items :: "string \<Rightarrow> item list" where
  "items [] = []"
| "items [c] = [if c = CHR ''$'' then Eol else One c]"
| "items (c # d # re) = (if d = CHR ''*'' then Rep c # items re else One c # items (d # re))"

definition fits :: "char \<Rightarrow> char \<Rightarrow> bool" where
  "fits c x \<longleftrightarrow> c = CHR ''.'' \<or> c = x"

text \<open>The items match \<open>u\<close> where \<open>v\<close> follows.\<close>

fun accepts :: "item list \<Rightarrow> string \<Rightarrow> string \<Rightarrow> bool" where
  "accepts [] u v \<longleftrightarrow> u = []"
| "accepts (One c # is) u v \<longleftrightarrow> (\<exists>x u'. u = x # u' \<and> fits c x \<and> accepts is u' v)"
| "accepts (Rep c # is) u v \<longleftrightarrow> (\<exists>u1 u2. u = u1 @ u2 \<and> list_all (fits c) u1 \<and> accepts is u2 v)"
| "accepts (Eol # is) u v \<longleftrightarrow> u = [] \<and> v = [] \<and> accepts is [] []"

lemma star_split:
  "(\<exists>u1 u2 v. x # tx = u1 @ u2 @ v \<and> list_all (fits c) u1 \<and> P u2 v)
    \<longleftrightarrow> (\<exists>u2 v. x # tx = u2 @ v \<and> P u2 v)
      \<or> fits c x \<and> (\<exists>u1 u2 v. tx = u1 @ u2 @ v \<and> list_all (fits c) u1 \<and> P u2 v)"
proof -
  have "(\<exists>u1 u2 v. x # tx = u1 @ u2 @ v \<and> list_all (fits c) u1 \<and> P u2 v)
    \<longleftrightarrow> (\<exists>u2 v. x # tx = u2 @ v \<and> P u2 v)
      \<or> (\<exists>y u1 u2 v. x # tx = (y # u1) @ u2 @ v \<and> list_all (fits c) (y # u1) \<and> P u2 v)"
    by (metis append_Nil list.exhaust list.pred_inject(1))
  then show ?thesis by auto
qed

lemma star_join:
  "(\<exists>u1 u2 v. tx = u1 @ u2 @ v \<and> A u1 \<and> P u2 v) \<longleftrightarrow> (\<exists>u v. tx = u @ v \<and> (\<exists>u1 u2. u = u1 @ u2 \<and> A u1 \<and> P u2 v))"
  by (metis append_assoc)

lemma one_split:
  "(\<exists>u v. x # tx = u @ v \<and> (\<exists>y u'. u = y # u' \<and> fits c y \<and> P u' v)) \<longleftrightarrow> fits c x \<and> (\<exists>u v. tx = u @ v \<and> P u v)"
  "(\<exists>u v. [] = u @ v \<and> (\<exists>y u'. u = y # u' \<and> fits c y \<and> P u' v)) \<longleftrightarrow> False"
  by (auto simp: Cons_eq_append_conv)

lemma matchhere_accepts:
  "matchhere re tx \<longleftrightarrow> (\<exists>u v. tx = u @ v \<and> accepts (items re) u v)"
  "matchstar c re tx \<longleftrightarrow> (\<exists>u1 u2 v. tx = u1 @ u2 @ v \<and> list_all (fits c) u1 \<and> accepts (items re) u2 v)"
proof (induction re tx and c re tx rule: matchhere_matchstar.induct)
  case (1 re tx)
  show ?case
  proof (cases re rule: items.cases)
    case 1 then show ?thesis by (simp add: matchhere.simps)
  next
    case (2 c)
    have e: "matchhere [] tx'" for tx' by (subst matchhere.simps) simp
    have "(\<exists>u v. x # tx1 = u @ v \<and> (\<exists>y. u = [y] \<and> fits c y)) \<longleftrightarrow> fits c x" for x tx1
      using one_split(1) [of x tx1 c "\<lambda>u' v. u' = []"] by simp
    then show ?thesis using 2 e by (cases tx) (simp_all add: matchhere.simps [of "[c]"] fits_def [symmetric])
  next
    case (3 c d re1)
    show ?thesis
    proof (cases "d = CHR ''*''")
      case True
      then show ?thesis using 3 "1.IH"(1) [of c "d # re1"]
        by (subst matchhere.simps) (simp add: star_join)
    next
      case False
      then show ?thesis using 3 "1.IH"(2) [of c "d # re1"]
        by (cases tx) (auto simp: matchhere.simps [of "c # d # re1"] fits_def Cons_eq_append_conv)
    qed
  qed
next
  case (2 c re tx)
  show ?case
  proof (cases tx)
    case Nil then show ?thesis using "2.IH"(1) by (simp add: matchstar.simps [of c re "[]"])
  next
    case (Cons x tx1)
    have f: "(x = c \<or> c = CHR ''.'') \<longleftrightarrow> fits c x" by (auto simp: fits_def)
    have "matchstar c re tx \<longleftrightarrow> matchhere re tx \<or> fits c x \<and> matchstar c re tx1"
      by (subst matchstar.simps) (simp add: Cons f)
    then show ?thesis using "2.IH" Cons unfolding Cons star_split by (auto simp: f)
  qed
qed

lemma match_from_matchhere: "match_from re tx \<longleftrightarrow> (\<exists>w t. tx = w @ t \<and> matchhere re t)"
proof (induction tx)
  case (Cons x tx)
  have "(\<exists>w t. x # tx = w @ t \<and> matchhere re t)
    \<longleftrightarrow> matchhere re (x # tx) \<or> (\<exists>w t. tx = w @ t \<and> matchhere re t)"
    by (auto simp: Cons_eq_append_conv)
  then show ?case using Cons.IH by simp
qed simp

section \<open>Complete lines\<close>

text \<open>The complete lines of a text, the characters \<open>acc\<close> of the current one already read.\<close>

fun text_lines :: "string \<Rightarrow> string \<Rightarrow> string list" where
  "text_lines acc [] = []"
| "text_lines acc (x # s) = (if x = NL then acc # text_lines [] s else text_lines (acc @ [x]) s)"

definition print_lines :: "string list \<Rightarrow> string" where
  "print_lines ls = concat (map (\<lambda>l. l @ [NL]) ls)"

lemma text_lines_none: "NL \<notin> set s \<Longrightarrow> text_lines acc s = []"
  by (induction s arbitrary: acc) auto

lemma text_lines_some: "NL \<notin> set l \<Longrightarrow> text_lines acc (l @ NL # r) = (acc @ l) # text_lines [] r"
  by (induction l arbitrary: acc) auto

lemma split_line_None: "NUL \<notin> set p \<Longrightarrow> split_line p = None \<longleftrightarrow> NL \<notin> set p"
  by (induction p) (auto split: option.splits)

lemma grep_lines_print:
  assumes "NUL \<notin> set p"
  shows "fst (grep_lines pat p) = print_lines (filter (match pat) (text_lines [] p))"
    "NL \<notin> set (snd (grep_lines pat p))" "set (snd (grep_lines pat p)) \<subseteq> set p"
    "text_lines [] (p @ q) = text_lines [] p @ text_lines [] (snd (grep_lines pat p) @ q)"
    "snd (grep_lines pat p) = p \<longleftrightarrow> NL \<notin> set p"
proof -
  have "fst (grep_lines pat p) = print_lines (filter (match pat) (text_lines [] p))
    \<and> NL \<notin> set (snd (grep_lines pat p)) \<and> set (snd (grep_lines pat p)) \<subseteq> set p
    \<and> text_lines [] (p @ q) = text_lines [] p @ text_lines [] (snd (grep_lines pat p) @ q)"
    using assms
  proof (induction pat p rule: grep_lines.induct)
    case (1 pat p)
    show ?case
    proof (cases "split_line p")
      case None
      then have "NL \<notin> set p" using "1.prems" split_line_None by blast
      with None show ?thesis by (simp add: grep_lines.simps [of pat p] text_lines_none print_lines_def)
    next
      case (Some lr)
      obtain l r where lr: "lr = (l, r)" by force
      have p: "p = l @ NL # r" "NL \<notin> set l" using split_line_append Some lr by blast+
      have "NUL \<notin> set r" using "1.prems" p(1) by simp
      note IH = "1.IH" [OF Some lr [symmetric] this]
      have g: "grep_lines pat p = ((if match pat l then l @ [NL] else []) @ fst (grep_lines pat r), snd (grep_lines pat r))"
        using Some lr by (simp add: grep_lines.simps [of pat p] split_beta)
      show ?thesis using IH p(2) unfolding g by (auto simp: p(1) text_lines_some print_lines_def)
    qed
  qed
  then show "fst (grep_lines pat p) = print_lines (filter (match pat) (text_lines [] p))"
    and n: "NL \<notin> set (snd (grep_lines pat p))" and "set (snd (grep_lines pat p)) \<subseteq> set p"
    and "text_lines [] (p @ q) = text_lines [] p @ text_lines [] (snd (grep_lines pat p) @ q)" by blast+
  show "snd (grep_lines pat p) = p \<longleftrightarrow> NL \<notin> set p"
    using n split_line_None [OF assms] by (auto simp: grep_lines.simps [of pat p])
qed

lemma grep_print:
  assumes "NUL \<notin> set m" "NL \<notin> set m" and "\<forall>d \<in> set ds. NUL \<notin> set d" and "\<forall>d \<in> set (butlast ds). NL \<in> set d"
  shows "grep pat m ds = print_lines (filter (match pat) (text_lines [] (m @ concat ds)))"
  using assms
proof (induction ds arbitrary: m)
  case Nil then show ?case by (simp add: text_lines_none print_lines_def)
next
  case (Cons d ds)
  let ?r = "snd (grep_lines pat (m @ d))"
  have "NUL \<notin> set (m @ d)" using Cons.prems by simp
  note g = grep_lines_print [where pat = pat, OF this]
  have print_append: "print_lines (xs @ ys) = print_lines xs @ print_lines ys" for xs ys by (simp add: print_lines_def)
  show ?case
  proof (cases "ds = []")
    case True
    then show ?thesis using g(1) Cons.prems(1,2) by (cases "d = []") (simp_all add: split_beta text_lines_none print_lines_def)
  next
    case False
    then have d: "NL \<in> set d" "d \<noteq> []" using Cons.prems(4) by auto
    have "grep pat ?r ds = print_lines (filter (match pat) (text_lines [] (?r @ concat ds)))"
      by (rule Cons.IH) (use Cons.prems False g(2,3) in auto)
    moreover have "grep pat m (d # ds) = fst (grep_lines pat (m @ d)) @ grep pat ?r ds"
      using d g(5) by (simp add: split_beta)
    ultimately show ?thesis using g(1) g(4) [where q = "concat ds"] by (simp add: print_append)
  qed
qed

section \<open>Properties\<close>

text \<open>
  C19: The matcher finds exactly the occurrences its operators describe: a pattern that starts with
  \<open>^\<close> must match at the start of the text, any other one at some position; a character matches
  itself, a dot every character, a starred one any number of repetitions, and a final dollar sign
  the end of the text.
\<close>

theorem match_correct:
  "match re tx \<longleftrightarrow>
     (if re \<noteq> [] \<and> hd re = CHR ''^'' then \<exists>u v. tx = u @ v \<and> accepts (items (tl re)) u v
      else \<exists>w u v. tx = w @ u @ v \<and> accepts (items re) u v)"
  by (cases re) (auto simp: match_def match_from_matchhere matchhere_accepts)

text \<open>
  C29: When every read but the last delivers at least one newline, and the input has no zero bytes,
  the buffered loop writes exactly the complete lines of the whole input that match, in order,
  however the reads cut the lines.
\<close>

theorem grep_prints_matching_lines:
  assumes "\<forall>d \<in> set ds. NUL \<notin> set d" and "\<forall>d \<in> set (butlast ds). NL \<in> set d"
  shows "grep pat [] ds = print_lines (filter (match pat) (text_lines [] (concat ds)))"
  using grep_print [of "[]" ds] assms by simp

theorem grep_prints_matching_lines_witness:
  "grep ''a*b'' [] [''ab'' @ [NL] @ ''x'', ''ab'' @ [NL] @ ''cc'' @ [NL]] = ''ab'' @ [NL] @ ''xab'' @ [NL]"
proof -
  have "grep ''a*b'' [] [''ab'' @ [NL] @ ''x'', ''ab'' @ [NL] @ ''cc'' @ [NL]]
    = print_lines (filter (match ''a*b'') (text_lines [] (concat [''ab'' @ [NL] @ ''x'', ''ab'' @ [NL] @ ''cc'' @ [NL]])))"
    by (rule grep_prints_matching_lines) simp_all
  moreover have "match ''a*b'' ''ab''" "match ''a*b'' ''xab''" "\<not> match ''a*b'' ''cc''" by code_simp+
  ultimately show ?thesis by (simp add: print_lines_def)
qed

text \<open>
  C39: A first read that delivers no newline is lost. However the rest of the input arrives, its first
  line is tested and written without the bytes \<open>d\<close> of that read, where the input's line is \<open>d @ l\<close>;
  the other lines are treated as they should be.
\<close>

theorem grep_drops_partial_line:
  assumes "d \<noteq> []" "NL \<notin> set d" "\<forall>e \<in> set (d # ds). NUL \<notin> set e" "\<forall>e \<in> set (butlast ds). NL \<in> set e"
    and "concat ds = l @ NL # r" "NL \<notin> set l"
  shows "grep pat [] (d # ds) = print_lines (filter (match pat) (l # text_lines [] r))
    \<and> text_lines [] (concat (d # ds)) = (d @ l) # text_lines [] r"
proof
  have "split_line d = None" using assms(2,3) split_line_None [of d] by simp
  then have "grep pat [] (d # ds) = grep pat [] ds" using assms(1) by (simp add: grep_lines.simps [of pat d])
  also have "\<dots> = print_lines (filter (match pat) (text_lines [] (concat ds)))"
    using grep_print [of "[]" ds] assms(3,4) by simp
  finally show "grep pat [] (d # ds) = print_lines (filter (match pat) (l # text_lines [] r))"
    using assms(6) by (simp add: assms(5) text_lines_some)
  show "text_lines [] (concat (d # ds)) = (d @ l) # text_lines [] r"
    using text_lines_some [of "d @ l" "[]" r] assms(2,6) by (simp add: assms(5))
qed

theorem grep_drops_partial_line_witness:
  "grep ''abc'' [] [''ab'', ''c'' @ [NL]] = [] \<and> text_lines [] (''ab'' @ ''c'' @ [NL]) = [''abc''] \<and> match ''abc'' ''abc''"
proof -
  have "\<not> match ''abc'' ''c''" "match ''abc'' ''abc''" by code_simp+
  then show ?thesis
    using grep_drops_partial_line [of "''ab''" "[''c'' @ [NL]]" "''c''" "[]" "''abc''"]
    by (simp add: print_lines_def)
qed

end
