(* ===== verification/Sh.thy ===== *)
theory Sh
  imports Xv6_Prelude "HOL-Library.Sublist"
begin

text \<open>
  The command parser of the shell (\<open>sh.c\<close>). A pointer into the command line is the text from it to
  the terminating zero. Allocation is taken to succeed, as the code does not check it.
\<close>

section \<open>Commands\<close>

type_synonym tok = "string \<times> string"

text \<open>
  The words of a command are of a type of their own: pointers (\<open>tok\<close>) in the parser's result, strings
  in a printed command. An error carries what \<open>panic\<close> and the parser write to the standard error before
  the shell's child exits; \<open>NoFuel\<close> is an error of the model only, and does not occur.
\<close>

datatype 'w cmd =
    ExecC "'w list"
  | RedirC "'w cmd" 'w int int
  | PipeC "'w cmd" "'w cmd"
  | ListC "'w cmd" "'w cmd"
  | BackC "'w cmd"

datatype perr = Panic string | NoFuel

definition shpanic :: "string \<Rightarrow> perr" where
  "shpanic m = Panic (m @ [CHR 0x0A])"

definition MAXARGS :: nat where [kconst]: "MAXARGS = 10"

section \<open>Tokens\<close>

definition is_space :: "char \<Rightarrow> bool" where
  "is_space c \<longleftrightarrow> c \<in> set ([CHR '' '', CHR 0x09, CHR 0x0D, CHR 0x0A, CHR 0x0B])"

definition is_symbol :: "char \<Rightarrow> bool" where
  "is_symbol c \<longleftrightarrow> c \<in> set ''<|>&;()''"

abbreviation word_char :: "char \<Rightarrow> bool" where
  "word_char c \<equiv> \<not> is_space c \<and> \<not> is_symbol c"

definition skip :: "string \<Rightarrow> string" where
  "skip s = dropWhile is_space s"

text \<open>The \<open>switch\<close> of \<open>gettoken\<close>: the kind of the token at \<open>q\<close> and its end.\<close>

fun token_end :: "string \<Rightarrow> char \<times> string" where
  "token_end [] = (CHR 0x00, [])"
| "token_end (c # r) =
     (if c \<in> set ''|();&<'' then (c, r)
      else if c = CHR ''>'' then
        if r \<noteq> [] \<and> hd r = CHR ''>'' then (CHR ''+'', tl r) else (c, r)
      else (CHR ''a'', dropWhile word_char (c # r)))"

text \<open>The kind, the pointers \<open>q\<close> and \<open>eq\<close>, and the new position.\<close>

definition gettoken :: "string \<Rightarrow> char \<times> tok \<times> string" where
  "gettoken s = (let q = skip s; (ret, e) = token_end q in (ret, (q, e), skip e))"

text \<open>\<open>peek\<close> also moves the position to the first character that is not white space.\<close>

definition peek :: "string \<Rightarrow> string \<Rightarrow> bool" where
  "peek s toks \<longleftrightarrow> (case skip s of [] \<Rightarrow> False | c # _ \<Rightarrow> c \<in> set toks)"

abbreviation kind :: "char \<times> tok \<times> string \<Rightarrow> char" where
  "kind g \<equiv> fst g"

abbreviation ptrs :: "char \<times> tok \<times> string \<Rightarrow> tok" where
  "ptrs g \<equiv> fst (snd g)"

abbreviation after :: "char \<times> tok \<times> string \<Rightarrow> string" where
  "after g \<equiv> snd (snd g)"

lemma skip_length [simp]: "length (skip s) \<le> length s"
  by (simp add: skip_def length_dropWhile_le)

lemma skip_Nil [simp]: "skip [] = []"
  by (simp add: skip_def)

lemma skip_skip [simp]: "skip (skip s) = skip s"
  by (simp add: skip_def)

lemma token_end_length:
  assumes "q \<noteq> []" and "\<not> is_space (hd q)" shows "length (snd (token_end q)) < length q"
proof (cases q)
  case (Cons c r)
  have "length (dropWhile P r) \<le> length r" for P by (rule length_dropWhile_le)
  then show ?thesis using Cons assms(2) by (auto simp: is_symbol_def less_Suc_eq_le le_SucI)
qed (use assms(1) in simp)

lemma skip_head: "skip s \<noteq> [] \<Longrightarrow> \<not> is_space (hd (skip s))"
  by (simp add: skip_def hd_dropWhile del: dropWhile_eq_Nil_conv)

lemma gettoken_shorter: "skip s \<noteq> [] \<Longrightarrow> length (after (gettoken s)) < length s"
proof -
  assume n: "skip s \<noteq> []"
  have "after (gettoken s) = skip (snd (token_end (skip s)))" by (simp add: gettoken_def Let_def split_beta)
  then show ?thesis
    using token_end_length [OF n skip_head [OF n]] skip_length [of "snd (token_end (skip s))"] skip_length [of s]
    by (simp del: skip_length)
qed

lemma gettoken_empty: "skip s = [] \<Longrightarrow> gettoken s = (CHR 0x00, ([], []), [])"
  by (simp add: gettoken_def)

lemma gettoken_length: "length (after (gettoken s)) \<le> length s"
  using gettoken_shorter [of s] by (cases "skip s = []") (simp_all add: gettoken_empty)

lemma gettoken_kind: "kind (gettoken s) \<noteq> CHR 0x00 \<Longrightarrow> skip s \<noteq> []"
  using gettoken_empty [of s] by auto

lemma peek_skip: "peek s cs \<Longrightarrow> skip s \<noteq> []"
  by (cases "skip s") (simp_all add: peek_def)

text \<open>
  A word token of a text: its pointers delimit a non-empty run of word characters of the text that a
  white space, a symbol or the end follows.
\<close>

definition is_word :: "string \<Rightarrow> bool" where
  "is_word w \<longleftrightarrow> w \<noteq> [] \<and> (\<forall>c\<in>set w. word_char c)"

definition stops :: "string \<Rightarrow> bool" where
  "stops e \<longleftrightarrow> e = [] \<or> is_space (hd e) \<or> is_symbol (hd e)"

definition word_of :: "tok \<Rightarrow> string" where
  "word_of t = take (length (fst t) - length (snd t)) (fst t)"

definition word_tok :: "string \<Rightarrow> tok \<Rightarrow> bool" where
  "word_tok s t \<longleftrightarrow> suffix (fst t) s \<and> fst t = word_of t @ snd t \<and> is_word (word_of t) \<and> stops (snd t)"

lemma word_tok_mono: "\<lbrakk>word_tok s t; suffix s u\<rbrakk> \<Longrightarrow> word_tok u t"
  unfolding word_tok_def using suffix_order.trans by blast

lemma skip_suffix: "suffix (skip s) s"
  by (simp add: skip_def suffix_dropWhile)

lemma token_end_suffix: "suffix (snd (token_end q)) q"
  by (cases q) (auto simp: suffix_dropWhile suffix_Cons suffix_tl)

lemma gettoken_suffix: "suffix (after (gettoken s)) s"
proof -
  have "after (gettoken s) = skip (snd (token_end (skip s)))" by (simp add: gettoken_def Let_def split_beta)
  then show ?thesis
    using suffix_order.trans [OF skip_suffix suffix_order.trans [OF token_end_suffix skip_suffix]] by simp
qed

lemma take_length_takeWhile: "take (length (takeWhile P xs)) xs = takeWhile P xs"
  by (induction xs) auto

lemma word_of_dropWhile: "word_of (q, dropWhile P q) = takeWhile P q"
  using take_length_takeWhile [of P q] length_append [of "takeWhile P q" "dropWhile P q"]
  by (simp add: word_of_def)

lemma token_end_a:
  assumes "fst (token_end q) = CHR ''a''" and "\<not> is_space (hd q)"
  shows "q \<noteq> []" "word_char (hd q)" "snd (token_end q) = dropWhile word_char q"
  using assms by (cases q; force simp: is_symbol_def split: if_splits)+

lemma is_word_takeWhile: "\<lbrakk>q \<noteq> []; word_char (hd q)\<rbrakk> \<Longrightarrow> is_word (takeWhile word_char q)"
  unfolding is_word_def by (cases q) (auto dest: set_takeWhileD)

lemma stops_dropWhile: "stops (dropWhile word_char q)"
  unfolding stops_def using hd_dropWhile [of word_char q] by blast

lemma token_end_word:
  assumes "fst (token_end q) = CHR ''a''" "\<not> is_space (hd q)"
  shows "is_word (word_of (q, snd (token_end q)))" "q = word_of (q, snd (token_end q)) @ snd (token_end q)"
    "stops (snd (token_end q))"
  using is_word_takeWhile [OF token_end_a(1,2) [OF assms]] stops_dropWhile
  by (simp_all only: token_end_a(3) [OF assms] word_of_dropWhile takeWhile_dropWhile_id)

lemma gettoken_word:
  assumes "kind (gettoken s) = CHR ''a''" shows "word_tok s (ptrs (gettoken s))"
proof -
  have n: "skip s \<noteq> []" using gettoken_kind [of s] assms by simp
  have k: "fst (token_end (skip s)) = CHR ''a''" using assms by (simp add: gettoken_def Let_def split_beta)
  have p: "ptrs (gettoken s) = (skip s, snd (token_end (skip s)))" by (simp add: gettoken_def Let_def split_beta)
  show ?thesis unfolding p word_tok_def
    using token_end_word [OF k skip_head [OF n]] skip_suffix [of s] by simp
qed

lemmas peek_shorter = gettoken_shorter [OF peek_skip]

section \<open>Simple commands\<close>

text \<open>
  \<open>parseredirs\<close>: the redirections at the position, in order, and the position behind them. Each
  wraps the command parsed so far (\<open>redirs\<close>). \<open>O_RDONLY\<close> is 0 and \<open>O_WRONLY|O_CREATE\<close> is \<open>0x201\<close>.
\<close>

type_synonym redir = "tok \<times> int \<times> int"

function parseredirs :: "string \<Rightarrow> perr + (redir list \<times> string)" where
  "parseredirs s =
     (if peek s ''<>'' then
        let g = gettoken s; h = gettoken (after g)
        in if kind h \<noteq> CHR ''a'' then Inl (shpanic ''missing file for redirection'')
           else
             let r = (if kind g = CHR ''<'' then (ptrs h, 0, 0) else (ptrs h, 0x201, 1))
             in case parseredirs (after h) of Inl e \<Rightarrow> Inl e | Inr (rs, t) \<Rightarrow> Inr (r # rs, t)
      else Inr ([], skip s))"
  by pat_completeness auto
termination
proof (relation "measure length", goal_cases)
  case (2 s g h r)
  then show ?case using le_less_trans [OF gettoken_length peek_shorter [OF 2(1)]] by simp
qed simp

declare parseredirs.simps [simp del]

definition redirs :: "('w \<times> int \<times> int) list \<Rightarrow> 'w cmd \<Rightarrow> 'w cmd" where
  "redirs rs c = foldl (\<lambda>c (f, mode, fd). RedirC c f mode fd) c rs"

lemma parseredirs_good:
  "parseredirs s = Inr (rs, t) \<Longrightarrow> suffix t s \<and> (\<forall>r\<in>set rs. word_tok s (fst r))"
proof (induction s arbitrary: rs t rule: parseredirs.induct)
  case (1 s)
  show ?case
  proof (cases "peek s ''<>''")
    case True
    let ?s = "after (gettoken s)"
    let ?h = "gettoken ?s"
    from 1(2) True obtain rs' where k: "kind ?h = CHR ''a''" and r: "parseredirs (after ?h) = Inr (rs', t)"
      and rs: "\<forall>r\<in>set rs. r \<in> set rs' \<or> fst r = ptrs ?h"
      by (subst (asm) parseredirs.simps) (auto simp: Let_def split: if_splits sum.splits)
    have h: "suffix (after ?h) s" using gettoken_suffix gettoken_suffix by (rule suffix_order.trans)
    from 1(1) [OF True refl refl _ refl r] k
    have "suffix t (after ?h)" "\<forall>r\<in>set rs'. word_tok (after ?h) (fst r)" by simp_all
    then show ?thesis
      using rs word_tok_mono [OF _ h] word_tok_mono [OF gettoken_word [OF k] gettoken_suffix] suffix_order.trans [OF _ h]
      by metis
  next
    case False
    then show ?thesis using 1(2) skip_suffix by (subst (asm) parseredirs.simps) auto
  qed
qed

lemmas parseredirs_length = suffix_length_le [OF conjunct1 [OF parseredirs_good]]

text \<open>
  The loop of \<open>parseexec\<close>, \<open>argc\<close> words being stored: the words, the redirections among them and the
  position at which it stops.
\<close>

function parseargs :: "nat \<Rightarrow> string \<Rightarrow> perr + (tok list \<times> redir list \<times> string)" where
  "parseargs argc s =
     (if peek s ''|)&;'' then Inr ([], [], skip s)
      else
        let g = gettoken s
        in if kind g = CHR 0x00 then Inr ([], [], after g)
           else if kind g \<noteq> CHR ''a'' then Inl (shpanic ''syntax'')
           else if MAXARGS \<le> argc + 1 then Inl (shpanic ''too many args'')
           else case parseredirs (after g) of
             Inl e \<Rightarrow> Inl e
           | Inr (rs, t) \<Rightarrow>
               (case parseargs (argc + 1) t of
                  Inl e \<Rightarrow> Inl e
                | Inr (as, rs', u) \<Rightarrow> Inr (ptrs g # as, rs @ rs', u)))"
  by pat_completeness auto
termination
proof (relation "measure (length \<circ> snd)", goal_cases)
  case (2 n s g y rs t)
  then show ?case using parseredirs_length [of "after g" rs t] gettoken_shorter [OF gettoken_kind, of s] by simp
qed simp

declare parseargs.simps [simp del]

lemma parseargs_good:
  "parseargs n s = Inr (as, rs, t) \<Longrightarrow>
    suffix t s \<and> (\<forall>a\<in>set as. word_tok s a) \<and> (\<forall>r\<in>set rs. word_tok s (fst r)) \<and> n + length as < max MAXARGS (n + 1)"
proof (induction n s arbitrary: as rs t rule: parseargs.induct)
  case (1 n s)
  show ?case
  proof (cases "peek s ''|)&;'' \<or> kind (gettoken s) = CHR 0x00")
    case True
    then show ?thesis using 1(2) gettoken_suffix [of s] skip_suffix [of s]
      by (subst (asm) parseargs.simps) (auto simp: Let_def split: if_splits)
  next
    case False
    let ?g = "gettoken s"
    from 1(2) False obtain q u as' rs' where k: "kind ?g = CHR ''a''" "\<not> MAXARGS \<le> n + 1"
      and r: "parseredirs (after ?g) = Inr (q, u)" and a: "parseargs (n + 1) u = Inr (as', rs', t)"
      and eq: "as = ptrs ?g # as'" "rs = q @ rs'"
      by (subst (asm) parseargs.simps) (auto simp: Let_def split: if_splits sum.splits)
    from False have p: "\<not> peek s ''|)&;''" "kind ?g \<noteq> CHR 0x00" by auto
    have i: "suffix t u \<and> (\<forall>a\<in>set as'. word_tok u a) \<and> (\<forall>r\<in>set rs'. word_tok u (fst r)) \<and>
        n + 1 + length as' < max MAXARGS (n + 1 + 1)"
      by (rule 1(1) [OF p(1) refl _ _ _ r refl a]) (use p k in auto)
    have u: "suffix u s" and q: "\<forall>r\<in>set q. word_tok s (fst r)"
      using parseredirs_good [OF r] suffix_order.trans [OF _ gettoken_suffix [of s]]
        word_tok_mono [OF _ gettoken_suffix [of s]] by auto
    show ?thesis using i q k gettoken_word [OF k(1)] suffix_order.trans [OF _ u] word_tok_mono [OF _ u]
      by (auto simp: eq)
  qed
qed

section \<open>Compound commands\<close>

text \<open>The loop of \<open>parseline\<close> over the ampersands.\<close>

function backs :: "tok cmd \<Rightarrow> string \<Rightarrow> tok cmd \<times> string" where
  "backs c s = (if peek s ''&'' then backs (BackC c) (after (gettoken s)) else (c, skip s))"
  by pat_completeness auto
termination
  by (relation "measure (length \<circ> snd)") (auto intro: peek_shorter)

declare backs.simps [simp del]

text \<open>
  The mutually recursive parsers, with a bound \<open>n\<close> on the depth of their calls. Every second call at
  the least consumes a token, so that a bound linear in the text is never reached (\<open>parser_total\<close>).
\<close>

fun parseline :: "nat \<Rightarrow> string \<Rightarrow> perr + (tok cmd \<times> string)"
and parsepipe :: "nat \<Rightarrow> string \<Rightarrow> perr + (tok cmd \<times> string)"
and parseexec :: "nat \<Rightarrow> string \<Rightarrow> perr + (tok cmd \<times> string)"
and parseblock :: "nat \<Rightarrow> string \<Rightarrow> perr + (tok cmd \<times> string)" where
  "parseline 0 s = Inl NoFuel"
| "parseline (Suc n) s =
     (case parsepipe n s of
        Inl e \<Rightarrow> Inl e
      | Inr (c, t) \<Rightarrow>
          (case backs c t of (d, u) \<Rightarrow>
             if peek u '';'' then
               case parseline n (after (gettoken u)) of
                 Inl e \<Rightarrow> Inl e
               | Inr (c', v) \<Rightarrow> Inr (ListC d c', v)
             else Inr (d, skip u)))"
| "parsepipe 0 s = Inl NoFuel"
| "parsepipe (Suc n) s =
     (case parseexec n s of
        Inl e \<Rightarrow> Inl e
      | Inr (c, t) \<Rightarrow>
          if peek t ''|'' then
            case parsepipe n (after (gettoken t)) of
              Inl e \<Rightarrow> Inl e
            | Inr (d, u) \<Rightarrow> Inr (PipeC c d, u)
          else Inr (c, skip t))"
| "parseexec 0 s = Inl NoFuel"
| "parseexec (Suc n) s =
     (if peek s ''('' then parseblock n s
      else case parseredirs s of
        Inl e \<Rightarrow> Inl e
      | Inr (rs, t) \<Rightarrow>
          (case parseargs 0 t of
             Inl e \<Rightarrow> Inl e
           | Inr (as, rs', u) \<Rightarrow> Inr (redirs (rs @ rs') (ExecC as), u)))"
| "parseblock 0 s = Inl NoFuel"
| "parseblock (Suc n) s =
     (if \<not> peek s ''('' then Inl (shpanic ''parseblock'')
      else case parseline n (after (gettoken s)) of
        Inl e \<Rightarrow> Inl e
      | Inr (c, t) \<Rightarrow>
          if \<not> peek t '')'' then Inl (shpanic ''syntax - missing )'')
          else case parseredirs (after (gettoken t)) of
            Inl e \<Rightarrow> Inl e
          | Inr (rs, u) \<Rightarrow> Inr (redirs rs c, u))"

text \<open>\<open>nulterminate\<close> writes a zero behind every word. \<open>L\<close> is the length of the command line.\<close>

definition terminate_tok :: "nat \<Rightarrow> tok \<Rightarrow> string \<Rightarrow> string" where
  "terminate_tok L t buf = buf[L - length (snd t) := CHR 0x00]"

primrec nulterminate :: "nat \<Rightarrow> tok cmd \<Rightarrow> string \<Rightarrow> string" where
  "nulterminate L (ExecC as) buf = fold (terminate_tok L) as buf"
| "nulterminate L (RedirC c f mode fd) buf = terminate_tok L f (nulterminate L c buf)"
| "nulterminate L (PipeC l r) buf = nulterminate L r (nulterminate L l buf)"
| "nulterminate L (ListC l r) buf = nulterminate L r (nulterminate L l buf)"
| "nulterminate L (BackC c) buf = nulterminate L c buf"

definition cstring :: "string \<Rightarrow> string" where
  "cstring buf = takeWhile (\<lambda>c. c \<noteq> CHR 0x00) buf"

definition parsecmd :: "string \<Rightarrow> perr + (tok cmd \<times> string)" where
  "parsecmd buf =
     (let s = cstring buf
      in case parseline (4 * length s + 4) s of
        Inl e \<Rightarrow> Inl e
      | Inr (c, t) \<Rightarrow>
          if skip t \<noteq> [] then Inl (shpanic (''leftovers: '' @ skip t @ [CHR 0x0A] @ ''syntax''))
          else Inr (c, nulterminate (length s) c buf))"

section \<open>The parser returns\<close>

lemma backs_good:
  "backs c s = (d, t) \<Longrightarrow> suffix t s \<and> set_cmd d = set_cmd c"
proof (induction c s rule: backs.induct)
  case (1 c s)
  then show ?case using skip_suffix suffix_order.trans [OF _ gettoken_suffix [of s]]
    by (subst (asm) (2) backs.simps) (auto split: if_splits)
qed

lemma set_redirs: "set_cmd (redirs rs c) = set_cmd c \<union> fst ` set rs"
  by (induction rs arbitrary: c) (auto simp: redirs_def)

text \<open>
  What the parsers promise of a text: they do not run out of depth, stop behind what they read, and
  return a command over words of the text whose argument vectors have room for the zero behind them.
\<close>

primrec args_ok :: "'w cmd \<Rightarrow> bool" where
  "args_ok (ExecC as) \<longleftrightarrow> length as < MAXARGS"
| "args_ok (RedirC c f mode fd) \<longleftrightarrow> args_ok c"
| "args_ok (PipeC l r) \<longleftrightarrow> args_ok l \<and> args_ok r"
| "args_ok (ListC l r) \<longleftrightarrow> args_ok l \<and> args_ok r"
| "args_ok (BackC c) \<longleftrightarrow> args_ok c"

definition parsed :: "string \<Rightarrow> perr + (tok cmd \<times> string) \<Rightarrow> bool" where
  "parsed s r \<longleftrightarrow>
     (case r of
        Inl e \<Rightarrow> e \<noteq> NoFuel
      | Inr (c, t) \<Rightarrow> suffix t s \<and> args_ok c \<and> (\<forall>a\<in>set_cmd c. word_tok s a))"

lemma parsed_Inr: "parsed s (Inr (c, t)) \<longleftrightarrow> suffix t s \<and> args_ok c \<and> (\<forall>a\<in>set_cmd c. word_tok s a)"
  by (simp add: parsed_def)

lemma parsed_Inl: "parsed s (Inl e) \<longleftrightarrow> e \<noteq> NoFuel"
  by (simp add: parsed_def)

lemma parsed_cases [consumes 1, case_names err ok]:
  assumes "parsed s r" and "\<And>e. \<lbrakk>r = Inl e; e \<noteq> NoFuel\<rbrakk> \<Longrightarrow> P"
    and "\<And>c t. \<lbrakk>r = Inr (c, t); suffix t s; args_ok c; \<forall>a\<in>set_cmd c. word_tok s a\<rbrakk> \<Longrightarrow> P"
  shows P
  using assms by (cases r) (auto simp: parsed_def)

lemma parsed_mono: "\<lbrakk>parsed s r; suffix s u\<rbrakk> \<Longrightarrow> parsed u r"
  by (erule parsed_cases) (auto simp: parsed_Inl parsed_Inr word_tok_mono suffix_order.trans)

lemma parseredirs_error: "parseredirs s = Inl e \<Longrightarrow> e \<noteq> NoFuel"
proof (induction s rule: parseredirs.induct)
  case (1 s)
  from 1(2) show ?case
    by (subst (asm) parseredirs.simps)
      (auto simp: Let_def shpanic_def split: if_splits sum.splits dest: 1(1) [OF _ refl refl _ refl])
qed

lemma parseargs_error: "parseargs n s = Inl e \<Longrightarrow> e \<noteq> NoFuel"
proof (induction n s rule: parseargs.induct)
  case (1 n s)
  from 1(2) show ?case
    by (subst (asm) parseargs.simps)
      (auto simp: Let_def shpanic_def parseredirs_error split: if_splits sum.splits
        dest: 1(1) [OF _ refl _ _ _ _ refl])
qed

lemma args_ok_redirs [simp]: "args_ok (redirs rs c) = args_ok c"
  by (induction rs arbitrary: c) (simp_all add: redirs_def split_beta)

lemma args_ok_backs: "backs c s = (d, t) \<Longrightarrow> args_ok d = args_ok c"
proof (induction c s rule: backs.induct)
  case (1 c s)
  then show ?case by (subst (asm) (2) backs.simps) (auto split: if_splits)
qed

lemma suffix_shorter: "\<lbrakk>suffix t s; peek t cs\<rbrakk> \<Longrightarrow> length (after (gettoken t)) < length s"
  using peek_shorter [of t cs] suffix_length_le [of t s] by simp

lemma suffix_after: "suffix t s \<Longrightarrow> suffix (after (gettoken t)) s"
  using suffix_order.trans [OF gettoken_suffix] .

lemma parseline_step:
  assumes p: "parsed s (parsepipe n s)" and l: "\<And>u. length u < length s \<Longrightarrow> parsed u (parseline n u)"
  shows "parsed s (parseline (Suc n) s)"
  using p
proof (cases rule: parsed_cases)
  case (ok c t)
  obtain d u where b: "backs c t = (d, u)" by (cases "backs c t")
  have u: "suffix u s" using backs_good [OF b] ok(2) suffix_order.trans by blast
  show ?thesis
  proof (cases "peek u '';''")
    case True
    have "parsed s (parseline n (after (gettoken u)))"
      by (rule parsed_mono [OF l [OF suffix_shorter [OF u True]] suffix_after [OF u]])
    then show ?thesis
      by (cases rule: parsed_cases)
        (use ok b backs_good [OF b] args_ok_backs [OF b] True in \<open>auto simp: parsed_Inr parsed_Inl\<close>)
  next
    case False
    then show ?thesis using ok b backs_good [OF b] args_ok_backs [OF b] suffix_order.trans [OF skip_suffix u]
      by (auto simp: parsed_Inr)
  qed
qed (simp add: parsed_Inl)

lemma parsepipe_step:
  assumes p: "parsed s (parseexec n s)" and l: "\<And>u. length u < length s \<Longrightarrow> parsed u (parsepipe n u)"
  shows "parsed s (parsepipe (Suc n) s)"
  using p
proof (cases rule: parsed_cases)
  case (ok c t)
  show ?thesis
  proof (cases "peek t ''|''")
    case True
    have "parsed s (parsepipe n (after (gettoken t)))"
      by (rule parsed_mono [OF l [OF suffix_shorter [OF ok(2) True]] suffix_after [OF ok(2)]])
    then show ?thesis
      by (cases rule: parsed_cases) (use ok True in \<open>auto simp: parsed_Inr parsed_Inl\<close>)
  next
    case False
    then show ?thesis using ok suffix_order.trans [OF skip_suffix ok(2)] by (auto simp: parsed_Inr)
  qed
qed (simp add: parsed_Inl)

lemma parseexec_step:
  assumes p: "parsed s (parseblock n s)" shows "parsed s (parseexec (Suc n) s)"
proof (cases "peek s ''('' \<or> isl (parseredirs s)")
  case True
  then show ?thesis using p parseredirs_error [of s] by (auto simp: parsed_Inl split: sum.splits)
next
  case False
  then obtain rs t where r: "parseredirs s = Inr (rs, t)" by (cases "parseredirs s") auto
  note g = parseredirs_good [OF r]
  show ?thesis
  proof (cases "parseargs 0 t")
    case (Inl e)
    then show ?thesis using False r parseargs_error [OF Inl] by (simp add: parsed_Inl)
  next
    case (Inr x)
    then obtain as rs' u where a: "parseargs 0 t = Inr (as, rs', u)" by (cases x) auto
    show ?thesis using False r a g parseargs_good [OF a] suffix_order.trans [of u t s] word_tok_mono [of t _ s]
      by (auto simp: parsed_Inr set_redirs MAXARGS_def)
  qed
qed

lemma parseblock_step:
  assumes l: "\<And>u. length u < length s \<Longrightarrow> parsed u (parseline n u)"
  shows "parsed s (parseblock (Suc n) s)"
proof (cases "peek s ''(''")
  case True
  have "parsed s (parseline n (after (gettoken s)))"
    by (rule parsed_mono [OF l [OF peek_shorter [OF True]] gettoken_suffix])
  then show ?thesis
  proof (cases rule: parsed_cases)
    case (ok c t)
    note s = suffix_after [OF ok(2)]
    have r: "parsed s (Inr (redirs rs c, u))" if "parseredirs (after (gettoken t)) = Inr (rs, u)" for rs u
      using ok parseredirs_good [OF that] suffix_order.trans [OF _ s] word_tok_mono [OF _ s]
      by (fastforce simp: parsed_Inr set_redirs)
    show ?thesis
      using True ok r parseredirs_error [of "after (gettoken t)"]
      by (auto simp: parsed_Inl shpanic_def split: sum.splits)
  qed (use True in \<open>simp add: parsed_Inl\<close>)
qed (simp add: parsed_Inl shpanic_def)

lemma parser_total:
  "(4 * length s + 4 \<le> n \<longrightarrow> parsed s (parseline n s)) \<and> (4 * length s + 3 \<le> n \<longrightarrow> parsed s (parsepipe n s)) \<and>
   (4 * length s + 2 \<le> n \<longrightarrow> parsed s (parseexec n s)) \<and> (4 * length s + 1 \<le> n \<longrightarrow> parsed s (parseblock n s))"
proof (induction n arbitrary: s)
  case (Suc n)
  have l: "parsed u (parseline n u)" if "4 * length u + 4 \<le> n" for u using Suc [of u] that by blast
  have p: "parsed u (parsepipe n u)" if "4 * length u + 3 \<le> n" for u using Suc [of u] that by blast
  have e: "parsed u (parseexec n u)" if "4 * length u + 2 \<le> n" for u using Suc [of u] that by blast
  have b: "parsed u (parseblock n u)" if "4 * length u + 1 \<le> n" for u using Suc [of u] that by blast
  show ?case
  proof (intro conjI impI)
    show "parsed s (parseline (Suc n) s)" if "4 * length s + 4 \<le> Suc n"
      by (rule parseline_step [OF p l]) (use that in auto)
    show "parsed s (parsepipe (Suc n) s)" if "4 * length s + 3 \<le> Suc n"
      by (rule parsepipe_step [OF e p]) (use that in auto)
    show "parsed s (parseexec (Suc n) s)" if "4 * length s + 2 \<le> Suc n"
      by (rule parseexec_step [OF b]) (use that in auto)
    show "parsed s (parseblock (Suc n) s)" if "4 * length s + 1 \<le> Suc n"
      by (rule parseblock_step [OF l]) (use that in auto)
  qed
qed simp

text \<open>
  C21: The shell's command parser returns on every buffer. Its mutually recursive functions
  \<open>parseline\<close>, \<open>parsepipe\<close>, \<open>parseexec\<close> and \<open>parseblock\<close> never nest deeper than a bound linear in the
  command line: the result is a command or one of the parser's own panics.
\<close>

theorem parsecmd_terminates: "parsecmd buf \<noteq> Inl NoFuel"
proof -
  let ?s = "cstring buf"
  have "parsed ?s (parseline (4 * length ?s + 4) ?s)" using parser_total [of ?s "4 * length ?s + 4"] by simp
  then show ?thesis
    by (cases rule: parsed_cases) (auto simp: parsecmd_def Let_def shpanic_def)
qed

section \<open>The terminated words\<close>

text \<open>
  A zero behind a word is not inside another one: the words hold no separator, and every word ends at
  a separator or at the end.
\<close>

lemma word_tok_nth:
  assumes "word_tok s t" and "length s - length (fst t) \<le> i" and "i < length s - length (snd t)"
  shows "word_char (s ! i)"
proof -
  from assms(1) obtain p where s: "s = p @ word_of t @ snd t"
    by (auto simp: word_tok_def suffix_def)
  have f: "fst t = word_of t @ snd t" using assms(1) by (simp add: word_tok_def)
  have "s ! i = word_of t ! (i - length p)" and "i - length p < length (word_of t)"
    using assms(2,3) arg_cong [OF f, of length] by (auto simp: s nth_append)
  then show ?thesis using assms(1) by (auto simp: word_tok_def is_word_def)
qed

lemma word_tok_end:
  assumes "word_tok s t" and "length s - length (snd t) < length s"
  shows "\<not> word_char (s ! (length s - length (snd t)))"
proof -
  from assms(1) obtain p where s: "s = p @ word_of t @ snd t"
    by (auto simp: word_tok_def suffix_def)
  have "s ! (length s - length (snd t)) = hd (snd t)"
    using assms(2) by (simp add: s nth_append hd_conv_nth)
  then show ?thesis using assms by (auto simp: word_tok_def stops_def)
qed

definition zero_at :: "nat set \<Rightarrow> string \<Rightarrow> string" where
  "zero_at S buf = map (\<lambda>i. if i \<in> S then CHR 0x00 else buf ! i) [0..<length buf]"

abbreviation ends :: "nat \<Rightarrow> tok set \<Rightarrow> nat set" where
  "ends L T \<equiv> (\<lambda>t. L - length (snd t)) ` T"

lemma zero_at_empty: "zero_at {} buf = buf"
  by (simp add: zero_at_def map_nth)

lemma zero_at_zero_at: "zero_at S (zero_at T buf) = zero_at (S \<union> T) buf"
  by (rule nth_equalityI) (simp_all add: zero_at_def)

lemma terminate_tok_zero: "terminate_tok L t buf = zero_at {L - length (snd t)} buf"
  by (rule nth_equalityI) (auto simp: terminate_tok_def zero_at_def nth_list_update)

lemma fold_terminate: "fold (terminate_tok L) as buf = zero_at (ends L (set as)) buf"
  by (induction as arbitrary: buf)
    (simp_all add: zero_at_empty terminate_tok_zero zero_at_zero_at Un_commute)

lemma nulterminate_zero: "nulterminate L c buf = zero_at (ends L (set_cmd c)) buf"
  by (induction c arbitrary: buf)
    (simp_all add: fold_terminate terminate_tok_zero zero_at_zero_at image_Un Un_ac)

text \<open>The string a pointer leads to in the buffer.\<close>

definition string_at :: "nat \<Rightarrow> string \<Rightarrow> tok \<Rightarrow> string" where
  "string_at L buf t = cstring (drop (L - length (fst t)) buf)"

lemma takeWhile_run:
  assumes "\<forall>i<n. P (xs ! i)" and "n \<le> length xs" and "n < length xs \<longrightarrow> \<not> P (xs ! n)"
  shows "takeWhile P xs = take n xs"
  using assms by (intro takeWhile_eq_take_P_nth) auto

lemma cstring_nth: "i < length (cstring buf) \<Longrightarrow> i < length buf \<and> cstring buf ! i = buf ! i \<and> buf ! i \<noteq> CHR 0x00"
  unfolding cstring_def using nth_mem [of i "takeWhile (\<lambda>c. c \<noteq> CHR 0x00) buf"]
  by (auto simp: takeWhile_nth dest: set_takeWhileD intro: less_le_trans [OF _ length_takeWhile_le])

lemma word_tok_split:
  assumes "word_tok s t"
  shows "word_of t = take (length (word_of t)) (drop (length s - length (fst t)) s)"
    "length (snd t) + length (word_of t) = length (fst t)" "length (fst t) \<le> length s"
proof -
  from assms obtain p where s: "s = p @ fst t" and f: "fst t = word_of t @ snd t"
    by (auto simp: word_tok_def suffix_def)
  show l: "length (snd t) + length (word_of t) = length (fst t)" using arg_cong [OF f, of length] by simp
  show "length (fst t) \<le> length s" by (simp add: s)
  have "drop (length s - length (fst t)) s = fst t" by (simp add: s)
  then show "word_of t = take (length (word_of t)) (drop (length s - length (fst t)) s)"
    using f by (metis append_eq_conv_conj)
qed

lemma string_at_word:
  assumes T: "\<forall>t\<in>T. word_tok (cstring buf) t" and t: "t \<in> T"
  shows "string_at (length (cstring buf)) (zero_at (ends (length (cstring buf)) T) buf) t = word_of t"
proof -
  define s where "s = cstring buf"
  define a where "a = length s - length (fst t)"
  define n where "n = length (word_of t)"
  define xs where "xs = drop a (zero_at (ends (length s) T) buf)"
  note w = T [folded s_def, rule_format, OF t]
  note sp = word_tok_split [OF w]
  have an: "a + n = length s - length (snd t)" "a + n \<le> length s"
    using sp by (auto simp: a_def n_def)
  have sb: "length s \<le> length buf" by (simp add: s_def cstring_def length_takeWhile_le)
  have i: "xs ! i = s ! (a + i) \<and> xs ! i \<noteq> CHR 0x00" if "i < n" for i
  proof -
    have c: "word_char (s ! (a + i))" by (rule word_tok_nth [OF w]) (use that an in \<open>auto simp: a_def\<close>)
    have "a + i \<notin> ends (length s) T"
      using c word_tok_end [of s] T that an unfolding s_def [symmetric] by fastforce
    then show ?thesis using cstring_nth [of "a + i" buf] that an sb
      by (auto simp: xs_def zero_at_def s_def)
  qed
  have l: "n \<le> length xs" using an sb by (simp add: xs_def zero_at_def)
  have "n < length xs \<longrightarrow> xs ! n = CHR 0x00"
    using t an(1) by (auto simp: xs_def zero_at_def)
  then have "takeWhile (\<lambda>c. c \<noteq> CHR 0x00) xs = take n xs" using i l by (intro takeWhile_run) blast+
  also have "\<dots> = take n (drop a s)" by (rule nth_equalityI) (use i l an in auto)
  also have "\<dots> = word_of t" using sp(1) by (simp add: n_def a_def)
  finally show ?thesis by (simp add: string_at_def cstring_def [of "drop _ _"] xs_def a_def s_def)
qed

text \<open>
  C22: In a command the parser returns, every word points at a zero-terminated string that is exactly
  the word the token delimited, whatever the other zeros \<open>nulterminate\<close> wrote over the line; the words
  are not empty and hold neither white space nor a symbol, and every argument vector has room for the
  zero that ends it.
\<close>

theorem parsecmd_words:
  assumes "parsecmd buf = Inr (c, buf')"
  shows "map_cmd (string_at (length (cstring buf)) buf') c = map_cmd word_of c \<and>
    (\<forall>t\<in>set_cmd c. suffix (fst t) (cstring buf) \<and> is_word (word_of t)) \<and> args_ok c"
proof -
  let ?s = "cstring buf"
  have "parsed ?s (parseline (4 * length ?s + 4) ?s)" using parser_total [of ?s "4 * length ?s + 4"] by simp
  then have p: "args_ok c" "\<forall>t\<in>set_cmd c. word_tok ?s t" "buf' = nulterminate (length ?s) c buf"
    using assms by (cases rule: parsed_cases; auto simp: parsecmd_def Let_def split: if_splits)+
  have w: "string_at (length ?s) buf' t = word_of t" if "t \<in> set_cmd c" for t
    unfolding p(3) nulterminate_zero by (rule string_at_word [OF p(2) that])
  have "map_cmd (string_at (length ?s) buf') c = map_cmd word_of c" by (rule cmd.map_cong [OF refl w])
  then show ?thesis using p(1,2) unfolding word_tok_def by blast
qed

theorem parsecmd_words_witness:
  "parsecmd ''a>b;c'' =
     Inr (ListC (RedirC (ExecC [(''a>b;c'', ''>b;c'')]) (''b;c'', '';c'') 0x201 1) (ExecC [(''c'', [])]),
       [CHR ''a'', CHR 0x00, CHR ''b'', CHR 0x00, CHR ''c'']) \<and>
   string_at 5 [CHR ''a'', CHR 0x00, CHR ''b'', CHR 0x00, CHR ''c''] (''b;c'', '';c'') = ''b''"
proof -
  have c: "parsecmd ''a>b;c'' =
     Inr (ListC (RedirC (ExecC [(''a>b;c'', ''>b;c'')]) (''b;c'', '';c'') 0x201 1) (ExecC [(''c'', [])]),
       [CHR ''a'', CHR 0x00, CHR ''b'', CHR 0x00, CHR ''c''])" by code_simp
  show ?thesis using c parsecmd_words [OF c] by (simp add: cstring_def word_of_def eval_nat_numeral)
qed

end
