(* ===== verification/Sh_Print.thy ===== *)
theory Sh_Print
  imports Sh
begin

text \<open>
  The command parser of the shell against a printer: a printed command is parsed back to itself.
\<close>

section \<open>Printing a command\<close>

text \<open>
  A printer to measure the parser against: every token is followed by a space, and a command is put in
  parentheses where the grammar takes only a command of a tighter kind.
\<close>

primrec level :: "'w cmd \<Rightarrow> nat" where
  "level (ExecC as) = 0"
| "level (RedirC c f mode fd) = 0"
| "level (PipeC l r) = 1"
| "level (BackC c) = 2"
| "level (ListC l r) = 3"

definition wrap :: "nat \<Rightarrow> 'w cmd \<Rightarrow> string \<Rightarrow> string" where
  "wrap k c s = (if level c \<le> k then s else ''( '' @ s @ '') '')"

primrec printcmd :: "string cmd \<Rightarrow> string" where
  "printcmd (ExecC as) = concat (map (\<lambda>w. w @ '' '') as)"
| "printcmd (RedirC c f mode fd) = wrap 0 c (printcmd c) @ (if fd = 0 then ''< '' else ''> '') @ f @ '' ''"
| "printcmd (PipeC l r) = wrap 0 l (printcmd l) @ ''| '' @ wrap 1 r (printcmd r)"
| "printcmd (BackC c) = wrap 2 c (printcmd c) @ ''& ''"
| "printcmd (ListC l r) = wrap 2 l (printcmd l) @ ''; '' @ printcmd r"

primrec printable :: "string cmd \<Rightarrow> bool" where
  "printable (ExecC as) \<longleftrightarrow> length as < MAXARGS \<and> (\<forall>w\<in>set as. is_word w \<and> CHR 0x00 \<notin> set w)"
| "printable (RedirC c f mode fd) \<longleftrightarrow>
     printable c \<and> is_word f \<and> CHR 0x00 \<notin> set f \<and> (mode = 0 \<and> fd = 0 \<or> mode = 0x201 \<and> fd = 1)"
| "printable (PipeC l r) \<longleftrightarrow> printable l \<and> printable r"
| "printable (BackC c) \<longleftrightarrow> printable c"
| "printable (ListC l r) \<longleftrightarrow> printable l \<and> printable r"

section \<open>The parsers on printed text\<close>

definition heads :: "string \<Rightarrow> string \<Rightarrow> bool" where
  "heads cs s \<longleftrightarrow> skip s = [] \<or> peek s cs"

lemma heads_not_peek: "\<lbrakk>heads cs s; set cs \<inter> set ds = {}\<rbrakk> \<Longrightarrow> \<not> peek s ds"
  by (cases "skip s") (auto simp: heads_def peek_def)

lemma heads_mono: "\<lbrakk>heads cs s; set cs \<subseteq> set ds\<rbrakk> \<Longrightarrow> heads ds s"
  by (cases "skip s") (auto simp: heads_def peek_def)

lemma space [simp]: "is_space CHR '' ''" "\<not> is_space CHR ''|''" "\<not> is_space CHR ''&''" "\<not> is_space CHR '';''"
  "\<not> is_space CHR ''(''" "\<not> is_space CHR '')''" "\<not> is_space CHR ''<''" "\<not> is_space CHR ''>''"
  by (simp_all add: is_space_def)

lemma skip_Cons: "skip (c # s) = (if is_space c then skip s else c # s)"
  by (simp add: skip_def)

lemma peek_Cons: "\<not> is_space c \<Longrightarrow> peek (c # s) cs \<longleftrightarrow> c \<in> set cs"
  by (simp add: peek_def skip_Cons)

lemma gettoken_symbol:
  "c \<in> set ''|();&<>'' \<Longrightarrow> gettoken (c # CHR '' '' # s) = (c, (c # CHR '' '' # s, CHR '' '' # s), skip s)"
  by (auto simp: gettoken_def skip_Cons)

lemma dropWhile_word: "is_word w \<Longrightarrow> dropWhile word_char (w @ CHR '' '' # s) = CHR '' '' # s"
  by (simp add: is_word_def dropWhile_append2)

lemma is_word_Cons: "is_word w \<Longrightarrow> \<exists>x v. w = x # v \<and> word_char x"
  by (cases w) (auto simp: is_word_def)

lemma skip_word: "is_word w \<Longrightarrow> skip (w @ s) = w @ s"
  using is_word_Cons [of w] by (auto simp: skip_Cons)

lemma peek_word: "\<lbrakk>is_word w; \<forall>c\<in>set cs. is_symbol c\<rbrakk> \<Longrightarrow> \<not> peek (w @ s) cs"
  using is_word_Cons [of w] by (auto simp: peek_Cons)

lemma gettoken_printed:
  assumes "is_word w"
  shows "gettoken (w @ CHR '' '' # s) = (CHR ''a'', (w @ CHR '' '' # s, CHR '' '' # s), skip s)"
proof -
  obtain x v where w: "w = x # v" "word_char x" using is_word_Cons [OF assms] by blast
  have "token_end (w @ CHR '' '' # s) = (CHR ''a'', dropWhile word_char (w @ CHR '' '' # s))"
    using w by (auto simp: is_symbol_def)
  then show ?thesis using assms by (simp add: gettoken_def skip_word dropWhile_word skip_Cons)
qed

lemma word_of_printed [simp]: "word_of (w @ s, s) = w"
  by (simp add: word_of_def)

lemma gettoken_skip [simp]: "gettoken (skip s) = gettoken s"
  by (simp add: gettoken_def)

lemma peek_skip_iff [simp]: "peek (skip s) cs = peek s cs"
  by (simp add: peek_def)

lemma heads_skip [simp]: "heads cs (skip s) = heads cs s"
  by (simp add: heads_def)

lemma parseredirs_skip [simp]: "parseredirs (skip s) = parseredirs s"
  by (subst (1 2) parseredirs.simps) simp

lemma parseargs_skip [simp]: "parseargs n (skip s) = parseargs n s"
  by (subst (1 2) parseargs.simps) simp

lemma backs_skip [simp]: "backs c (skip s) = backs c s"
  by (subst (1 2) backs.simps) simp

lemma parsers_skip [simp]:
  "parseblock n (skip s) = parseblock n s" "parseexec n (skip s) = parseexec n s"
  "parsepipe n (skip s) = parsepipe n s" "parseline n (skip s) = parseline n s"
proof -
  show b: "parseblock n (skip s) = parseblock n s" for n by (cases n) simp_all
  show e: "parseexec n (skip s) = parseexec n s" for n by (cases n) (simp_all add: b)
  show p: "parsepipe n (skip s) = parsepipe n s" for n by (cases n) (simp_all add: e)
  show "parseline n (skip s) = parseline n s" by (cases n) (simp_all add: p)
qed

lemma backs_stop: "\<not> peek s ''&'' \<Longrightarrow> backs c s = (c, skip s)"
  by (subst backs.simps) simp

lemma backs_amp: "backs c (CHR ''&'' # CHR '' '' # s) = backs (BackC c) s"
  by (subst backs.simps) (simp add: peek_Cons gettoken_symbol)

lemma parseredirs_stop: "\<not> peek s ''<>'' \<Longrightarrow> parseredirs s = Inr ([], skip s)"
  by (subst parseredirs.simps) simp

lemma parseargs_stop: "heads ''|)&;'' s \<Longrightarrow> parseargs n s = Inr ([], [], skip s)"
  by (subst parseargs.simps) (auto simp: heads_def gettoken_empty)

lemma parseredirs_printed:
  assumes "is_word f" and "mode = 0 \<and> fd = 0 \<or> mode = 0x201 \<and> fd = 1" and "parseredirs s = Inr (rs, t)"
  shows "parseredirs ((if fd = 0 then ''< '' else ''> '') @ f @ '' '' @ s) =
    Inr (((f @ CHR '' '' # s, CHR '' '' # s), mode, fd) # rs, t)"
  using assms by (subst parseredirs.simps) (auto simp: peek_Cons gettoken_symbol gettoken_printed skip_word)

abbreviation words :: "string list \<Rightarrow> string" where
  "words as \<equiv> concat (map (\<lambda>w. w @ '' '') as)"

lemma parseargs_word:
  assumes "is_word w" and "n + 1 < MAXARGS" and "parseredirs s = Inr (rs, t)"
    and "parseargs (n + 1) t = Inr (as, rs', u)"
  shows "parseargs n (w @ CHR '' '' # s) = Inr ((w @ CHR '' '' # s, CHR '' '' # s) # as, rs @ rs', u)"
  using assms
  by (subst parseargs.simps) (simp add: gettoken_printed peek_word is_symbol_def)

text \<open>Words, the redirections of \<open>rest\<close> behind them.\<close>

lemma parse_words:
  assumes "\<forall>w\<in>set as. is_word w" "n + length as < MAXARGS" "parseredirs rest = Inr (rs, t)" "heads ''|)&;'' t"
  shows "\<exists>rs1 u rs2 as'. parseredirs (words as @ rest) = Inr (rs1, u) \<and> parseargs n u = Inr (as', rs2, skip t) \<and>
    rs1 @ rs2 = rs \<and> map word_of as' = as"
  using assms(1,2)
proof (induction as arbitrary: n)
  case Nil
  then show ?case using assms(3) parseargs_stop [OF assms(4)] by simp
next
  case (Cons w as)
  from Cons(2,3) Cons(1) [of "n + 1"] obtain rs1 u rs2 as' where i:
    "parseredirs (words as @ rest) = Inr (rs1, u)" "parseargs (n + 1) u = Inr (as', rs2, skip t)"
    "rs1 @ rs2 = rs" "map word_of as' = as" by auto
  have w: "is_word w" "n + 1 < MAXARGS" using Cons(2,3) by auto
  let ?s = "words as @ rest"
  have "parseredirs (w @ CHR '' '' # ?s) = Inr ([], w @ CHR '' '' # ?s)"
    using parseredirs_stop [OF peek_word [OF w(1)]] by (simp add: is_symbol_def skip_word [OF w(1)])
  moreover note parseargs_word [OF w i(1,2)]
  ultimately show ?case using i(3,4) by auto
qed

text \<open>
  What the parsers do with a printed command in front of \<open>rest\<close>: \<open>parseexec\<close> takes the redirections of
  \<open>rest\<close> too, and \<open>parseline\<close> its ampersands. \<open>c'\<close> is the command with pointers for words.
\<close>

definition exec_reads :: "string cmd \<Rightarrow> bool" where
  "exec_reads c \<longleftrightarrow>
     (\<forall>n rest rs t. 4 * length (wrap 0 c (printcmd c)) + 2 \<le> n \<longrightarrow> heads ''<>|)&;'' rest \<longrightarrow>
        parseredirs rest = Inr (rs, t) \<longrightarrow> heads ''|)&;'' t \<longrightarrow>
        (\<exists>c'. map_cmd word_of c' = c \<and>
           (\<exists>t'. skip t' = skip t \<and> parseexec n (wrap 0 c (printcmd c) @ rest) = Inr (redirs rs c', t'))))"

definition pipe_reads :: "string cmd \<Rightarrow> bool" where
  "pipe_reads c \<longleftrightarrow>
     (\<forall>n rest. 4 * length (wrap 1 c (printcmd c)) + 3 \<le> n \<longrightarrow> heads '')&;'' rest \<longrightarrow>
        (\<exists>c'. map_cmd word_of c' = c \<and> parsepipe n (wrap 1 c (printcmd c) @ rest) = Inr (c', skip rest)))"

definition back_reads :: "string cmd \<Rightarrow> bool" where
  "back_reads c \<longleftrightarrow>
     (\<forall>n rest. 4 * length (wrap 2 c (printcmd c)) + 3 \<le> n \<longrightarrow> heads '')&;'' rest \<longrightarrow>
        (\<exists>c' d t. map_cmd word_of c' = c \<and> parsepipe n (wrap 2 c (printcmd c) @ rest) = Inr (d, t) \<and>
           backs d t = backs c' rest))"

definition line_reads :: "string cmd \<Rightarrow> bool" where
  "line_reads c \<longleftrightarrow>
     (\<forall>n rest. 4 * length (printcmd c) + 4 \<le> n \<longrightarrow> heads '')'' rest \<longrightarrow>
        (\<exists>c'. map_cmd word_of c' = c \<and> parseline n (printcmd c @ rest) = Inr (c', skip rest)))"

lemma exec_readsD:
  "\<lbrakk>exec_reads c; 4 * length (wrap 0 c (printcmd c)) + 2 \<le> n; heads ''<>|)&;'' rest; parseredirs rest = Inr (rs, t);
     heads ''|)&;'' t\<rbrakk> \<Longrightarrow>
   \<exists>c'. map_cmd word_of c' = c \<and>
     (\<exists>t'. skip t' = skip t \<and> parseexec n (wrap 0 c (printcmd c) @ rest) = Inr (redirs rs c', t'))"
  unfolding exec_reads_def by blast

lemma pipe_readsD:
  "\<lbrakk>pipe_reads c; 4 * length (wrap 1 c (printcmd c)) + 3 \<le> n; heads '')&;'' rest\<rbrakk> \<Longrightarrow>
   \<exists>c'. map_cmd word_of c' = c \<and> parsepipe n (wrap 1 c (printcmd c) @ rest) = Inr (c', skip rest)"
  unfolding pipe_reads_def by blast

lemma back_readsD:
  "\<lbrakk>back_reads c; 4 * length (wrap 2 c (printcmd c)) + 3 \<le> n; heads '')&;'' rest\<rbrakk> \<Longrightarrow>
   \<exists>c' d t. map_cmd word_of c' = c \<and> parsepipe n (wrap 2 c (printcmd c) @ rest) = Inr (d, t) \<and>
     backs d t = backs c' rest"
  unfolding back_reads_def by blast

lemma line_readsD:
  "\<lbrakk>line_reads c; 4 * length (printcmd c) + 4 \<le> n; heads '')'' rest\<rbrakk> \<Longrightarrow>
   \<exists>c'. map_cmd word_of c' = c \<and> parseline n (printcmd c @ rest) = Inr (c', skip rest)"
  unfolding line_reads_def by blast

lemma exec_reads_words:
  assumes "printable (ExecC as)" shows "exec_reads (ExecC as)"
  unfolding exec_reads_def
proof (intro allI impI)
  fix n rest rs t
  assume n: "4 * length (wrap 0 (ExecC as) (printcmd (ExecC as))) + 2 \<le> n"
    and h: "heads ''<>|)&;'' rest" "heads ''|)&;'' t" and r: "parseredirs rest = Inr (rs, t)"
  obtain m where m: "n = Suc m" using n by (cases n) auto
  have "\<not> peek (words as @ rest) ''(''"
    using assms heads_not_peek [OF h(1)] by (cases as) (auto simp: peek_word is_symbol_def)
  moreover from assms parse_words [OF _ _ r h(2), of as 0]
  obtain rs1 u rs2 as' where "parseredirs (words as @ rest) = Inr (rs1, u)" "parseargs 0 u = Inr (as', rs2, skip t)"
    "rs1 @ rs2 = rs" "map word_of as' = as" by auto
  ultimately show "\<exists>c'. map_cmd word_of c' = ExecC as \<and> (\<exists>t'. skip t' = skip t \<and>
      parseexec n (wrap 0 (ExecC as) (printcmd (ExecC as)) @ rest) = Inr (redirs rs c', t'))"
    by (auto simp: m wrap_def intro!: exI [of _ "ExecC as'"])
qed

lemma exec_reads_redir:
  assumes "printable (RedirC c f mode fd)" and c: "exec_reads c" shows "exec_reads (RedirC c f mode fd)"
  unfolding exec_reads_def
proof (intro allI impI)
  fix n rest rs t
  let ?r = "(if fd = 0 then ''< '' else ''> '') @ f @ '' '' @ rest"
  assume n: "4 * length (wrap 0 (RedirC c f mode fd) (printcmd (RedirC c f mode fd))) + 2 \<le> n"
    and h: "heads ''<>|)&;'' rest" "heads ''|)&;'' t" and r: "parseredirs rest = Inr (rs, t)"
  have f: "is_word f" "mode = 0 \<and> fd = 0 \<or> mode = 0x201 \<and> fd = 1" using assms(1) by auto
  note p = parseredirs_printed [OF f r]
  have hr: "heads ''<>|)&;'' ?r" by (simp add: heads_def peek_Cons)
  have "4 * length (wrap 0 c (printcmd c)) + 2 \<le> n" using n by (simp add: wrap_def [of _ "RedirC c f mode fd"])
  from exec_readsD [OF c this hr p h(2)] obtain c' t' where "map_cmd word_of c' = c" "skip t' = skip t"
    "parseexec n (wrap 0 c (printcmd c) @ ?r) = Inr (redirs (((f @ CHR '' '' # rest, CHR '' '' # rest), mode, fd) # rs) c', t')"
    by blast
  then show "\<exists>c'. map_cmd word_of c' = RedirC c f mode fd \<and> (\<exists>t'. skip t' = skip t \<and>
      parseexec n (wrap 0 (RedirC c f mode fd) (printcmd (RedirC c f mode fd)) @ rest) = Inr (redirs rs c', t'))"
    by (intro exI [of _ "RedirC c' (f @ CHR '' '' # rest, CHR '' '' # rest) mode fd"])
      (auto simp: wrap_def [of _ "RedirC c f mode fd"] redirs_def)
qed

lemma exec_reads_block:
  assumes l: "line_reads c" and k: "0 < level c" shows "exec_reads c"
  unfolding exec_reads_def
proof (intro allI impI)
  fix n rest rs t
  have w: "wrap 0 c (printcmd c) = ''( '' @ printcmd c @ '') ''" using k by (simp add: wrap_def)
  assume n: "4 * length (wrap 0 c (printcmd c)) + 2 \<le> n" and r: "parseredirs rest = Inr (rs, t)"
  obtain m where m: "n = Suc (Suc m)" "4 * length (printcmd c) + 4 \<le> m"
    using n unfolding w by (cases n; cases "n - 1") auto
  have "heads '')'' ('') '' @ rest)" by (simp add: heads_def peek_Cons)
  from line_readsD [OF l m(2) this] obtain c' where c': "map_cmd word_of c' = c"
    "parseline m (printcmd c @ '') '' @ rest) = Inr (c', skip ('') '' @ rest))" by blast
  have "parseexec n (wrap 0 c (printcmd c) @ rest) = Inr (redirs rs c', t)"
    using c'(2) r by (simp add: m w peek_Cons gettoken_symbol skip_Cons)
  then show "\<exists>c'. map_cmd word_of c' = c \<and> (\<exists>t'. skip t' = skip t \<and>
      parseexec n (wrap 0 c (printcmd c) @ rest) = Inr (redirs rs c', t'))" using c'(1) by blast
qed

lemma redirs_Nil [simp]: "redirs [] c = c"
  by (simp add: redirs_def)

lemma exec_then:
  assumes "exec_reads c" "4 * length (wrap 0 c (printcmd c)) + 2 \<le> n" "heads ''|)&;'' rest"
  shows "\<exists>c' t'. map_cmd word_of c' = c \<and> skip t' = skip rest \<and> parseexec n (wrap 0 c (printcmd c) @ rest) = Inr (c', t')"
proof -
  have "parseredirs rest = Inr ([], skip rest)" using heads_not_peek [OF assms(3)] by (intro parseredirs_stop) auto
  from exec_readsD [OF assms(1,2) _ this] assms(3) heads_mono [OF assms(3)] show ?thesis by fastforce
qed

lemma peek_cong: "skip s = skip t \<Longrightarrow> peek s = peek t"
  by (simp add: peek_def fun_eq_iff)

lemma gettoken_cong: "skip s = skip t \<Longrightarrow> gettoken s = gettoken t"
  by (simp add: gettoken_def)

lemma pipe_reads_exec:
  assumes e: "exec_reads c" and k: "level c \<noteq> 1" shows "pipe_reads c"
  unfolding pipe_reads_def
proof (intro allI impI)
  fix n rest
  have w: "wrap 1 c (printcmd c) = wrap 0 c (printcmd c)" using k by (simp add: wrap_def)
  assume n: "4 * length (wrap 1 c (printcmd c)) + 3 \<le> n" and h: "heads '')&;'' rest"
  obtain m where m: "n = Suc m" "4 * length (wrap 0 c (printcmd c)) + 2 \<le> m"
    using n unfolding w by (cases n) auto
  have "heads ''|)&;'' rest" using heads_mono [OF h] by auto
  from exec_then [OF e m(2) this] obtain c' t' where c': "map_cmd word_of c' = c" "skip t' = skip rest"
    "parseexec m (wrap 0 c (printcmd c) @ rest) = Inr (c', t')" by blast
  have "\<not> peek t' ''|''" unfolding peek_cong [OF c'(2)] using heads_not_peek [OF h] by simp
  then show "\<exists>c'. map_cmd word_of c' = c \<and> parsepipe n (wrap 1 c (printcmd c) @ rest) = Inr (c', skip rest)"
    unfolding m w using c' by simp
qed

lemma pipe_reads_pipe:
  assumes l: "exec_reads l" and r: "pipe_reads r" shows "pipe_reads (PipeC l r)"
  unfolding pipe_reads_def
proof (intro allI impI)
  fix n rest
  let ?r = "wrap 1 r (printcmd r) @ rest"
  have w: "wrap 1 (PipeC l r) (printcmd (PipeC l r)) = printcmd (PipeC l r)" by (simp add: wrap_def)
  assume n: "4 * length (wrap 1 (PipeC l r) (printcmd (PipeC l r))) + 3 \<le> n" and h: "heads '')&;'' rest"
  obtain m where m: "n = Suc m" "4 * length (wrap 0 l (printcmd l)) + 2 \<le> m" "4 * length (wrap 1 r (printcmd r)) + 3 \<le> m"
    using n unfolding w by (cases n) auto
  have "heads ''|)&;'' (''| '' @ ?r)" by (simp add: heads_def peek_Cons)
  from exec_then [OF l m(2) this] obtain l' t' where l': "map_cmd word_of l' = l" "skip t' = skip (''| '' @ ?r)"
    "parseexec m (wrap 0 l (printcmd l) @ ''| '' @ ?r) = Inr (l', t')" by blast
  from pipe_readsD [OF r m(3) h] obtain r' where r': "map_cmd word_of r' = r" "parsepipe m ?r = Inr (r', skip rest)"
    by blast
  have "parsepipe n (wrap 1 (PipeC l r) (printcmd (PipeC l r)) @ rest) = Inr (PipeC l' r', skip rest)"
    unfolding m w using l'(3) r'(2) by (simp add: peek_cong [OF l'(2)] gettoken_cong [OF l'(2)] peek_Cons gettoken_symbol)
  then show "\<exists>c'. map_cmd word_of c' = PipeC l r \<and>
      parsepipe n (wrap 1 (PipeC l r) (printcmd (PipeC l r)) @ rest) = Inr (c', skip rest)"
    using l'(1) r'(1) by (intro exI [of _ "PipeC l' r'"]) simp
qed

lemma back_reads_pipe:
  assumes p: "pipe_reads c" and k: "level c \<noteq> 2" shows "back_reads c"
  unfolding back_reads_def
proof (intro allI impI)
  fix n rest
  have w: "wrap 2 c (printcmd c) = wrap 1 c (printcmd c)" using k by (simp add: wrap_def)
  assume "4 * length (wrap 2 c (printcmd c)) + 3 \<le> n" and "heads '')&;'' rest"
  then obtain c' where "map_cmd word_of c' = c" "parsepipe n (wrap 2 c (printcmd c) @ rest) = Inr (c', skip rest)"
    using pipe_readsD [OF p] unfolding w by blast
  then show "\<exists>c' d t. map_cmd word_of c' = c \<and> parsepipe n (wrap 2 c (printcmd c) @ rest) = Inr (d, t) \<and>
      backs d t = backs c' rest" by force
qed

lemma back_reads_back:
  assumes b: "back_reads c" shows "back_reads (BackC c)"
  unfolding back_reads_def
proof (intro allI impI)
  fix n rest
  have w: "wrap 2 (BackC c) (printcmd (BackC c)) = printcmd (BackC c)" by (simp add: wrap_def)
  assume n: "4 * length (wrap 2 (BackC c) (printcmd (BackC c))) + 3 \<le> n"
  have m: "4 * length (wrap 2 c (printcmd c)) + 3 \<le> n" using n unfolding w by simp
  have "heads '')&;'' (''& '' @ rest)" by (simp add: heads_def peek_Cons)
  from back_readsD [OF b m this] obtain c' d t where "map_cmd word_of c' = c"
    "parsepipe n (wrap 2 c (printcmd c) @ ''& '' @ rest) = Inr (d, t)" "backs d t = backs c' (''& '' @ rest)" by blast
  then show "\<exists>c' d t. map_cmd word_of c' = BackC c \<and>
      parsepipe n (wrap 2 (BackC c) (printcmd (BackC c)) @ rest) = Inr (d, t) \<and> backs d t = backs c' rest"
    unfolding w by (intro exI [of _ "BackC c'"] exI [of _ d] exI [of _ t]) (simp add: backs_amp)
qed

lemma line_reads_back:
  assumes b: "back_reads c" and k: "level c \<noteq> 3" shows "line_reads c"
  unfolding line_reads_def
proof (intro allI impI)
  fix n rest
  have w: "wrap 2 c (printcmd c) = printcmd c" using k by (cases c) (simp_all add: wrap_def)
  assume n: "4 * length (printcmd c) + 4 \<le> n" and h: "heads '')'' rest"
  obtain m where m: "n = Suc m" "4 * length (wrap 2 c (printcmd c)) + 3 \<le> m" using n unfolding w by (cases n) auto
  have h2: "heads '')&;'' rest" using heads_mono [OF h] by auto
  from back_readsD [OF b m(2) h2] obtain c' d t where c': "map_cmd word_of c' = c"
    "parsepipe m (printcmd c @ rest) = Inr (d, t)" "backs d t = backs c' rest" unfolding w by blast
  have "\<not> peek rest ''&''" "\<not> peek rest '';''" using heads_not_peek [OF h] by simp_all
  then show "\<exists>c'. map_cmd word_of c' = c \<and> parseline n (printcmd c @ rest) = Inr (c', skip rest)"
    using c' by (simp add: m backs_stop)
qed

lemma line_reads_list:
  assumes l: "back_reads l" and r: "line_reads r" shows "line_reads (ListC l r)"
  unfolding line_reads_def
proof (intro allI impI)
  fix n rest
  let ?r = "printcmd r @ rest"
  assume n: "4 * length (printcmd (ListC l r)) + 4 \<le> n" and h: "heads '')'' rest"
  obtain m where m: "n = Suc m" "4 * length (wrap 2 l (printcmd l)) + 3 \<le> m" "4 * length (printcmd r) + 4 \<le> m"
    using n by (cases n) auto
  have "heads '')&;'' (''; '' @ ?r)" by (simp add: heads_def peek_Cons)
  from back_readsD [OF l m(2) this] obtain l' d t where l': "map_cmd word_of l' = l"
    "parsepipe m (wrap 2 l (printcmd l) @ ''; '' @ ?r) = Inr (d, t)" "backs d t = backs l' (''; '' @ ?r)" by blast
  from line_readsD [OF r m(3) h] obtain r' where r': "map_cmd word_of r' = r" "parseline m ?r = Inr (r', skip rest)"
    by blast
  have "parseline n (printcmd (ListC l r) @ rest) = Inr (ListC l' r', skip rest)"
    using l' r'(2) by (simp add: m backs_stop peek_Cons gettoken_symbol)
  then show "\<exists>c'. map_cmd word_of c' = ListC l r \<and> parseline n (printcmd (ListC l r) @ rest) = Inr (c', skip rest)"
    using l'(1) r'(1) by (intro exI [of _ "ListC l' r'"]) simp
qed

lemma printed_reads:
  "printable c \<Longrightarrow> exec_reads c \<and> pipe_reads c \<and> back_reads c \<and> line_reads c"
proof (induction c)
  case (ExecC as)
  then have "exec_reads (ExecC as)" by (rule exec_reads_words)
  then show ?case using pipe_reads_exec back_reads_pipe line_reads_back by force
next
  case (RedirC c f mode fd)
  then have "exec_reads (RedirC c f mode fd)" using exec_reads_redir by simp
  then show ?case using pipe_reads_exec back_reads_pipe line_reads_back by force
next
  case (PipeC l r)
  then have "pipe_reads (PipeC l r)" using pipe_reads_pipe by simp
  then show ?case using exec_reads_block back_reads_pipe line_reads_back by force
next
  case (ListC l r)
  then have "line_reads (ListC l r)" using line_reads_list by simp
  then show ?case using exec_reads_block back_reads_pipe pipe_reads_exec by force
next
  case (BackC c)
  then have "back_reads (BackC c)" using back_reads_back by simp
  then show ?case using exec_reads_block pipe_reads_exec line_reads_back by force
qed

lemma printed_no_zero: "printable c \<Longrightarrow> CHR 0x00 \<notin> set (printcmd c)"
  by (induction c) (auto simp: wrap_def)

lemma cstring_printed: "printable c \<Longrightarrow> cstring (printcmd c @ CHR 0x00 # rest) = printcmd c"
  using printed_no_zero [of c] unfolding cstring_def
  by (subst takeWhile_append2) auto

text \<open>
  C20: Parsing undoes printing. For every command over words, with at most nine arguments each and the
  file modes the shell knows, the parser reads the printed line back to the same command: the nesting
  of pipes, lists, background commands, redirections and parentheses is recovered, and the strings its
  pointers lead to in the terminated buffer are the words.
\<close>

theorem parse_print:
  assumes "printable c"
  shows "\<exists>c' buf'. parsecmd (printcmd c @ CHR 0x00 # rest) = Inr (c', buf') \<and>
    map_cmd (string_at (length (printcmd c)) buf') c' = c"
proof -
  let ?buf = "printcmd c @ CHR 0x00 # rest"
  let ?s = "printcmd c"
  let ?n = "4 * length ?s + 4"
  have s: "cstring ?buf = ?s" by (rule cstring_printed [OF assms])
  have "heads '')'' []" by (simp add: heads_def)
  from line_readsD [OF _ le_refl this] printed_reads [OF assms]
  obtain c' where c': "map_cmd word_of c' = c" "parseline ?n (?s @ []) = Inr (c', skip [])" by blast
  have "parsed ?s (parseline ?n ?s)" using parser_total [of ?s ?n] by simp
  then have w: "\<forall>t\<in>set_cmd c'. word_tok ?s t" using c'(2) by (simp add: parsed_Inr)
  have p: "parsecmd ?buf = Inr (c', zero_at (ends (length ?s) (set_cmd c')) ?buf)"
    using c'(2) by (simp add: parsecmd_def Let_def s nulterminate_zero)
  have t: "string_at (length ?s) (zero_at (ends (length ?s) (set_cmd c')) ?buf) t = word_of t" if "t \<in> set_cmd c'" for t
    using string_at_word [of "set_cmd c'" ?buf t] w that by (simp add: s)
  have "map_cmd (string_at (length ?s) (zero_at (ends (length ?s) (set_cmd c')) ?buf)) c' = c"
    by (rule trans [OF cmd.map_cong [OF refl t] c'(1)])
  then show ?thesis using p by blast
qed

theorem parse_print_witness:
  "\<exists>c' buf'. parsecmd (''( a & ; b ) > f | wc '' @ [CHR 0x00]) = Inr (c', buf') \<and>
    map_cmd (string_at 21 buf') c' =
      PipeC (RedirC (ListC (BackC (ExecC [''a''])) (ExecC [''b''])) ''f'' 0x201 1) (ExecC [''wc''])"
  using parse_print [of "PipeC (RedirC (ListC (BackC (ExecC [''a''])) (ExecC [''b''])) ''f'' 0x201 1) (ExecC [''wc''])" "[]"]
  by (simp add: wrap_def MAXARGS_def is_word_def is_space_def is_symbol_def eval_nat_numeral)

end
