(* ===== verification/Spec2Isabelle.thy ===== *)
theory Spec2Isabelle
  imports Spinlock Sched Sync Log_Full File_Refs Fs_Inode Trap Grep Sh_Print
begin

text \<open>
  A verification development for the xv6 kernel of this repository: xv6 for the x86 with an MLFQ and
  stride scheduler, threads, user semaphores and reader-writer locks, files with triple indirect
  blocks, and positional reads and writes. Sources are named below as they are under
  \<^verbatim>\<open>src/xv6-public/\<close>.

  \<^bold>\<open>Program and model.\<close> The kernel is a collection of C files over one global state. The
  state is modelled by a chain of extensible records, one per layer, so that an operation of a layer
  works on every state that extends it: \<open>kbase\<close> (process table, held spin locks, scheduler
  globals), \<open>kmem\<close> (physical memory as bytes, free list), \<open>kbio\<close> (buffer cache and
  disk), \<open>klog\<close>, \<open>kfs\<close> (superblock and inode cache), \<open>kpipe\<close>,
  \<open>kfile\<close>, \<open>ksys\<close> and \<open>kcons\<close>. An operation returns
  \<open>Ok\<close> with its result and the new state, \<open>Block\<close> with the channel it sleeps on
  and the state in which the scheduler goes on, or \<open>Fault\<close> for a panic, a division by zero,
  undefined behaviour of C or a loop that does not end. What a process does after it is woken is the
  operation with the suffix \<open>_resume\<close>. Pointers to table entries are indices, pointers to
  pages are addresses. Integers are words or have their wrap-around written out where it matters.

  \<^bold>\<open>Theories.\<close>
  \<^item> \<open>Xv6_Prelude\<close>: results and \<open>kbind\<close>, searching a table, little-endian
    words in byte arrays, reachability, and the interfaces \<open>slot_table\<close> (claiming the first
    free entry), \<open>fifo\<close> (a bounded queue) and \<open>invariant_machine\<close>.
  \<^item> \<open>Proc_Base\<close>: \<open>proc.h\<close>, \<open>spinlock.c\<close> as far as one CPU shows it,
    sleep, wakeup, kill of \<open>proc.c\<close>.
  \<^item> \<open>Spinlock\<close>: \<open>spinlock.c\<close> on several CPUs, with the \<open>xchg\<close> loop, the stores of \<open>release\<close> and the
    nesting of \<open>pushcli\<close>; exclusion, and that a call of the code, interleaved with those of other CPUs,
    ends where the locks of \<open>Proc_Base\<close> say.
  \<^item> \<open>Sched\<close>: the scheduler of \<open>proc.c\<close>. A round is \<open>scheduler_pick\<close>, the
    run of the process, and \<open>scheduler_return\<close>. The lemmas show what the two scans choose, the
    tick invariant, the boost, the behaviour of \<open>set_cpu_share\<close>, and, on one CPU whose processes reserve
    a share at most once, the bounds of the passes.
  \<^item> \<open>Sync\<close>: semaphores, reader-writer locks and \<open>thread_safe_guard.c\<close> as a step
    relation over any number of threads, one step per access to a lock word; exclusion and absence of
    deadlock.
  \<^item> \<open>Mem_String\<close>: \<open>string.c\<close> and the memory routines of \<open>ulib.c\<close>.
  \<^item> \<open>Kalloc\<close>, \<open>Vm\<close>, \<open>Umem\<close>: \<open>kalloc.c\<close>, \<open>vm.c\<close> over the byte memory,
    and kernel accesses to user addresses. The free list is threaded through the pages, page tables lie
    in pages, and the lemmas keep both well formed (\<open>pool\<close>, \<open>pt_wf\<close>).
  \<^item> \<open>Sleeplock\<close>, \<open>Bio\<close>: \<open>sleeplock.c\<close>, \<open>bio.c\<close> and
    \<open>memide.c\<close>. \<open>cache_ok\<close> is the consistency of the cache, \<open>view\<close> what a
    reader of a block gets; every operation is described by its effect on them.
  \<^item> \<open>Log\<close>, \<open>Log_Space\<close>, \<open>Log_Full\<close>: \<open>log.c\<close>. \<open>Log\<close> gives the sequence of disk
    writes of a commit and of a recovery, and from them the content of the disk after a crash at any
    point; \<open>Log_Space\<close> treats the space that \<open>begin_op\<close> reserves, as a machine of calls that add at
    most \<open>MAXOPBLOCKS\<close> blocks each, and \<open>Log_Full\<close> the run that fills a log of \<open>LOGSIZE\<close> blocks. That a
    system call keeps to \<open>MAXOPBLOCKS\<close> is not shown.
  \<^item> \<open>Fs\<close>, \<open>Pipe\<close>, \<open>File\<close>: \<open>fs.c\<close>, \<open>pipe.c\<close>, \<open>file.c\<close>.
    The pipe ring implements \<open>fifo\<close>.
  \<^item> \<open>Proc_Ops\<close>: process and thread life cycle of \<open>proc.c\<close>.
  \<^item> \<open>Syscall\<close>, \<open>Sysproc\<close>, \<open>Sysfile\<close>, \<open>Exec\<close>, \<open>Console\<close>,
    \<open>Trap\<close>: argument fetching, every system call handler, program loading, the console with its
    line editing, and the dispatch of traps.
  \<^item> \<open>Fs_Data\<close>, \<open>Fs_Inode\<close>: the content of files and inodes as readers of the disk see it.
    \<open>fblock\<close> is where \<open>bmap\<close> finds a block, \<open>fbyte\<close> a byte of a file; \<open>readi\<close> and \<open>writei\<close> are
    described by them, \<open>iupdate\<close> and \<open>ilock\<close> by the on-disk inode. A write is shown within a file
    that has its blocks; allocation by \<open>balloc\<close> is modelled and has no property of its own.
  \<^item> \<open>File_Refs\<close>: the calls of the file table as a machine whose invariant ties every
    reference count to the references outstanding.
  \<^item> \<open>Grep\<close>: the matcher and the line loop of \<open>grep.c\<close>.
  \<^item> \<open>Sh\<close>, \<open>Sh_Print\<close>: the command parser of \<open>sh.c\<close>. A pointer into the command line
    is the text from it to the end. The parser returns, its words are intact after
    \<open>nulterminate\<close>, and it reads a printed command back.

  \<^bold>\<open>Bounds.\<close> Loops over a fixed structure carry a bound: the ring of buffers has
  \<open>NBUF\<close> members, a page-table walk covers at most \<open>2 ^ 20\<close> pages; running past it is
  the fault \<open>Diverges\<close>, and the properties show that their calls return. Loops that only stop
  at a zero byte are partial functions. The depth of the command parser's calls is bounded by four
  times the length of the line and four, which \<open>parser_total\<close> shows is never used up.

  \<^bold>\<open>Not modelled.\<close> Interleaving inside a kernel operation: the model runs an operation to
  its end or to the point where it sleeps, which the locks justify; the steps of
  the locks themselves are interleaved in \<open>Spinlock\<close> and \<open>Sync\<close>. The call stacks recorded in locks are
  left out, and so are \<open>runcmd\<close> and the loop of the shell, which only issue system calls. Device
  registers (\<open>lapic.c\<close>, \<open>ioapic.c\<close>, \<open>picirq.c\<close>, \<open>mp.c\<close>, \<open>ide.c\<close>), the boot code and the assembly entry points have no state
  that the kernel's C code reads back; what they deliver (interrupt numbers, key codes, the time) is a
  parameter. The test programs only print what they observe. Code that the compiler or the loader
  provides is not part of the sources.
\<close>

end
